(* ===== verification/Prelude.thy ===== *)
theory Prelude
  imports Main "HOL-Library.Word" "HOL-Library.Char_ord" "HOL-Library.List_Lexorder"
    "HOL-Library.AList"
begin

text \<open>
  Shared vocabulary of the development: the C++ integer types at their widths, bytes as
  characters, \<^verbatim>\<open>std::to_string\<close> and \<^verbatim>\<open>std::stoi\<close>, the exceptions the code can raise,
  associative containers as association lists, and the generic lemmas on lists, words and
  keys that the components share.
\<close>

unbundle bit_operations_syntax

named_theorems codec \<open>encode and decode steps of the binary formats\<close>
named_theorems wordnat \<open>machine words read as natural numbers\<close>
named_theorems assoc \<open>lookup after update in an association list\<close>


section \<open>Machine integers\<close>

type_synonym u8 = "8 word"
type_synonym u16 = "16 word"
type_synonym u32 = "32 word"
type_synonym u64 = "64 word"

text \<open>
  A C++ \<^verbatim>\<open>int\<close> is a 32-bit two's complement number. It is a type of its own, because its
  order is the signed one (\<^verbatim>\<open>partition < 0\<close>, \<^verbatim>\<open>std::sort\<close>, \<^verbatim>\<open>std::min\<close> all use it) while the
  library orders words as unsigned numbers.
\<close>

datatype int32 = Int32 (bits32: u32)

definition val32 :: "int32 \<Rightarrow> int" where
  "val32 i = sint (bits32 i)"

definition int32_of :: "int \<Rightarrow> int32" where
  "int32_of i = Int32 (word_of_int i)"

lemma val32_inject [simp]: "val32 a = val32 b \<longleftrightarrow> a = b"
  by (cases a; cases b) (auto simp: val32_def dest: arg_cong [where f = "word_of_int :: int \<Rightarrow> u32"])

instantiation int32 :: linorder
begin

definition less_eq_int32 :: "int32 \<Rightarrow> int32 \<Rightarrow> bool" where
  "a \<le> b \<longleftrightarrow> val32 a \<le> val32 b"

definition less_int32 :: "int32 \<Rightarrow> int32 \<Rightarrow> bool" where
  "a < b \<longleftrightarrow> val32 a < val32 b"

instance
  by standard (auto simp: less_eq_int32_def less_int32_def)

end

lemma val32_range: "- 2147483648 \<le> val32 i" "val32 i < 2147483648"
proof -
  have "val32 i = signed_take_bit 31 (uint (bits32 i))"
    by (simp add: val32_def sint_uint)
  then show "- 2147483648 \<le> val32 i" "val32 i < 2147483648"
    using signed_take_bit_int_greater_eq_minus_exp [of 31 "uint (bits32 i)"]
      signed_take_bit_int_less_exp [of 31 "uint (bits32 i)"] by simp_all
qed

lemma val32_int32_of:
  assumes "- 2147483648 \<le> i" "i < 2147483648"
  shows "val32 (int32_of i) = i"
proof -
  have "signed_take_bit 31 i = i"
    using assms by (intro signed_take_bit_int_eq_self) simp_all
  then show ?thesis
    by (simp add: val32_def int32_of_def sint_sbintrunc')
qed

lemma int32_of_val32 [simp]: "int32_of (val32 i) = i"
  by (cases i) (simp add: val32_def int32_of_def)

lemma unat_add_u64 [wordnat]:
  "unat a + unat b < 2 ^ 64 \<Longrightarrow> unat (a + b :: u64) = unat a + unat b"
  by (simp add: unat_word_ariths)

lemma unat_sub_u64 [wordnat]:
  "b \<le> a \<Longrightarrow> unat (a - b :: u64) = unat a - unat b"
  by (simp add: unat_sub)

lemma unat_of_nat_u64 [wordnat]:
  "n < 2 ^ 64 \<Longrightarrow> unat (of_nat n :: u64) = n"
  by (simp add: unat_of_nat)

lemma unat_of_nat_u32 [wordnat]:
  "n < 2 ^ 32 \<Longrightarrow> unat (of_nat n :: u32) = n"
  by (simp add: unat_of_nat)

lemma of_nat_less_u64: "a < 2 ^ 64 \<Longrightarrow> b < 2 ^ 64 \<Longrightarrow> (of_nat a :: u64) < of_nat b \<longleftrightarrow> a < b"
  by (simp add: word_less_nat_alt unat_of_nat_u64)

lemma of_nat_eq_u64: "a < 2 ^ 64 \<Longrightarrow> b < 2 ^ 64 \<Longrightarrow> (of_nat a :: u64) = of_nat b \<longleftrightarrow> a = b"
  by (simp add: word_unat_eq_iff unat_of_nat_u64)

lemma unat_lt_u64: "unat (a :: u64) < 2 ^ 64"
  using unsigned_less [of a] by simp


section \<open>Bytes\<close>

text \<open>
  A \<^verbatim>\<open>std::string\<close> is a sequence of bytes, modelled as a HOL \<^typ>\<open>string\<close>; a
  \<^verbatim>\<open>static_cast\<close> between \<^verbatim>\<open>char\<close> and \<^verbatim>\<open>uint8_t\<close> keeps the eight bits.
\<close>

definition char_of_u8 :: "u8 \<Rightarrow> char" where
  "char_of_u8 b = char_of (unat b)"

definition u8_of_char :: "char \<Rightarrow> u8" where
  "u8_of_char c = word_of_nat (of_char c)"

lemma char_of_u8_of_char [simp, codec]: "char_of_u8 (u8_of_char c) = c"
  by (simp add: u8_of_char_def char_of_u8_def unat_of_nat)

lemma u8_of_char_of_u8 [simp, codec]: "u8_of_char (char_of_u8 b) = b"
proof -
  have "unat b < 256"
    using unsigned_less [of b] by simp
  then show ?thesis
    by (simp add: u8_of_char_def char_of_u8_def)
qed


section \<open>Exceptions\<close>

text \<open>
  The exceptions the code throws, as values: \<^verbatim>\<open>std::runtime_error\<close>, \<^verbatim>\<open>std::out_of_range\<close> and
  \<^verbatim>\<open>std::invalid_argument\<close> with their messages, the \<^verbatim>\<open>filesystem_error\<close> of \<^verbatim>\<open>std::filesystem\<close>,
  and, for a loop that never ends, the value \<open>No_return\<close>.
\<close>

datatype failure =
    Runtime_error string
  | Out_of_range string
  | Invalid_argument string
  | Filesystem_error string
  | No_return


section \<open>Decimal numbers: \<open>std::to_string\<close> and \<open>std::stoi\<close>\<close>

definition digit_char :: "nat \<Rightarrow> char" where
  "digit_char d = char_of (48 + d)"

definition is_digit :: "char \<Rightarrow> bool" where
  "is_digit c \<longleftrightarrow> 48 \<le> (of_char c :: nat) \<and> (of_char c :: nat) \<le> 57"

definition is_space :: "char \<Rightarrow> bool" where
  "is_space c \<longleftrightarrow> (of_char c :: nat) = 32 \<or> 9 \<le> (of_char c :: nat) \<and> (of_char c :: nat) \<le> 13"

fun show_nat :: "nat \<Rightarrow> string" where
  "show_nat n =
     (if n < 10 then [digit_char n] else show_nat (n div 10) @ [digit_char (n mod 10)])"

declare show_nat.simps [simp del]

definition to_string_int :: "int32 \<Rightarrow> string" where
  "to_string_int i =
     (if val32 i < 0 then CHR ''-'' # show_nat (nat (- val32 i)) else show_nat (nat (val32 i)))"

definition to_string_u64 :: "u64 \<Rightarrow> string" where
  "to_string_u64 w = show_nat (unat w)"

definition digits_value :: "string \<Rightarrow> nat" where
  "digits_value ds = foldl (\<lambda>v c. 10 * v + (of_char c - 48)) 0 ds"

text \<open>
  \<^verbatim>\<open>std::stoi\<close>: leading white space is skipped, an optional sign and the longest run of
  digits are read, and whatever follows them is ignored.
\<close>

definition stoi :: "string \<Rightarrow> failure + int32" where
  "stoi s =
     (let s1 = dropWhile is_space s;
          neg = (s1 \<noteq> [] \<and> hd s1 = CHR ''-'');
          s2 = (if s1 \<noteq> [] \<and> (hd s1 = CHR ''-'' \<or> hd s1 = CHR ''+'') then tl s1 else s1);
          ds = takeWhile is_digit s2;
          i = (if neg then - int (digits_value ds) else int (digits_value ds))
      in if ds = [] then Inl (Invalid_argument ''stoi'')
         else if i < - 2147483648 \<or> 2147483647 < i then Inl (Out_of_range ''stoi'')
         else Inr (int32_of i))"

lemma of_char_digit_char [simp]: "d < 10 \<Longrightarrow> (of_char (digit_char d) :: nat) = 48 + d"
  by (simp add: digit_char_def)

lemma is_digit_digit_char [simp]: "d < 10 \<Longrightarrow> is_digit (digit_char d)"
  by (simp add: is_digit_def)

lemma show_nat_not_Nil [simp]: "show_nat n \<noteq> []"
  by (subst show_nat.simps) simp

lemma show_nat_digits: "c \<in> set (show_nat n) \<Longrightarrow> is_digit c"
proof (induction n rule: show_nat.induct)
  case (1 n)
  then show ?case
    by (subst (asm) (2) show_nat.simps) (auto split: if_splits)
qed

lemma digits_value_snoc: "digits_value (ds @ [c]) = 10 * digits_value ds + (of_char c - 48)"
  by (simp add: digits_value_def)

lemma digits_value_show_nat [simp]: "digits_value (show_nat n) = n"
proof (induction n rule: show_nat.induct)
  case (1 n)
  show ?case
  proof (cases "n < 10")
    case True
    then show ?thesis
      by (subst show_nat.simps) (simp add: digits_value_def)
  next
    case False
    with "1" show ?thesis
      by (subst show_nat.simps) (simp add: digits_value_snoc)
  qed
qed

lemma show_nat_inject [simp]: "show_nat m = show_nat n \<longleftrightarrow> m = n"
  by (metis digits_value_show_nat)

lemma to_string_u64_inject [simp]: "to_string_u64 a = to_string_u64 b \<longleftrightarrow> a = b"
  by (simp add: to_string_u64_def word_unat_eq_iff)

lemma to_string_int_nonneg: "0 \<le> val32 i \<Longrightarrow> to_string_int i = show_nat (nat (val32 i))"
  by (simp add: to_string_int_def)

lemma digit_not_sign:
  "\<not> is_digit CHR ''-''" "\<not> is_digit CHR '':''" "\<not> is_digit CHR ''+''"
  by (simp_all add: is_digit_def)

lemma digit_not_space: "is_digit c \<Longrightarrow> \<not> is_space c"
  by (simp add: is_digit_def is_space_def)

lemma to_string_int_no_dash: "0 \<le> val32 i \<Longrightarrow> CHR ''-'' \<notin> set (to_string_int i)"
  using show_nat_digits digit_not_sign by (auto simp: to_string_int_def)

lemma to_string_int_inject:
  "0 \<le> val32 i \<Longrightarrow> 0 \<le> val32 j \<Longrightarrow> to_string_int i = to_string_int j \<longleftrightarrow> i = j"
  by (auto simp: to_string_int_def nat_eq_iff simp flip: val32_inject)

lemma takeWhile_digits:
  "(\<And>c. c \<in> set ds \<Longrightarrow> is_digit c) \<Longrightarrow> rest = [] \<or> \<not> is_digit (hd rest) \<Longrightarrow>
   takeWhile is_digit (ds @ rest) = ds"
  by (cases rest) (auto simp: takeWhile_append2 takeWhile_tail)

text \<open>
  The number printed by \<^verbatim>\<open>std::to_string\<close> is read back by \<^verbatim>\<open>std::stoi\<close>, even when other
  characters follow, as long as these do not begin with a digit.
\<close>

lemma stoi_to_string_int:
  assumes "0 \<le> val32 i" and "rest = [] \<or> \<not> is_digit (hd rest)"
  shows "stoi (to_string_int i @ rest) = Inr i"
proof -
  define ds where "ds = show_nat (nat (val32 i))"
  obtain c cs where cs: "ds = c # cs"
    using show_nat_not_Nil by (metis ds_def list.exhaust)
  have dig: "\<And>c. c \<in> set ds \<Longrightarrow> is_digit c"
    by (simp add: ds_def show_nat_digits)
  then have c: "is_digit c" "\<not> is_space c" "c \<noteq> CHR ''-''" "c \<noteq> CHR ''+''"
    using cs digit_not_sign digit_not_space by auto
  have "takeWhile is_digit (ds @ rest) = ds"
    using dig assms(2) by (rule takeWhile_digits)
  moreover have "digits_value ds = nat (val32 i)"
    by (simp add: ds_def)
  ultimately show ?thesis
    using assms(1) val32_range [of i] c cs
    by (auto simp: stoi_def to_string_int_nonneg Let_def simp flip: ds_def)
qed


section \<open>Lists, keys and association lists\<close>

lemma split_at_last:
  assumes "xs @ c # ys = xs' @ c # ys'" and "c \<notin> set ys" and "c \<notin> set ys'"
  shows "xs = xs' \<and> ys = ys'"
proof -
  have "takeWhile (\<lambda>x. x \<noteq> c) (rev (xs @ c # ys)) = rev ys"
    using assms(2) by (auto simp: takeWhile_append)
  moreover have "takeWhile (\<lambda>x. x \<noteq> c) (rev (xs' @ c # ys')) = rev ys'"
    using assms(3) by (auto simp: takeWhile_append)
  ultimately have "ys = ys'"
    using assms(1) by (metis rev_rev_ident)
  with assms(1) show ?thesis by simp
qed

lemma takeWhile_none: "(\<And>x. x \<in> set xs \<Longrightarrow> \<not> P x) \<Longrightarrow> takeWhile P xs = []"
  by (cases xs) auto

lemma takeWhile_append_none: "takeWhile P ys = [] \<Longrightarrow> takeWhile P (xs @ ys) = takeWhile P xs"
  by (induction xs) auto

lemma map_of_update [simp, assoc]:
  "map_of (AList.update k v t) = (map_of t)(k \<mapsto> v)"
  by (simp add: update_conv')

lemma map_of_delete [simp, assoc]:
  "map_of (AList.delete k t) = (map_of t)(k := None)"
  by (simp add: delete_conv')


section \<open>Programs with state and exceptions\<close>

text \<open>
  A method that changes its object and may throw takes the state and returns either an
  exception or a value, together with the state as it is at that point: an exception does not
  undo what was done before it.
\<close>

type_synonym ('s, 'a) prog = "'s \<Rightarrow> (failure + 'a) \<times> 's"

definition ret :: "'a \<Rightarrow> ('s, 'a) prog" where
  "ret x s = (Inr x, s)"

definition throw :: "failure \<Rightarrow> ('s, 'a) prog" where
  "throw e s = (Inl e, s)"

definition seq :: "('s, 'a) prog \<Rightarrow> ('a \<Rightarrow> ('s, 'b) prog) \<Rightarrow> ('s, 'b) prog" where
  "seq m f s = (case m s of (Inl e, s') \<Rightarrow> (Inl e, s') | (Inr x, s') \<Rightarrow> f x s')"

definition modify :: "('s \<Rightarrow> 's) \<Rightarrow> ('s, unit) prog" where
  "modify f s = (Inr (), f s)"

definition gets :: "('s \<Rightarrow> 'a) \<Rightarrow> ('s, 'a) prog" where
  "gets f s = (Inr (f s), s)"

fun for_each :: "('x \<Rightarrow> ('s, unit) prog) \<Rightarrow> 'x list \<Rightarrow> ('s, unit) prog" where
  "for_each f [] = ret ()"
| "for_each f (x # xs) = seq (f x) (\<lambda>_. for_each f xs)"

named_theorems prog \<open>stepping through a program with state and exceptions\<close>

lemma ret_apply [prog]: "ret x s = (Inr x, s)"
  by (simp add: ret_def)

lemma throw_apply [prog]: "throw e s = (Inl e, s)"
  by (simp add: throw_def)

lemma modify_apply [prog]: "modify f s = (Inr (), f s)"
  by (simp add: modify_def)

lemma gets_apply [prog]: "gets f s = (Inr (f s), s)"
  by (simp add: gets_def)

lemma seq_Inr [prog]: "m s = (Inr x, s') \<Longrightarrow> seq m f s = f x s'"
  by (simp add: seq_def)

lemma seq_Inl [prog]: "m s = (Inl e, s') \<Longrightarrow> seq m f s = (Inl e, s')"
  by (simp add: seq_def)

lemma seq_InrE:
  assumes "seq m f s = (Inr y, t)"
  obtains x s' where "m s = (Inr x, s')" and "f x s' = (Inr y, t)"
  using assms by (auto simp: seq_def split: prod.splits sum.splits)

lemma seq_invariant:
  assumes "\<And>r t. m s = (r, t) \<Longrightarrow> P t" and "\<And>x t r u. m s = (Inr x, t) \<Longrightarrow> P t \<Longrightarrow> f x t = (r, u) \<Longrightarrow> P u"
    and "seq m f s = (r, u)"
  shows "P u"
  using assms by (auto simp: seq_def split: prod.splits sum.splits)

end
