(* ===== verification/Segment.thy ===== *)
theory Segment
  imports Prelude "HOL-Library.Sublist"
begin

text \<open>
  One segment file (\<^verbatim>\<open>include/storage/log_segment.h\<close>, \<^verbatim>\<open>src/storage/log_segment.cpp\<close>) and the
  files of a log directory. The operating system is a parameter: the record \<open>os\<close> says
  whether directories can be made, files opened, written, resized and synced. A file is its
  contents as the process sees them and the prefix known to be on stable storage. Records are
  a 64-bit length in the byte order of the machine (little endian) and the message.
\<close>


section \<open>Files and the operating system\<close>

datatype node = Regular (contents: string) (durable: string) | Not_regular

type_synonym dir = "(string \<times> node) list"

text \<open>
  \<open>write_out os name n\<close> is the outcome of writing \<open>n\<close> bytes through a stream: how many of
  them reach the file and whether the stream is still good afterwards.
\<close>

record os =
  mkdir_ok :: bool
  open_ok :: "string \<Rightarrow> bool"
  write_out :: "string \<Rightarrow> nat \<Rightarrow> nat \<times> bool"
  fsync_ok :: "string \<Rightarrow> bool"
  resize_ok :: "string \<Rightarrow> bool"

definition healthy :: "os \<Rightarrow> bool" where
  "healthy e \<longleftrightarrow> mkdir_ok e \<and> (\<forall>p. open_ok e p \<and> fsync_ok e p \<and> resize_ok e p) \<and>
     (\<forall>p n. write_out e p n = (n, True))"

definition healthy_os :: os where
  "healthy_os = \<lparr>mkdir_ok = True, open_ok = (\<lambda>p. True), write_out = (\<lambda>p n. (n, True)),
     fsync_ok = (\<lambda>p. True), resize_ok = (\<lambda>p. True)\<rparr>"

definition file_contents :: "dir \<Rightarrow> string \<Rightarrow> string" where
  "file_contents d p = (case map_of d p of Some (Regular c s) \<Rightarrow> c | _ \<Rightarrow> [])"

definition write_file :: "os \<Rightarrow> string \<Rightarrow> string \<Rightarrow> dir \<Rightarrow> bool \<times> dir" where
  "write_file e p bs d =
     (case map_of d p of
        Some (Regular c s) \<Rightarrow>
          (case write_out e p (length bs) of
             (k, good) \<Rightarrow> (good, AList.update p (Regular (c @ take k bs) s) d))
      | _ \<Rightarrow> (False, d))"

definition sync_file :: "os \<Rightarrow> string \<Rightarrow> dir \<Rightarrow> bool \<times> dir" where
  "sync_file e p d =
     (case map_of d p of
        Some (Regular c s) \<Rightarrow>
          if open_ok e p \<and> fsync_ok e p then (True, AList.update p (Regular c c) d) else (False, d)
      | _ \<Rightarrow> (False, d))"

fun resize_to :: "nat \<Rightarrow> string \<Rightarrow> string" where
  "resize_to n s = take n s @ replicate (n - length s) (char_of (0 :: nat))"

section \<open>Little-endian numbers\<close>

primrec le_bytes :: "nat \<Rightarrow> u64 \<Rightarrow> string" where
  "le_bytes 0 w = []"
| "le_bytes (Suc n) w = char_of_u8 (ucast w) # le_bytes n (drop_bit 8 w)"

fun of_le :: "string \<Rightarrow> u64" where
  "of_le [] = 0"
| "of_le (c # cs) = ucast (u8_of_char c) OR push_bit 8 (of_le cs)"

abbreviation le64 :: "u64 \<Rightarrow> string" where
  "le64 \<equiv> le_bytes 8"


section \<open>LogSegment\<close>

record log_segment =
  filePath :: string
  base_offset :: u64
  current_size :: u64

definition segment_reopen :: "os \<Rightarrow> log_segment \<Rightarrow> dir \<Rightarrow> (failure + log_segment) \<times> dir" where
  "segment_reopen e seg d =
     (if \<not> mkdir_ok e then (Inl (Filesystem_error ''create_directories''), d)
      else
        (let p = filePath seg;
             d' = (if map_of d p = None \<and> open_ok e p then AList.update p (Regular [] []) d else d)
         in case map_of d' p of
              Some (Regular c s) \<Rightarrow>
                if open_ok e p then (Inr (seg\<lparr>current_size := of_nat (length c)\<rparr>), d')
                else (Inl (Runtime_error (''unable to open log segment: '' @ p)), d')
            | _ \<Rightarrow> (Inl (Runtime_error (''unable to open log segment: '' @ p)), d')))"

definition new_segment :: "os \<Rightarrow> string \<Rightarrow> dir \<Rightarrow> (failure + log_segment) \<times> dir" where
  "new_segment e path d =
     segment_reopen e \<lparr>filePath = path, base_offset = 0, current_size = 0\<rparr> d"

definition segment_append ::
  "os \<Rightarrow> string \<Rightarrow> log_segment \<Rightarrow> dir \<Rightarrow> (failure + u64) \<times> log_segment \<times> dir" where
  "segment_append e msg seg d =
     (let current_write_position = current_size seg;
          len = of_nat (length msg) :: u64;
          (good, d') = write_file e (filePath seg) (le64 len @ msg) d
      in if \<not> good then (Inl (Runtime_error ''log segment write failed''), seg, d')
         else (Inr current_write_position, seg\<lparr>current_size := current_size seg + (8 + len)\<rparr>, d'))"

definition segment_read :: "u64 \<Rightarrow> log_segment \<Rightarrow> dir \<Rightarrow> failure + string" where
  "segment_read position seg d =
     (if current_size seg < position \<or> current_size seg - position < 8
      then Inl (Out_of_range ''invalid record position'')
      else
        (let c = file_contents d (filePath seg);
             header = take 8 (drop (unat position) c);
             len = of_le header
         in if length header < 8 \<or> current_size seg - position - 8 < len
            then Inl (Out_of_range ''incomplete record'')
            else
              (let msg = take (unat len) (drop (unat position + 8) c)
               in if length msg < unat len then Inl (Out_of_range ''incomplete record'')
                  else Inr msg)))"

definition segment_flush :: "log_segment \<Rightarrow> dir \<Rightarrow> dir" where
  "segment_flush seg d = d"

definition segment_sync :: "os \<Rightarrow> log_segment \<Rightarrow> dir \<Rightarrow> (failure + unit) \<times> dir" where
  "segment_sync e seg d =
     (case sync_file e (filePath seg) (segment_flush seg d) of
        (ok, d') \<Rightarrow> (if ok then Inr () else Inl (Runtime_error ''segment fsync failed''), d'))"

definition segment_truncate :: "os \<Rightarrow> u64 \<Rightarrow> log_segment \<Rightarrow> dir \<Rightarrow> (failure + log_segment) \<times> dir" where
  "segment_truncate e sz seg d =
     (case map_of d (filePath seg) of
        Some (Regular c s) \<Rightarrow>
          if resize_ok e (filePath seg) then
            segment_reopen e (seg\<lparr>current_size := sz\<rparr>)
              (AList.update (filePath seg) (Regular (resize_to (unat sz) c) (take (unat sz) s)) d)
          else (Inl (Filesystem_error ''resize_file''), d)
      | _ \<Rightarrow> (Inl (Filesystem_error ''resize_file''), d))"

definition sizes :: "log_segment \<Rightarrow> u64" where
  "sizes seg = current_size seg"


section \<open>Records in a segment\<close>

lemma healthy_healthy_os [simp]: "healthy healthy_os"
  by (simp add: healthy_def healthy_os_def)

lemma length_le_bytes [simp]: "length (le_bytes n w) = n"
  by (induction n arbitrary: w) simp_all

lemma of_le_le_bytes: "of_le (le_bytes n w) = take_bit (8 * n) w"
proof (induction n arbitrary: w)
  case (Suc n)
  then show ?case
    by (auto intro!: bit_word_eqI simp: bit_simps)
qed simp

lemma of_le_le64 [simp]: "of_le (le64 w) = w"
  by (simp add: of_le_le_bytes take_bit_word_eq_self)

text \<open>The bytes of a record and of a run of records.\<close>

definition enc_record :: "string \<Rightarrow> string" where
  "enc_record m = le64 (of_nat (length m)) @ m"

definition enc_records :: "string list \<Rightarrow> string" where
  "enc_records ms = concat (map enc_record ms)"

lemma length_enc_record [simp]: "length (enc_record m) = 8 + length m"
  by (simp add: enc_record_def)

lemma enc_records_simps [simp]:
  "enc_records [] = []" "enc_records (m # ms) = enc_record m @ enc_records ms"
  "enc_records (ms @ ns) = enc_records ms @ enc_records ns"
  by (simp_all add: enc_records_def)

lemma length_enc_records: "length (enc_records ms) = (\<Sum>m\<leftarrow>ms. 8 + length m)"
  by (induction ms) simp_all

lemma length_enc_records_ge: "8 * length ms \<le> length (enc_records ms)"
  by (induction ms) simp_all

text \<open>What is visible under a name, and a segment object that describes its file.\<close>

definition visible :: "dir \<Rightarrow> string \<Rightarrow> string option" where
  "visible d p = (case map_of d p of Some (Regular c s) \<Rightarrow> Some c | _ \<Rightarrow> None)"

lemma visible_Some: "visible d p = Some c \<longleftrightarrow> (\<exists>s. map_of d p = Some (Regular c s))"
  by (auto simp: visible_def split: option.splits node.splits)

lemma visible_update [simp]:
  "visible (AList.update p (Regular c s) d) = (visible d)(p \<mapsto> c)"
  by (auto simp: visible_def)

lemma visible_fresh: "map_of d p = None \<Longrightarrow> visible d p = None"
  by (simp add: visible_def)

definition stable :: "dir \<Rightarrow> string \<Rightarrow> string" where
  "stable d p = (case map_of d p of Some (Regular c s) \<Rightarrow> s | _ \<Rightarrow> [])"

lemma stable_update [simp]: "stable (AList.update p (Regular c s) d) = (stable d)(p := s)"
  by (auto simp: stable_def)

lemma visible_stable: "visible d p = Some c \<longleftrightarrow> map_of d p = Some (Regular c (stable d p))"
  by (auto simp: visible_def stable_def split: option.splits node.splits)

definition seg_file :: "log_segment \<Rightarrow> dir \<Rightarrow> string \<Rightarrow> bool" where
  "seg_file seg d c \<longleftrightarrow> visible d (filePath seg) = Some c \<and>
     length c < 2 ^ 64 \<and> current_size seg = of_nat (length c)"

lemma seg_file_size: "seg_file seg d c \<Longrightarrow> unat (current_size seg) = length c"
  by (auto simp: seg_file_def unat_of_nat_u64)

lemma seg_file_contents: "seg_file seg d c \<Longrightarrow> file_contents d (filePath seg) = c"
  by (auto simp: seg_file_def file_contents_def visible_Some)

lemma seg_file_frame: "seg_file seg d c \<Longrightarrow> visible d' (filePath seg) = visible d (filePath seg) \<Longrightarrow> seg_file seg d' c"
  by (simp add: seg_file_def)

text \<open>Reading at the start of a record returns it; reading a torn tail throws.\<close>

lemma segment_read_record:
  assumes "seg_file seg d (enc_records pre @ enc_record m @ rest)"
  shows "segment_read (of_nat (length (enc_records pre))) seg d = Inr m"
proof -
  let ?c = "enc_records pre @ enc_record m @ rest" and ?p = "length (enc_records pre)"
  have lt: "length ?c < 2 ^ 64" using assms by (simp add: seg_file_def)
  note size = seg_file_size [OF assms]
  have p: "unat (of_nat ?p :: u64) = ?p" and m: "unat (of_nat (length m) :: u64) = length m"
    using lt by (simp_all add: unat_of_nat_u64)
  have le: "of_nat ?p \<le> current_size seg"
    using p size by (simp add: word_le_nat_alt)
  have diff: "unat (current_size seg - of_nat ?p) = 8 + length m + length rest"
    using le p size by (simp add: unat_sub_u64)
  then have ge8: "8 \<le> current_size seg - of_nat ?p"
    by (simp add: word_le_nat_alt)
  then have "unat (current_size seg - of_nat ?p - 8) = length m + length rest"
    using diff by (simp add: unat_sub_u64)
  then have "of_nat (length m) \<le> current_size seg - of_nat ?p - 8"
    using m by (simp add: word_le_nat_alt)
  then show ?thesis
    using le ge8 p m unfolding segment_read_def seg_file_contents [OF assms]
    by (simp add: not_less Let_def enc_record_def)
qed

lemma segment_read_bounds:
  assumes "segment_read position seg d = Inr msg"
  shows "unat position + 8 + length msg \<le> unat (current_size seg)"
proof -
  let ?c = "current_size seg"
  define h where "h = take 8 (drop (unat position) (file_contents d (filePath seg)))"
  from assms have le: "position \<le> ?c" "8 \<le> ?c - position" "of_le h \<le> ?c - position - 8"
    and msg: "length msg = unat (of_le h)"
    by (auto simp: segment_read_def Let_def h_def not_less split: if_splits)
  have "unat (?c - position) = unat ?c - unat position" "unat (8::u64) \<le> unat (?c - position)"
    "unat (?c - position - 8) = unat (?c - position) - 8"
    using le by (simp_all add: unat_sub_u64 word_le_nat_alt)
  then show ?thesis
    using le(1,3) msg by (simp add: word_le_nat_alt)
qed

lemma position_advance:
  assumes "segment_read position seg d = Inr msg"
  shows "unat (position + (8 + of_nat (length msg))) = unat position + 8 + length msg"
proof -
  have "unat position + 8 + length msg < 2 ^ 64"
    using segment_read_bounds [OF assms] unat_lt_u64 [of "current_size seg"] by linarith
  then show ?thesis
    by (simp add: unat_add_u64 unat_of_nat_u64)
qed

end
