(* ===== verification/PartitionLog.thy ===== *)
theory PartitionLog
  imports Segment
begin

text \<open>
  The log of one topic partition (\<^verbatim>\<open>include/storage/log.h\<close>, \<^verbatim>\<open>src/storage/log.cpp\<close>):
  segment files, a sparse index, a write-ahead log, batched syncing, and start-up, which
  rebuilds the index from the segments and replays the write-ahead log.
\<close>


section \<open>State\<close>

record LogIndexEntry =
  entry_offset :: u64
  entry_segment :: nat
  entry_position :: u64

record log =
  log_dir :: dir
  segments :: "log_segment list"
  index :: "LogIndexEntry list"
  active_segment_index :: nat
  next_offset :: u64
  max_segment_size :: u64
  sync_batch_size :: u64
  pending_appends :: u64

definition kIndexStride :: u64 where
  "kIndexStride = 64"

definition wal_name :: string where
  "wal_name = ''append.wal''"

definition segment_name :: "nat \<Rightarrow> string" where
  "segment_name n = ''segment-'' @ show_nat n @ ''.log''"

text \<open>Lifting the operations of a segment object to the log that owns it.\<close>

definition on_dir :: "(dir \<Rightarrow> (failure + 'a) \<times> dir) \<Rightarrow> (log, 'a) prog" where
  "on_dir f L = (case f (log_dir L) of (r, d) \<Rightarrow> (r, L\<lparr>log_dir := d\<rparr>))"

definition on_segment ::
  "nat \<Rightarrow> (log_segment \<Rightarrow> dir \<Rightarrow> (failure + 'a) \<times> log_segment \<times> dir) \<Rightarrow> (log, 'a) prog" where
  "on_segment i f L =
     (case f (segments L ! i) (log_dir L) of
        (r, seg, d) \<Rightarrow> (r, L\<lparr>segments := (segments L)[i := seg], log_dir := d\<rparr>))"

definition push_segment :: "os \<Rightarrow> string \<Rightarrow> (log, unit) prog" where
  "push_segment e path =
     seq (on_dir (new_segment e path))
       (\<lambda>seg. modify (\<lambda>L. L\<lparr>segments := segments L @ [seg]\<rparr>))"

definition activate_last :: "(log, unit) prog" where
  "activate_last = modify (\<lambda>L. L\<lparr>active_segment_index := length (segments L) - 1\<rparr>)"

text \<open>
  The step that \<^verbatim>\<open>append\<close> and \<^verbatim>\<open>recover_wal\<close> share: the message goes to the active segment,
  a checkpoint is added to the index at every 64th offset and at the start of a segment, and
  the next offset advances.
\<close>

definition checkpoint :: "u64 \<Rightarrow> nat \<Rightarrow> u64 \<Rightarrow> LogIndexEntry list" where
  "checkpoint offset si position =
     (if offset mod kIndexStride = 0 \<or> position = 0
      then [\<lparr>entry_offset = offset, entry_segment = si, entry_position = position\<rparr>] else [])"

definition append_record :: "os \<Rightarrow> string \<Rightarrow> (log, unit) prog" where
  "append_record e msg L =
     seq (on_segment (active_segment_index L) (segment_append e msg))
       (\<lambda>byte_position. modify (\<lambda>L. L\<lparr>
          index := index L @ checkpoint (next_offset L) (active_segment_index L) byte_position,
          next_offset := next_offset L + 1\<rparr>)) L"


section \<open>The write-ahead log and syncing\<close>

definition wal_entry :: "u64 \<Rightarrow> string \<Rightarrow> string" where
  "wal_entry offset msg = le64 offset @ le64 (of_nat (length msg)) @ msg"

definition write_wal :: "os \<Rightarrow> u64 \<Rightarrow> string \<Rightarrow> (log, unit) prog" where
  "write_wal e offset msg = on_dir (\<lambda>d.
     if \<not> mkdir_ok e then (Inl (Filesystem_error ''create_directories''), d)
     else if \<not> open_ok e wal_name \<or> map_of d wal_name = Some Not_regular
       then (Inl (Runtime_error (''unable to open WAL: '' @ wal_name)), d)
     else
       (let d' = (if map_of d wal_name = None then AList.update wal_name (Regular [] []) d else d);
            (good, d'') = write_file e wal_name (wal_entry offset msg) d'
        in (if good then Inr () else Inl (Runtime_error ''unable to write WAL''), d'')))"

definition sync_wal :: "os \<Rightarrow> (log, unit) prog" where
  "sync_wal e = on_dir (\<lambda>d.
     (case sync_file e wal_name d of
        (ok, d') \<Rightarrow> (if ok then Inr () else Inl (Runtime_error ''WAL fsync failed''), d')))"

definition clear_wal :: "os \<Rightarrow> (log, unit) prog" where
  "clear_wal e = on_dir (\<lambda>d.
     (Inr (), if open_ok e wal_name \<and> map_of d wal_name \<noteq> Some Not_regular
              then AList.update wal_name (Regular [] []) d else d))"

definition sync_segments :: "os \<Rightarrow> (log, unit) prog" where
  "sync_segments e L = for_each (\<lambda>seg. on_dir (segment_sync e seg)) (segments L) L"

definition sync_pending :: "os \<Rightarrow> (log, unit) prog" where
  "sync_pending e =
     seq (sync_wal e) (\<lambda>_.
     seq (sync_segments e) (\<lambda>_.
     seq (clear_wal e) (\<lambda>_.
     modify (\<lambda>L. L\<lparr>pending_appends := 0\<rparr>))))"


section \<open>Appending, flushing and fetching\<close>

definition rotate :: "os \<Rightarrow> (log, unit) prog" where
  "rotate e L =
     (if max_segment_size L \<le> sizes (segments L ! active_segment_index L)
      then seq (push_segment e (segment_name (length (segments L)))) (\<lambda>_. activate_last) L
      else ret () L)"

definition count_pending :: "os \<Rightarrow> (log, unit) prog" where
  "count_pending e =
     seq (modify (\<lambda>L. L\<lparr>pending_appends := pending_appends L + 1\<rparr>))
       (\<lambda>_ L. if sync_batch_size L \<le> pending_appends L then sync_pending e L else ret () L)"

definition log_append :: "os \<Rightarrow> string \<Rightarrow> (log, u64) prog" where
  "log_append e msg =
     seq (gets next_offset) (\<lambda>offset.
     seq (write_wal e offset msg) (\<lambda>_.
     seq (append_record e msg) (\<lambda>_.
     seq (rotate e) (\<lambda>_.
     seq (count_pending e) (\<lambda>_.
     ret offset)))))"

definition log_flush :: "os \<Rightarrow> (log, unit) prog" where
  "log_flush e L = (if 0 < pending_appends L then sync_pending e L else ret () L)"

text \<open>
  The traversal from a checkpoint. Each round either returns or moves \<open>current\<close> one step
  closer to the wanted offset (modulo \<open>2 ^ 64\<close>), so the loop always ends.
\<close>

function fetch_loop :: "log \<Rightarrow> u64 \<Rightarrow> u64 \<Rightarrow> nat \<Rightarrow> u64 \<Rightarrow> failure + string" where
  "fetch_loop L offset current si position =
     (if length (segments L) \<le> si then Inl (Out_of_range ''segments'')
      else case segment_read position (segments L ! si) (log_dir L) of
        Inl x \<Rightarrow> Inl x
      | Inr rec \<Rightarrow>
          if current = offset then Inr rec
          else
            (let current' = current + 1;
                 position' = position + (8 + of_nat (length rec));
                 hop = (position' = sizes (segments L ! si) \<and> si + 1 < length (segments L));
                 si' = (if hop then si + 1 else si);
                 position'' = (if hop then 0 else position')
             in if offset < current' \<or> length (segments L) \<le> si'
                then Inl (Out_of_range ''invalid sparse index traversal'')
                else fetch_loop L offset current' si' position''))"
  by pat_completeness auto

termination
proof (relation "measure (\<lambda>(L, offset, current, si, position). unat (offset - current))", goal_cases)
  case (2 L offset current si position rec current' position' hop si' position'')
  then have nz: "offset - current \<noteq> 0" by simp
  have "offset - current' = offset - current - 1"
    unfolding 2(4) by (simp only: diff_diff_eq)
  then have "unat (offset - current') = unat (offset - current) - 1"
    using unat_minus_one [OF nz] by (simp only:)
  moreover have "0 < unat (offset - current)"
    using nz by (simp only: unat_gt_0 not_False_eq_True)
  ultimately have "unat (offset - current') < unat (offset - current)" by linarith
  then show ?case by simp
qed simp

declare fetch_loop.simps [simp del]

definition log_fetch :: "u64 \<Rightarrow> log \<Rightarrow> failure + string" where
  "log_fetch offset L =
     (if next_offset L \<le> offset then Inl (Out_of_range ''Invalid offset'')
      else
        (let checked = takeWhile (\<lambda>entry. \<not> offset < entry_offset entry) (index L)
         in if checked = [] then Inl (Out_of_range ''missing sparse index checkpoint'')
            else fetch_loop L offset (entry_offset (last checked)) (entry_segment (last checked))
                   (entry_position (last checked))))"



section \<open>Start-up\<close>

text \<open>
  \<^verbatim>\<open>rebuild_index_from_segment\<close>: records are read one after the other until the end of the
  file or until a read throws; then \<open>torn\<close> is set and the file is cut at that position.
\<close>

function rebuild_loop ::
  "log_segment \<Rightarrow> dir \<Rightarrow> nat \<Rightarrow> u64 \<Rightarrow> u64 \<Rightarrow> LogIndexEntry list \<Rightarrow>
   LogIndexEntry list \<times> u64 \<times> u64 \<times> bool" where
  "rebuild_loop seg d si position next idx =
     (if position < sizes seg then
        (case segment_read position seg d of
           Inr msg \<Rightarrow>
             rebuild_loop seg d si (position + (8 + of_nat (length msg))) (next + 1)
               (idx @ checkpoint next si position)
         | Inl x \<Rightarrow> (idx, next, position, True))
      else (idx, next, position, False))"
  by pat_completeness auto

termination rebuild_loop
proof (relation "measure (\<lambda>(seg, d, si, position, nxt, idx). unat (current_size seg) - unat position)", goal_cases)
  case (2 seg d si position nxt idx msg)
  then show ?case
    using segment_read_bounds [of position seg d msg] position_advance [of position seg d msg]
    by (simp add: sizes_def word_less_nat_alt)
qed simp

declare rebuild_loop.simps [simp del]

definition rebuild_index_from_segment :: "os \<Rightarrow> nat \<Rightarrow> (log, unit) prog" where
  "rebuild_index_from_segment e si L =
     (case rebuild_loop (segments L ! si) (log_dir L) si 0 (next_offset L) (index L) of
        (idx, next, position, torn) \<Rightarrow>
          (let L' = L\<lparr>index := idx, next_offset := next\<rparr>
           in if torn
              then seq (on_dir (segment_truncate e position (segments L ! si)))
                     (\<lambda>seg. modify (\<lambda>L. L\<lparr>segments := (segments L)[si := seg]\<rparr>)) L'
              else ret () L'))"

definition is_segment_name :: "string \<Rightarrow> bool" where
  "is_segment_name f \<longleftrightarrow>
     take 8 f = ''segment-'' \<and> 8 < length f \<and> drop (length f - 4) f = ''.log''"

fun is_regular :: "node \<Rightarrow> bool" where
  "is_regular (Regular c s) = True"
| "is_regular Not_regular = False"

definition segment_paths :: "dir \<Rightarrow> string list" where
  "segment_paths d = sort (map fst (filter (\<lambda>(f, n). is_regular n \<and> is_segment_name f) d))"

definition load_segment :: "os \<Rightarrow> string \<Rightarrow> (log, unit) prog" where
  "load_segment e path =
     seq (push_segment e path)
       (\<lambda>_ L. rebuild_index_from_segment e (length (segments L) - 1) L)"

definition load_existing_segments :: "os \<Rightarrow> (log, unit) prog" where
  "load_existing_segments e L =
     (let paths = segment_paths (log_dir L)
      in if paths = [] then seq (push_segment e (segment_name 0)) (\<lambda>_. activate_last) L
         else seq (for_each (load_segment e) paths) (\<lambda>_. activate_last) L)"

text \<open>One round of reads of \<^verbatim>\<open>recover_wal\<close>: \<open>None\<close> when the loop breaks.\<close>

definition kMaxWalMessage :: u64 where
  "kMaxWalMessage = 16 * 1024 * 1024"

definition wal_next :: "string \<Rightarrow> ((u64 \<times> string) \<times> string) option" where
  "wal_next w =
     (if length w < 8 then None
      else if length w < 16 \<or> kMaxWalMessage < of_le (take 8 (drop 8 w)) then None
      else
        (let len = unat (of_le (take 8 (drop 8 w)))
         in if length w < 16 + len then None
            else Some ((of_le (take 8 w), take len (drop 16 w)), drop (16 + len) w)))"

function recover_loop :: "os \<Rightarrow> string \<Rightarrow> (log, unit) prog" where
  "recover_loop e w L =
     (case wal_next w of
        None \<Rightarrow> (Inr (), L)
      | Some ((offset, msg), rest) \<Rightarrow>
          if offset = next_offset L then
            (case append_record e msg L of
               (Inl x, L') \<Rightarrow> (Inl x, L')
             | (Inr _, L') \<Rightarrow> recover_loop e rest L')
          else recover_loop e rest L)"
  by pat_completeness auto

lemma wal_next_shorter: "wal_next w = Some (e, rest) \<Longrightarrow> length rest < length w"
  by (auto simp: wal_next_def Let_def split: if_splits)

termination recover_loop
  by (relation "measure (\<lambda>(e, w, L). length w)") (auto dest: wal_next_shorter)

declare recover_loop.simps [simp del]

definition recover_wal :: "os \<Rightarrow> (log, unit) prog" where
  "recover_wal e L =
     (if map_of (log_dir L) wal_name = Some Not_regular then throw (Filesystem_error ''file_size'') L
      else if file_contents (log_dir L) wal_name = [] then ret () L
      else
        seq (recover_loop e (if open_ok e wal_name then file_contents (log_dir L) wal_name else []))
          (\<lambda>_. seq (\<lambda>L. if 0 < next_offset L then sync_segments e L else ret () L)
          (\<lambda>_. clear_wal e)) L)"

definition empty_log :: "dir \<Rightarrow> u64 \<Rightarrow> u64 \<Rightarrow> log" where
  "empty_log d max_size batch =
     \<lparr>log_dir = d, segments = [], index = [], active_segment_index = 0, next_offset = 0,
      max_segment_size = max_size, sync_batch_size = max 1 batch, pending_appends = 0\<rparr>"

definition log_open :: "os \<Rightarrow> dir \<Rightarrow> u64 \<Rightarrow> u64 \<Rightarrow> (failure + unit) \<times> log" where
  "log_open e d max_size batch =
     (if \<not> mkdir_ok e then (Inl (Filesystem_error ''create_directories''), empty_log d max_size batch)
      else seq (load_existing_segments e) (\<lambda>_. recover_wal e) (empty_log d max_size batch))"

end
