(* ===== verification/LogCorrect.thy ===== *)
theory LogCorrect
  imports PartitionLog
begin

text \<open>
  Correctness of the partition log at run time. The abstract view of a log is the list of its
  records; \<open>log_inv\<close> relates the segment files, the segment objects, the sparse index and
  the next offset to it. Appending adds one record at the end and fetching reads the list;
  the records that may still be lost are exactly those the write-ahead log holds.
\<close>

section \<open>Files under the operations\<close>

lemma write_file_healthy:
  "healthy e \<Longrightarrow> visible d p = Some c \<Longrightarrow>
   write_file e p bs d = (True, AList.update p (Regular (c @ bs) (stable d p)) d)"
  by (auto simp: write_file_def visible_stable healthy_def)

lemma sync_file_visible: "sync_file e p d = (ok, d') \<Longrightarrow> visible d' = visible d"
  by (auto simp: sync_file_def visible_def fun_eq_iff split: option.splits node.splits if_splits)

lemma sync_file_fresh: "sync_file e p d = (ok, d') \<Longrightarrow> map_of d' q = None \<longleftrightarrow> map_of d q = None"
  by (auto simp: sync_file_def split: option.splits node.splits if_splits)

lemma segment_append_healthy:
  assumes "healthy e" and "seg_file seg d c" and "length c + (8 + length m) < 2 ^ 64"
  obtains seg' where "segment_append e m seg d =
      (Inr (of_nat (length c)), seg',
       AList.update (filePath seg) (Regular (c @ enc_record m) (stable d (filePath seg))) d)"
    and "filePath seg' = filePath seg" and "current_size seg' = of_nat (length (c @ enc_record m))"
proof -
  have "write_file e (filePath seg) (enc_record m) d =
      (True, AList.update (filePath seg) (Regular (c @ enc_record m) (stable d (filePath seg))) d)"
    using write_file_healthy assms by (metis seg_file_def)
  with assms(2) that show thesis
    by (auto simp: segment_append_def seg_file_def enc_record_def Let_def)
qed

lemma new_segment_fresh:
  "healthy e \<Longrightarrow> map_of d p = None \<Longrightarrow>
   new_segment e p d =
     (Inr \<lparr>filePath = p, base_offset = 0, current_size = 0\<rparr>, AList.update p (Regular [] []) d)"
  by (simp add: new_segment_def segment_reopen_def healthy_def Let_def)

lemma new_segment_existing:
  "healthy e \<Longrightarrow> visible d p = Some c \<Longrightarrow>
   new_segment e p d =
     (Inr \<lparr>filePath = p, base_offset = 0, current_size = of_nat (length c)\<rparr>, d)"
  by (auto simp: new_segment_def segment_reopen_def healthy_def Let_def visible_Some)

section \<open>What a log holds\<close>

text \<open>The checkpoints of a run of records of one segment, and of all the segments.\<close>

fun seg_index :: "nat \<Rightarrow> nat \<Rightarrow> nat \<Rightarrow> string list \<Rightarrow> LogIndexEntry list" where
  "seg_index si off pos [] = []"
| "seg_index si off pos (m # ms) =
     checkpoint (of_nat off) si (of_nat pos) @ seg_index si (Suc off) (pos + (8 + length m)) ms"

fun full_index :: "nat \<Rightarrow> nat \<Rightarrow> string list list \<Rightarrow> LogIndexEntry list" where
  "full_index si off [] = []"
| "full_index si off (ms # mss) = seg_index si off 0 ms @ full_index (Suc si) (off + length ms) mss"

lemma seg_index_append:
  "seg_index si off pos (ms @ ns) =
   seg_index si off pos ms @ seg_index si (off + length ms) (pos + length (enc_records ms)) ns"
  by (induction ms arbitrary: off pos) (simp_all add: add.assoc)

lemma full_index_append:
  "full_index si off (mss @ nss) =
   full_index si off mss @ full_index (si + length mss) (off + length (concat mss)) nss"
  by (induction mss arbitrary: si off) (simp_all add: add.assoc)

definition segs_hold :: "log_segment list \<Rightarrow> dir \<Rightarrow> string list list \<Rightarrow> bool" where
  "segs_hold segs d mss \<longleftrightarrow>
     list_all2 (\<lambda>seg ms. seg_file seg d (enc_records ms)) segs mss \<and>
     distinct (map filePath segs) \<and> wal_name \<notin> filePath ` set segs"

definition holds :: "log \<Rightarrow> string list list \<Rightarrow> bool" where
  "holds L mss \<longleftrightarrow> segs_hold (segments L) (log_dir L) mss \<and>
     index L = full_index 0 0 mss \<and> next_offset L = of_nat (length (concat mss)) \<and>
     length (enc_records (concat mss)) < 2 ^ 64"

definition log_inv :: "log \<Rightarrow> string list list \<Rightarrow> bool" where
  "log_inv L mss \<longleftrightarrow> holds L mss \<and> segments L \<noteq> [] \<and>
     active_segment_index L = length (segments L) - 1 \<and>
     map filePath (segments L) = map segment_name [0..<length (segments L)] \<and>
     (\<forall>k\<ge>length (segments L). map_of (log_dir L) (segment_name k) = None)"

lemma segment_name_inject [simp]: "segment_name a = segment_name b \<longleftrightarrow> a = b"
  by (simp add: segment_name_def)

lemma segment_name_not_wal [simp]: "segment_name n \<noteq> wal_name" "wal_name \<noteq> segment_name n"
  by (simp_all add: segment_name_def wal_name_def)

lemma segs_hold_length: "segs_hold segs d mss \<Longrightarrow> length segs = length mss"
  by (auto simp: segs_hold_def dest: list_all2_lengthD)

lemma log_inv_names:
  assumes "log_inv L mss"
  shows "filePath ` set (segments L) = segment_name ` {..<length (segments L)}"
proof -
  have "set (map filePath (segments L)) = set (map segment_name [0..<length (segments L)])"
    using assms by (simp only: log_inv_def)
  then show ?thesis by (simp add: atLeast0LessThan)
qed

text \<open>Only the visible contents of the segment files matter.\<close>

lemma segs_hold_frame:
  assumes "segs_hold segs d mss" and "\<And>p. p \<in> filePath ` set segs \<Longrightarrow> visible d' p = visible d p"
  shows "segs_hold segs d' mss"
  using assms unfolding segs_hold_def
  by (auto elim!: list.rel_mono_strong intro: seg_file_frame)

lemma holds_frame:
  assumes "holds L mss" and "segments L' = segments L" "index L' = index L" "next_offset L' = next_offset L"
    and "\<And>p. p \<in> filePath ` set (segments L) \<Longrightarrow> visible (log_dir L') p = visible (log_dir L) p"
  shows "holds L' mss"
  using assms segs_hold_frame by (auto simp: holds_def)

lemma log_inv_frame:
  assumes "log_inv L mss" and "segments L' = segments L" "index L' = index L" "next_offset L' = next_offset L"
    "active_segment_index L' = active_segment_index L"
    and "\<And>p. p \<noteq> wal_name \<Longrightarrow> visible (log_dir L') p = visible (log_dir L) p"
    and "\<And>p. p \<noteq> wal_name \<Longrightarrow> map_of (log_dir L') p = None \<longleftrightarrow> map_of (log_dir L) p = None"
  shows "log_inv L' mss"
proof -
  have h: "holds L mss" and "p \<noteq> wal_name" if "p \<in> filePath ` set (segments L)" for p
    using assms(1) that unfolding log_inv_def holds_def segs_hold_def by blast+
  then have "holds L' mss"
    using assms(1) by (intro holds_frame [of L mss L'] assms(2-4,6)) (simp_all add: log_inv_def)
  then show ?thesis
    using assms by (simp add: log_inv_def)
qed

text \<open>Appending a record to the last segment.\<close>

lemma segs_hold_append_last:
  assumes "segs_hold (segs @ [seg]) d (mss @ [ms])"
    and "filePath seg' = filePath seg" "current_size seg' = of_nat (length (enc_records (ms @ [m])))"
    and "length (enc_records (ms @ [m])) < 2 ^ 64"
    and "d' = AList.update (filePath seg) (Regular (enc_records ms @ enc_record m) s) d"
  shows "segs_hold (segs @ [seg']) d' (mss @ [ms @ [m]])"
proof -
  have len: "length segs = length mss"
    using segs_hold_length [OF assms(1)] by simp
  have nin: "filePath seg \<notin> filePath ` set segs"
    using assms(1) by (simp add: segs_hold_def)
  have "segs_hold segs d mss"
    using assms(1) len by (simp add: segs_hold_def list_all2_append)
  then have "segs_hold segs d' mss"
    by (rule segs_hold_frame) (use nin in \<open>auto simp: assms(5) image_iff\<close>)
  then show ?thesis
    using assms len by (auto simp: segs_hold_def list_all2_append seg_file_def)
qed

lemma length_enc_concat:
  "ms \<in> set mss \<Longrightarrow> length (enc_records ms) \<le> length (enc_records (concat mss))"
  by (induction mss) auto

lemma append_record_inv:
  assumes inv: "log_inv L (mss @ [ms])" and e: "healthy e"
    and room: "length (enc_records (concat mss @ ms @ [m])) < 2 ^ 64"
  obtains L' where "append_record e m L = (Inr (), L')" "log_inv L' (mss @ [ms @ [m]])"
    "pending_appends L' = pending_appends L" "sync_batch_size L' = sync_batch_size L"
    "max_segment_size L' = max_segment_size L"
    "map_of (log_dir L') wal_name = map_of (log_dir L) wal_name"
    "map filePath (segments L') = map filePath (segments L)"
    "stable (log_dir L') = stable (log_dir L)"
proof -
  obtain segs seg where segs: "segments L = segs @ [seg]"
    using inv by (metis log_inv_def rev_exhaust)
  have act: "active_segment_index L = length segs"
    using inv segs by (simp add: log_inv_def)
  have len: "length segs = length mss"
    using inv segs segs_hold_length by (fastforce simp: log_inv_def holds_def)
  have hold: "segs_hold (segs @ [seg]) (log_dir L) (mss @ [ms])"
    using inv segs by (simp add: log_inv_def holds_def)
  then have sf: "seg_file seg (log_dir L) (enc_records ms)" and wal: "filePath seg \<noteq> wal_name"
    using len by (auto simp: segs_hold_def list_all2_append)
  define s where "s = stable (log_dir L) (filePath seg)"
  obtain seg' where app: "segment_append e m seg (log_dir L) = (Inr (of_nat (length (enc_records ms))),
      seg', AList.update (filePath seg) (Regular (enc_records ms @ enc_record m) s) (log_dir L))"
    and seg': "filePath seg' = filePath seg"
      "current_size seg' = of_nat (length (enc_records ms @ enc_record m))"
    unfolding s_def by (rule segment_append_healthy [OF e sf, of m]) (use room in auto)
  define d' where "d' = AList.update (filePath seg) (Regular (enc_records ms @ enc_record m) s) (log_dir L)"
  define L' where "L' = L\<lparr>segments := segs @ [seg'], log_dir := d',
     index := index L @ checkpoint (next_offset L) (length segs) (of_nat (length (enc_records ms))),
     next_offset := next_offset L + 1\<rparr>"
  have run: "append_record e m L = (Inr (), L')"
    using app act segs by (simp add: append_record_def seq_def on_segment_def modify_def L'_def d'_def)
  have "segs_hold (segs @ [seg']) d' (mss @ [ms @ [m]])"
    using segs_hold_append_last [OF hold seg'(1)] seg'(2) room by (simp add: d'_def)
  then have "holds L' (mss @ [ms @ [m]])"
    using inv room len
    by (auto simp: holds_def log_inv_def L'_def full_index_append seg_index_append)
  moreover have "filePath seg \<in> filePath ` set (segments L)"
    by (simp add: segs)
  then have "filePath seg \<in> segment_name ` {..<length (segments L)}"
    by (simp only: log_inv_names [OF inv])
  then have "map_of d' (segment_name k) = None" if "length (segments L) \<le> k" for k
    using inv that by (auto simp: d'_def log_inv_def)
  ultimately have "log_inv L' (mss @ [ms @ [m]])"
    using inv segs seg' by (auto simp: log_inv_def L'_def)
  then show thesis
    using that run segs wal seg' by (auto simp: L'_def d'_def s_def)
qed



text \<open>Starting a new segment when the active one is full.\<close>

lemma push_segment_inv:
  assumes inv: "log_inv L mss" and e: "healthy e"
  shows "\<exists>L'. seq (push_segment e (segment_name (length (segments L)))) (\<lambda>_. activate_last) L = (Inr (), L') \<and>
    log_inv L' (mss @ [[]]) \<and>
    L' = L\<lparr>log_dir := AList.update (segment_name (length (segments L))) (Regular [] []) (log_dir L),
      segments := segments L @ [\<lparr>filePath = segment_name (length (segments L)), base_offset = 0, current_size = 0\<rparr>],
      active_segment_index := length (segments L)\<rparr>"
proof -
  let ?n = "length (segments L)"
  define seg where "seg = \<lparr>filePath = segment_name ?n, base_offset = 0 :: u64, current_size = 0 :: u64\<rparr>"
  define d' where "d' = AList.update (segment_name ?n) (Regular [] []) (log_dir L)"
  define L' where "L' = L\<lparr>log_dir := d', segments := segments L @ [seg], active_segment_index := ?n\<rparr>"
  have fresh: "map_of (log_dir L) (segment_name ?n) = None"
    using inv by (simp add: log_inv_def)
  note names = log_inv_names [OF inv]
  then have notin: "segment_name ?n \<notin> filePath ` set (segments L)"
    by auto
  have frame: "visible d' p = visible (log_dir L) p" if "p \<in> filePath ` set (segments L)" for p
    using that notin unfolding d'_def visible_update by (metis fun_upd_other)
  have "segs_hold (segments L) (log_dir L) mss"
    using inv by (simp add: log_inv_def holds_def)
  then have hold: "segs_hold (segments L) d' mss"
    using frame by (rule segs_hold_frame)
  then have "segs_hold (segments L @ [seg]) d' (mss @ [[]])"
    using notin segs_hold_length [OF hold]
    by (auto simp: segs_hold_def list_all2_append seg_file_def seg_def d'_def)
  then have "holds L' (mss @ [[]])"
    using inv by (simp add: holds_def log_inv_def L'_def full_index_append)
  then have "log_inv L' (mss @ [[]])"
    using inv by (auto simp: log_inv_def L'_def d'_def seg_def)
  moreover have "seq (push_segment e (segment_name ?n)) (\<lambda>_. activate_last) L = (Inr (), L')"
    using new_segment_fresh [OF e fresh]
    by (simp add: push_segment_def activate_last_def seq_def on_dir_def modify_def L'_def d'_def seg_def)
  ultimately show ?thesis
    by (auto simp: L'_def d'_def seg_def)
qed

section \<open>Durability\<close>

text \<open>
  The write-ahead log holds the entries of the pending records; every record before them is in
  the part of its segment file that is on stable storage.
\<close>

fun enc_wal :: "nat \<Rightarrow> string list \<Rightarrow> string" where
  "enc_wal b [] = []"
| "enc_wal b (m # ms) = wal_entry (of_nat b) m @ enc_wal (Suc b) ms"

lemma enc_wal_append: "enc_wal b (ms @ ns) = enc_wal b ms @ enc_wal (b + length ms) ns"
  by (induction ms arbitrary: b) simp_all

fun stable_upto :: "nat \<Rightarrow> string list \<Rightarrow> dir \<Rightarrow> string list list \<Rightarrow> bool" where
  "stable_upto b (p # ps) d (ms # mss) =
     (prefix (enc_records (take b ms)) (stable d p) \<and> stable_upto (b - length ms) ps d mss)"
| "stable_upto b ps d mss = True"

definition synced_count :: "log \<Rightarrow> string list list \<Rightarrow> nat" where
  "synced_count L mss = length (concat mss) - unat (pending_appends L)"

definition durable_inv :: "log \<Rightarrow> string list list \<Rightarrow> bool" where
  "durable_inv L mss \<longleftrightarrow>
     unat (pending_appends L) \<le> length (concat mss) \<and>
     (visible (log_dir L) wal_name = Some (enc_wal (synced_count L mss) (drop (synced_count L mss) (concat mss)))
      \<or> map_of (log_dir L) wal_name = None \<and> pending_appends L = 0) \<and>
     stable_upto (synced_count L mss) (map filePath (segments L)) (log_dir L) mss"

definition log_ok :: "log \<Rightarrow> string list list \<Rightarrow> bool" where
  "log_ok L mss \<longleftrightarrow> log_inv L mss \<and> durable_inv L mss \<and>
     0 < sync_batch_size L \<and> pending_appends L < sync_batch_size L"

lemma stable_upto_frame:
  "stable_upto b ps d mss \<Longrightarrow> (\<And>p. p \<in> set ps \<Longrightarrow> stable d' p = stable d p) \<Longrightarrow>
   stable_upto b ps d' mss"
  by (induction b ps d mss rule: stable_upto.induct) auto

lemma stable_upto_append_record:
  "stable_upto b ps d (mss @ [ms]) \<Longrightarrow> b \<le> length (concat (mss @ [ms])) \<Longrightarrow>
   stable_upto b ps d (mss @ [ms @ [m]])"
proof (induction mss arbitrary: ps b)
  case Nil
  then show ?case by (cases ps) auto
next
  case (Cons ms mss)
  then show ?case by (cases ps) (auto simp: le_diff_conv)
qed

lemma stable_upto_new_segment:
  "stable_upto b ps d mss \<Longrightarrow> length ps = length mss \<Longrightarrow> stable_upto b (ps @ [p]) d (mss @ [[]])"
  by (induction b ps d mss rule: stable_upto.induct) auto

lemma stable_upto_synced:
  "list_all2 (\<lambda>p ms. stable d p = enc_records ms) ps mss \<Longrightarrow> stable_upto b ps d mss"
proof (induction ps arbitrary: mss b)
  case (Cons p ps)
  then obtain ms mss' where "mss = ms # mss'" by (cases mss) auto
  moreover have "prefix (enc_records (take b ms)) (enc_records ms)"
    by (metis append_take_drop_id enc_records_simps(3) prefixI)
  ultimately show ?case using Cons by auto
qed simp

section \<open>Syncing\<close>

lemma sync_file_healthy:
  "healthy e \<Longrightarrow> visible d p = Some c \<Longrightarrow> sync_file e p d = (True, AList.update p (Regular c c) d)"
  by (auto simp: sync_file_def visible_Some healthy_def)

text \<open>After syncing them, the stable part of every segment file is the whole file.\<close>

text \<open>When a path occurs twice, its two entries hold the same records.\<close>

lemma stable_from_later:
  assumes "list_all2 (\<lambda>seg ms. visible d (filePath seg) = Some (enc_records ms)) segs mss"
    and "list_all2 (\<lambda>seg ms. stable d' (filePath seg) = enc_records ms) segs mss"
    and "p \<in> filePath ` set segs" and "visible d p = Some c"
  shows "stable d' p = c"
proof -
  obtain i where i: "i < length segs" "filePath (segs ! i) = p" using assms(3) by (auto simp: in_set_conv_nth)
  then show ?thesis
    using list_all2_nthD [OF assms(1), of i] list_all2_nthD [OF assms(2), of i] assms(4) by simp
qed

lemma sync_each:
  assumes "healthy e" and "list_all2 (\<lambda>seg ms. visible (log_dir L) (filePath seg) = Some (enc_records ms)) segs mss"
  shows "\<exists>d'. for_each (\<lambda>seg. on_dir (segment_sync e seg)) segs L = (Inr (), L\<lparr>log_dir := d'\<rparr>) \<and>
    visible d' = visible (log_dir L) \<and> (\<forall>p. map_of d' p = None \<longleftrightarrow> map_of (log_dir L) p = None) \<and>
    (\<forall>p. p \<notin> filePath ` set segs \<longrightarrow> map_of d' p = map_of (log_dir L) p) \<and>
    list_all2 (\<lambda>seg ms. stable d' (filePath seg) = enc_records ms) segs mss"
  using assms(2)
proof (induction segs arbitrary: mss L)
  case Nil
  then show ?case by (intro exI [of _ "log_dir L"]) (simp add: ret_def)
next
  case (Cons seg segs)
  then obtain ms mss' where mss: "mss = ms # mss'" by (cases mss) auto
  define d where "d = AList.update (filePath seg) (Regular (enc_records ms) (enc_records ms)) (log_dir L)"
  have v: "visible (log_dir L) (filePath seg) = Some (enc_records ms)"
    using Cons.prems mss by simp
  then have vis: "visible d = visible (log_dir L)"
    by (auto simp: d_def)
  have step: "on_dir (segment_sync e seg) L = (Inr (), L\<lparr>log_dir := d\<rparr>)"
    using sync_file_healthy [OF assms(1) v] by (simp add: on_dir_def segment_sync_def segment_flush_def d_def)
  have "list_all2 (\<lambda>seg ms. visible (log_dir (L\<lparr>log_dir := d\<rparr>)) (filePath seg) = Some (enc_records ms)) segs mss'"
    using Cons.prems mss vis by simp
  from Cons.IH [OF this] obtain d' where IH:
    "for_each (\<lambda>seg. on_dir (segment_sync e seg)) segs (L\<lparr>log_dir := d\<rparr>) = (Inr (), L\<lparr>log_dir := d'\<rparr>)"
    "visible d' = visible d" "\<forall>p. map_of d' p = None \<longleftrightarrow> map_of d p = None"
    "\<forall>p. p \<notin> filePath ` set segs \<longrightarrow> map_of d' p = map_of d p"
    "list_all2 (\<lambda>seg ms. stable d' (filePath seg) = enc_records ms) segs mss'"
    by auto
  have st: "stable d' (filePath seg) = enc_records ms"
  proof (cases "filePath seg \<in> filePath ` set segs")
    case True
    then show ?thesis using stable_from_later [OF _ IH(5)] v Cons.prems mss by simp
  next
    case False
    then show ?thesis using IH(4) by (simp add: stable_def d_def)
  qed
  have fresh: "map_of d p = None \<longleftrightarrow> map_of (log_dir L) p = None" for p
    using v by (auto simp: d_def visible_Some)
  have "for_each (\<lambda>seg. on_dir (segment_sync e seg)) (seg # segs) L = (Inr (), L\<lparr>log_dir := d'\<rparr>)"
    using step IH(1) by (simp add: seq_def)
  moreover have "map_of d' p = map_of (log_dir L) p" if "p \<notin> filePath ` set (seg # segs)" for p
    using that IH(4) by (simp add: d_def)
  ultimately show ?case using IH(2,3,5) vis fresh st mss by (intro exI [of _ d']) auto
qed

lemma sync_pending_ok:
  assumes inv: "log_inv L mss" and e: "healthy e"
    and wal: "visible (log_dir L) wal_name \<noteq> None"
  shows "\<exists>L'. sync_pending e L = (Inr (), L') \<and> log_inv L' mss \<and> durable_inv L' mss \<and>
    pending_appends L' = 0 \<and> sync_batch_size L' = sync_batch_size L \<and>
    max_segment_size L' = max_segment_size L \<and> segments L' = segments L"
proof -
  obtain w where w: "visible (log_dir L) wal_name = Some w"
    using wal by blast
  define L1 where "L1 = L\<lparr>log_dir := AList.update wal_name (Regular w w) (log_dir L)\<rparr>"
  have s1: "sync_wal e L = (Inr (), L1)"
    using sync_file_healthy [OF e w] by (simp add: sync_wal_def on_dir_def L1_def)
  have v1: "visible (log_dir L1) = visible (log_dir L)"
    using w by (auto simp: L1_def)
  have "list_all2 (\<lambda>seg ms. visible (log_dir L1) (filePath seg) = Some (enc_records ms)) (segments L1) mss"
    using inv v1 by (auto simp: log_inv_def holds_def segs_hold_def L1_def seg_file_def elim!: list.rel_mono_strong)
  from sync_each [OF e this] obtain d' where d':
    "sync_segments e L1 = (Inr (), L1\<lparr>log_dir := d'\<rparr>)" "visible d' = visible (log_dir L1)"
    "\<forall>p. map_of d' p = None \<longleftrightarrow> map_of (log_dir L1) p = None"
    "list_all2 (\<lambda>seg ms. stable d' (filePath seg) = enc_records ms) (segments L1) mss"
    by (auto simp: sync_segments_def)
  define d'' where "d'' = AList.update wal_name (Regular [] []) d'"
  define L' where "L' = L\<lparr>log_dir := d'', pending_appends := 0\<rparr>"
  have nw: "map_of d' wal_name \<noteq> Some Not_regular"
    using w unfolding v1 [symmetric] d'(2) [symmetric] by (auto simp: visible_Some)
  have run: "sync_pending e L = (Inr (), L')"
    using s1 d'(1) e nw
    by (simp add: sync_pending_def seq_def clear_wal_def on_dir_def modify_def healthy_def L'_def d''_def L1_def)
  have inv': "log_inv L' mss"
    using inv by (rule log_inv_frame) (use d'(2,3) v1 in \<open>simp_all add: L'_def d''_def L1_def\<close>)
  have "wal_name \<notin> filePath ` set (segments L)"
    using inv unfolding log_inv_def holds_def segs_hold_def by blast
  then have "list_all2 (\<lambda>seg ms. stable d'' (filePath seg) = enc_records ms) (segments L) mss"
    using d'(4) by (auto simp: d''_def L1_def image_iff elim!: list.rel_mono_strong)
  then have "durable_inv L' mss"
    by (simp add: durable_inv_def synced_count_def L'_def d''_def stable_upto_synced list_all2_map1)
  with run inv' show ?thesis by (auto simp: L'_def)
qed


section \<open>Appending and flushing\<close>

text \<open>
  Between the write-ahead entry and the end of an append, the write-ahead log covers the
  records from \<open>b\<close> on and the earlier ones are stable.
\<close>

definition covered :: "nat \<Rightarrow> log \<Rightarrow> string list list \<Rightarrow> bool" where
  "covered b L mss \<longleftrightarrow> log_inv L mss \<and> b \<le> length (concat mss) \<and>
     visible (log_dir L) wal_name = Some (enc_wal b (drop b (concat mss))) \<and>
     stable_upto b (map filePath (segments L)) (log_dir L) mss"

lemma enc_wal_snoc:
  assumes "b \<le> length xs"
  shows "enc_wal b (drop b (xs @ [m])) = enc_wal b (drop b xs) @ wal_entry (of_nat (length xs)) m"
  using assms by (simp add: enc_wal_append)

lemma log_inv_paths: "log_inv L mss \<Longrightarrow> wal_name \<notin> set (map filePath (segments L))"
  by (auto simp: log_inv_def holds_def segs_hold_def)

lemma log_inv_length: "log_inv L mss \<Longrightarrow> length (segments L) = length mss"
  by (auto simp: log_inv_def holds_def dest: segs_hold_length)

lemma log_inv_last: "log_inv L mss \<Longrightarrow> mss \<noteq> []"
  by (metis length_0_conv log_inv_def log_inv_length)

lemma write_wal_ok:
  assumes ok: "log_ok L mss" and e: "healthy e"
  defines "n \<equiv> length (concat mss)" and "b \<equiv> synced_count L mss"
  shows "\<exists>L'. write_wal e (of_nat n) m L = (Inr (), L') \<and> log_inv L' mss \<and>
    visible (log_dir L') wal_name = Some (enc_wal b (drop b (concat mss)) @ wal_entry (of_nat n) m) \<and>
    stable_upto b (map filePath (segments L)) (log_dir L') mss \<and> L' = L\<lparr>log_dir := log_dir L'\<rparr>"
proof -
  have inv: "log_inv L mss" and dur: "durable_inv L mss" using ok by (auto simp: log_ok_def)
  define w where "w = enc_wal b (drop b (concat mss))"
  define d0 where "d0 = (if map_of (log_dir L) wal_name = None
     then AList.update wal_name (Regular [] []) (log_dir L) else log_dir L)"
  define d1 where "d1 = AList.update wal_name (Regular (w @ wal_entry (of_nat n) m) (stable d0 wal_name)) d0"
  have "w = []" if "pending_appends L = 0"
    using that by (simp add: w_def b_def synced_count_def)
  then have v: "visible d0 wal_name = Some w" and nr: "map_of (log_dir L) wal_name \<noteq> Some Not_regular"
    using dur by (auto simp: durable_inv_def d0_def w_def b_def visible_stable)
  have run: "write_wal e (of_nat n) m L = (Inr (), L\<lparr>log_dir := d1\<rparr>)"
    using write_file_healthy [OF e v] e nr unfolding write_wal_def on_dir_def d0_def [symmetric]
    by (simp add: healthy_def d1_def)
  have "log_inv (L\<lparr>log_dir := d1\<rparr>) mss"
    using inv by (rule log_inv_frame) (auto simp: d1_def d0_def)
  moreover have "stable_upto b (map filePath (segments L)) (log_dir L) mss"
    using dur by (simp add: durable_inv_def b_def)
  then have "stable_upto b (map filePath (segments L)) d1 mss"
    by (rule stable_upto_frame) (use log_inv_paths [OF inv] in \<open>auto simp: d1_def d0_def image_iff\<close>)
  ultimately show ?thesis
    using run by (auto simp: w_def d1_def)
qed

lemma append_record_covered:
  assumes inv: "log_inv L mss" and e: "healthy e"
    and room: "length (enc_records (concat mss @ [m])) < 2 ^ 64"
    and b: "b \<le> length (concat mss)"
    and wal: "visible (log_dir L) wal_name =
      Some (enc_wal b (drop b (concat mss)) @ wal_entry (of_nat (length (concat mss))) m)"
    and st: "stable_upto b (map filePath (segments L)) (log_dir L) mss"
  shows "\<exists>L' mss'. append_record e m L = (Inr (), L') \<and> covered b L' mss' \<and>
    concat mss' = concat mss @ [m] \<and> pending_appends L' = pending_appends L \<and>
    sync_batch_size L' = sync_batch_size L"
proof -
  obtain mss0 ms where mss: "mss = mss0 @ [ms]"
    using log_inv_last [OF inv] by (metis rev_exhaust)
  have room': "length (enc_records (concat mss0 @ ms @ [m])) < 2 ^ 64"
    using room mss by simp
  obtain L' where L': "append_record e m L = (Inr (), L')" "log_inv L' (mss0 @ [ms @ [m]])"
    "pending_appends L' = pending_appends L" "sync_batch_size L' = sync_batch_size L"
    "map_of (log_dir L') wal_name = map_of (log_dir L) wal_name"
    "map filePath (segments L') = map filePath (segments L)"
    "stable (log_dir L') = stable (log_dir L)"
    using append_record_inv [OF inv [unfolded mss] e room'] by metis
  have "stable_upto b (map filePath (segments L')) (log_dir L') mss"
    using st unfolding L'(6) by (rule stable_upto_frame) (simp add: L'(7))
  then have "stable_upto b (map filePath (segments L')) (log_dir L') (mss0 @ [ms @ [m]])"
    using b stable_upto_append_record by (simp add: mss)
  moreover have "visible (log_dir L') wal_name = visible (log_dir L) wal_name"
    using L'(5) by (simp add: visible_def)
  moreover have rec: "concat (mss0 @ [ms @ [m]]) = concat mss @ [m]"
    by (simp add: mss)
  ultimately have "covered b L' (mss0 @ [ms @ [m]])"
    unfolding covered_def rec enc_wal_snoc [OF b] using L'(2) b wal by simp
  with L' mss show ?thesis by (intro exI [of _ L'] exI [of _ "mss0 @ [ms @ [m]]"]) simp
qed

lemma rotate_covered:
  assumes c: "covered b L mss" and e: "healthy e"
  shows "\<exists>L' mss'. rotate e L = (Inr (), L') \<and> covered b L' mss' \<and> concat mss' = concat mss \<and>
    pending_appends L' = pending_appends L \<and> sync_batch_size L' = sync_batch_size L"
proof (cases "max_segment_size L \<le> sizes (segments L ! active_segment_index L)")
  case True
  have inv: "log_inv L mss" using c by (simp add: covered_def)
  from push_segment_inv [OF inv e] obtain L' where
    L': "rotate e L = (Inr (), L')" "log_inv L' (mss @ [[]])"
      "L' = L\<lparr>log_dir := AList.update (segment_name (length (segments L))) (Regular [] []) (log_dir L),
         segments := segments L @ [\<lparr>filePath = segment_name (length (segments L)), base_offset = 0, current_size = 0\<rparr>],
         active_segment_index := length (segments L)\<rparr>"
    using True by (auto simp: rotate_def)
  have "stable_upto b (map filePath (segments L) @ [segment_name (length (segments L))]) (log_dir L) (mss @ [[]])"
    using c log_inv_length [OF inv] by (intro stable_upto_new_segment) (simp_all add: covered_def)
  moreover have "map filePath (segments L') = map filePath (segments L) @ [segment_name (length (segments L))]"
    by (simp add: L'(3))
  moreover have "stable (log_dir L) (segment_name (length (segments L))) = []"
    using inv by (simp add: log_inv_def stable_def)
  then have "stable (log_dir L') p = stable (log_dir L) p" for p
    by (simp add: L'(3))
  ultimately have "stable_upto b (map filePath (segments L')) (log_dir L') (mss @ [[]])"
    by (simp only: stable_upto_frame)
  then have "covered b L' (mss @ [[]])"
    using c L'(2) by (simp add: covered_def) (simp add: L'(3))
  then show ?thesis
    using L'(1) by (intro exI [of _ L'] exI [of _ "mss @ [[]]"]) (simp add: L'(3))
next
  case False
  then show ?thesis using c by (auto simp: rotate_def ret_def)
qed

lemma count_pending_ok:
  assumes c: "covered b L mss" and e: "healthy e"
    and p: "b + unat (pending_appends L) + 1 = length (concat mss)"
    and lt: "pending_appends L < sync_batch_size L"
  shows "\<exists>L'. count_pending e L = (Inr (), L') \<and> log_ok L' mss"
proof -
  define L1 where "L1 = L\<lparr>pending_appends := pending_appends L + 1\<rparr>"
  have inc: "unat (pending_appends L + 1) = unat (pending_appends L) + 1"
    using unat_add_u64 [of "pending_appends L" 1] lt unat_lt_u64 [of "sync_batch_size L"]
    by (simp add: word_less_nat_alt)
  have inv: "log_inv L1 mss"
    using c by (intro log_inv_frame [of L mss L1]) (simp_all add: covered_def L1_def)
  show ?thesis
  proof (cases "sync_batch_size L \<le> pending_appends L1")
    case True
    have "visible (log_dir L1) wal_name \<noteq> None" using c by (simp add: covered_def L1_def)
    from sync_pending_ok [OF inv e this] obtain L' where
      "sync_pending e L1 = (Inr (), L')" "log_inv L' mss" "durable_inv L' mss" "pending_appends L' = 0"
      "sync_batch_size L' = sync_batch_size L"
      by (auto simp: L1_def)
    then show ?thesis
      using True lt
      by (intro exI [of _ L'])
        (auto simp: count_pending_def seq_def modify_def log_ok_def L1_def intro: le_less_trans [OF word_zero_le])
  next
    case False
    have "synced_count L1 mss = b" "unat (pending_appends L1) \<le> length (concat mss)"
      using p inc by (simp_all add: synced_count_def L1_def)
    then have "durable_inv L1 mss"
      using c unfolding durable_inv_def covered_def by (simp add: L1_def)
    then show ?thesis
      using False inv lt
      by (intro exI [of _ L1])
        (auto simp: count_pending_def seq_def modify_def ret_def log_ok_def L1_def not_le intro: le_less_trans [OF word_zero_le])
  qed
qed

lemma log_append_ok:
  assumes ok: "log_ok L mss" and e: "healthy e"
    and room: "length (enc_records (concat mss @ [m])) < 2 ^ 64"
  shows "\<exists>L' mss'. log_append e m L = (Inr (of_nat (length (concat mss))), L') \<and>
    log_ok L' mss' \<and> concat mss' = concat mss @ [m]"
proof -
  let ?n = "length (concat mss)" and ?b = "synced_count L mss"
  have inv: "log_inv L mss" and nx: "next_offset L = of_nat ?n"
    and pend: "?b + unat (pending_appends L) = ?n" "pending_appends L < sync_batch_size L"
    using ok by (auto simp: log_ok_def log_inv_def holds_def durable_inv_def synced_count_def)
  obtain L1 where L1: "write_wal e (of_nat ?n) m L = (Inr (), L1)" "log_inv L1 mss"
    "visible (log_dir L1) wal_name = Some (enc_wal ?b (drop ?b (concat mss)) @ wal_entry (of_nat ?n) m)"
    "stable_upto ?b (map filePath (segments L)) (log_dir L1) mss" "L1 = L\<lparr>log_dir := log_dir L1\<rparr>"
    using write_wal_ok [OF ok e] by blast
  have same: "segments L1 = segments L" "pending_appends L1 = pending_appends L"
     "sync_batch_size L1 = sync_batch_size L"
    by (subst L1(5), simp)+
  have bn: "?b \<le> ?n" using pend(1) by linarith
  obtain L2 mss2 where L2: "append_record e m L1 = (Inr (), L2)" "covered ?b L2 mss2"
    "concat mss2 = concat mss @ [m]" "pending_appends L2 = pending_appends L" "sync_batch_size L2 = sync_batch_size L"
    using append_record_covered [OF L1(2) e room bn L1(3)] L1(4) same by auto
  obtain L3 mss3 where L3: "rotate e L2 = (Inr (), L3)" "covered ?b L3 mss3"
    "concat mss3 = concat mss @ [m]" "pending_appends L3 = pending_appends L" "sync_batch_size L3 = sync_batch_size L"
    using rotate_covered [OF L2(2) e] L2(3-5) by auto
  have "?b + unat (pending_appends L3) + 1 = length (concat mss3)"
    using pend L3 by simp
  then obtain L4 where L4: "count_pending e L3 = (Inr (), L4)" "log_ok L4 mss3"
    using count_pending_ok [OF L3(2) e] L3(4,5) pend(2) by metis
  have "log_append e m L = (Inr (of_nat ?n), L4)"
    using L1(1) L2(1) L3(1) L4(1) nx by (simp add: log_append_def seq_def gets_def ret_def)
  with L4(2) L3(3) show ?thesis by blast
qed


section \<open>Fetching\<close>

text \<open>The checkpoint that precedes an offset lies in the segment that holds the offset.\<close>

abbreviation reaches :: "nat \<Rightarrow> LogIndexEntry \<Rightarrow> bool" where
  "reaches off \<equiv> \<lambda>entry. \<not> of_nat off < entry_offset entry"

lemma seg_index_offsets:
  "e \<in> set (seg_index si off pos ms) \<Longrightarrow> \<exists>j<length ms. entry_offset e = of_nat (off + j)"
proof (induction ms arbitrary: off pos)
  case (Cons m ms)
  then consider "entry_offset e = of_nat off" | "e \<in> set (seg_index si (Suc off) (pos + (8 + length m)) ms)"
    by (auto simp: checkpoint_def split: if_splits)
  then show ?case
  proof cases
    case 2
    then obtain j where "j < length ms" "entry_offset e = of_nat (Suc off + j)" using Cons.IH by blast
    then show ?thesis by (intro exI [of _ "Suc j"]) simp
  qed (intro exI [of _ 0], simp)
qed simp

lemma full_index_offsets:
  "e \<in> set (full_index si off mss) \<Longrightarrow> \<exists>j<length (concat mss). entry_offset e = of_nat (off + j)"
proof (induction mss arbitrary: si off)
  case (Cons ms mss)
  then consider "e \<in> set (seg_index si off 0 ms)" | "e \<in> set (full_index (Suc si) (off + length ms) mss)"
    by auto
  then show ?case
  proof cases
    case 1
    then obtain j where "j < length ms" "entry_offset e = of_nat (off + j)"
      using seg_index_offsets by blast
    then show ?thesis by (intro exI [of _ j]) simp
  next
    case 2
    then obtain j where "j < length (concat mss)" "entry_offset e = of_nat (off + length ms + j)"
      using Cons.IH by blast
    then show ?thesis by (intro exI [of _ "length ms + j"]) (simp add: add.assoc)
  qed
qed simp

definition checkpoint_before :: "nat \<Rightarrow> nat \<Rightarrow> nat \<Rightarrow> nat \<Rightarrow> string list \<Rightarrow> LogIndexEntry \<Rightarrow> bool" where
  "checkpoint_before si off pos k ms e \<longleftrightarrow> (\<exists>k'\<le>k. entry_segment e = si \<and>
     entry_offset e = of_nat (off + k') \<and> entry_position e = of_nat (pos + length (enc_records (take k' ms))))"

lemma seg_index_lookup:
  assumes "k < length ms" and "off + length ms < 2 ^ 64"
  shows "(checkpoint (of_nat off) si (of_nat pos) \<noteq> [] \<longrightarrow> takeWhile (reaches (off + k)) (seg_index si off pos ms) \<noteq> []) \<and>
    (takeWhile (reaches (off + k)) (seg_index si off pos ms) \<noteq> [] \<longrightarrow>
     checkpoint_before si off pos k ms (last (takeWhile (reaches (off + k)) (seg_index si off pos ms))))"
  using assms
proof (induction ms arbitrary: off pos k)
  case (Cons m ms)
  let ?cp = "checkpoint (of_nat off) si (of_nat pos) :: LogIndexEntry list"
  let ?rest = "seg_index si (Suc off) (pos + (8 + length m)) ms"
  have cp: "reaches (off + k) e" if "e \<in> set ?cp" for e
    using that Cons.prems by (auto simp: checkpoint_def not_less word_le_nat_alt unat_of_nat_u64 split: if_splits
        simp del: of_nat_add)
  have tw: "takeWhile (reaches (off + k)) (seg_index si off pos (m # ms)) = ?cp @ takeWhile (reaches (off + k)) ?rest"
    using cp by (simp add: takeWhile_append2)
  have "?cp = [] \<or> ?cp = [\<lparr>entry_offset = of_nat off, entry_segment = si, entry_position = of_nat pos\<rparr>]"
    unfolding checkpoint_def by presburger
  then have here: "?cp \<noteq> [] \<Longrightarrow> checkpoint_before si off pos k (m # ms) (last ?cp)"
    by (auto simp: checkpoint_before_def intro!: exI [of _ 0])
  show ?case
  proof (cases k)
    case 0
    have "takeWhile (reaches (off + k)) ?rest = []"
    proof (rule takeWhile_none)
      fix e assume "e \<in> set ?rest"
      then obtain j where "j < length ms" "entry_offset e = of_nat (Suc off + j)"
        using seg_index_offsets by blast
      then show "\<not> reaches (off + k) e"
        using Cons.prems 0 by (simp add: of_nat_less_u64 del: of_nat_add of_nat_Suc)
    qed
    then show ?thesis using tw here by simp
  next
    case (Suc k0)
    let ?tw = "takeWhile (reaches (off + k)) ?rest"
    have IH: "?tw \<noteq> [] \<Longrightarrow> checkpoint_before si (Suc off) (pos + (8 + length m)) k0 ms (last ?tw)"
      using Cons.IH [of k0 "Suc off" "pos + (8 + length m)"] Cons.prems Suc by simp
    have "?tw \<noteq> [] \<Longrightarrow> checkpoint_before si off pos k (m # ms) (last ?tw)"
    proof -
      assume "?tw \<noteq> []"
      from IH [OF this] obtain k' where "k' \<le> k0" "entry_segment (last ?tw) = si"
        "entry_offset (last ?tw) = of_nat (Suc off + k')"
        "entry_position (last ?tw) = of_nat (pos + (8 + length m) + length (enc_records (take k' ms)))"
        by (auto simp: checkpoint_before_def)
      then show ?thesis
        unfolding checkpoint_before_def using Suc by (intro exI [of _ "Suc k'"]) (simp add: add.assoc)
    qed
    then show ?thesis using tw here by (cases "?tw = []") simp_all
  qed
qed simp

lemma full_index_lookup:
  assumes "off \<le> n" "n < off + length (concat mss)" and "off + length (concat mss) < 2 ^ 64"
  shows "\<exists>i k. i < length mss \<and> k < length (mss ! i) \<and> n = off + length (concat (take i mss)) + k \<and>
    takeWhile (reaches n) (full_index si off mss) \<noteq> [] \<and>
    checkpoint_before (si + i) (off + length (concat (take i mss))) 0 k (mss ! i)
      (last (takeWhile (reaches n) (full_index si off mss)))"
  using assms
proof (induction mss arbitrary: si off)
  case (Cons ms mss)
  let ?a = "seg_index si off 0 ms" and ?b = "full_index (Suc si) (off + length ms) mss"
  show ?case
  proof (cases "n < off + length ms")
    case True
    have "takeWhile (reaches n) ?b = []"
    proof (rule takeWhile_none)
      fix e assume "e \<in> set ?b"
      then obtain j where "j < length (concat mss)" "entry_offset e = of_nat (off + length ms + j)"
        using full_index_offsets by blast
      then show "\<not> reaches n e"
        using Cons.prems True by (simp add: of_nat_less_u64 del: of_nat_add)
    qed
    then have tw: "takeWhile (reaches n) (full_index si off (ms # mss)) = takeWhile (reaches n) ?a"
      by (simp add: takeWhile_append_none)
    have "checkpoint (of_nat off) si (of_nat 0) \<noteq> []"
      by (simp add: checkpoint_def)
    then show ?thesis
      unfolding tw using seg_index_lookup [of "n - off" ms off si 0] True Cons.prems
      by (intro exI [of _ 0] exI [of _ "n - off"]) auto
  next
    case False
    have "reaches n e" if e: "e \<in> set ?a" for e
    proof -
      obtain j where "j < length ms" "entry_offset e = of_nat (off + j)"
        using seg_index_offsets [OF e] by blast
      then show ?thesis
        using False Cons.prems by (simp add: of_nat_less_u64 not_less del: of_nat_add)
    qed
    then have tw: "takeWhile (reaches n) (full_index si off (ms # mss)) = ?a @ takeWhile (reaches n) ?b"
      by (simp add: takeWhile_append2)
    obtain i k where "i < length mss" "k < length (mss ! i)" "n = off + length ms + length (concat (take i mss)) + k"
      "takeWhile (reaches n) ?b \<noteq> []"
      "checkpoint_before (Suc si + i) (off + length ms + length (concat (take i mss))) 0 k (mss ! i) (last (takeWhile (reaches n) ?b))"
      using Cons.IH [of "off + length ms" "Suc si"] False Cons.prems by (auto simp: add.assoc)
    then show ?thesis
      unfolding tw by (intro exI [of _ "Suc i"] exI [of _ k]) (simp add: add.assoc)
  qed
qed simp


lemma enc_records_split:
  "k < length ms \<Longrightarrow> enc_records ms = enc_records (take k ms) @ enc_record (ms ! k) @ enc_records (drop (Suc k) ms)"
  by (metis enc_records_simps(2,3) id_take_nth_drop)

lemma length_take_Suc_enc:
  "k < length ms \<Longrightarrow>
   length (enc_records (take (Suc k) ms)) = length (enc_records (take k ms)) + (8 + length (ms ! k))"
  by (simp add: take_Suc_conv_app_nth)

lemma length_enc_take_less:
  "k < length ms \<Longrightarrow> length (enc_records (take k ms)) < length (enc_records ms)"
  using arg_cong [OF enc_records_split [of k ms], of length] by simp

lemma fetch_loop_run:
  assumes "si < length (segments L)" and sf: "seg_file (segments L ! si) (log_dir L) (enc_records ms)"
    and "k' \<le> k" and k: "k < length ms" and big: "start + length ms < 2 ^ 64"
  shows "fetch_loop L (of_nat (start + k)) (of_nat (start + k')) si (of_nat (length (enc_records (take k' ms)))) =
    Inr (ms ! k)"
  using assms(3)
proof (induction "k - k'" arbitrary: k')
  case 0
  then have "k' = k" by simp
  have "segment_read (of_nat (length (enc_records (take k ms)))) (segments L ! si) (log_dir L) = Inr (ms ! k)"
    using sf k by (subst (asm) enc_records_split [of k ms]) (auto intro: segment_read_record)
  then show ?case
    using assms(1) \<open>k' = k\<close> by (subst fetch_loop.simps) simp
next
  case (Suc n)
  then have lt: "k' < k" "k' < length ms" using k by simp_all
  let ?pos = "length (enc_records (take k' ms))" and ?pos' = "length (enc_records (take (Suc k') ms))"
  have rd: "segment_read (of_nat ?pos) (segments L ! si) (log_dir L) = Inr (ms ! k')"
    using sf lt(2) by (subst (asm) enc_records_split [of k' ms]) (auto intro: segment_read_record)
  have neq: "(of_nat (start + k') :: u64) \<noteq> of_nat (start + k)"
    using lt k big by (simp add: of_nat_eq_u64 del: of_nat_add)
  have cur: "of_nat (start + k') + 1 = (of_nat (start + Suc k') :: u64)" by simp
  have pos: "of_nat ?pos + (8 + of_nat (length (ms ! k'))) = (of_nat ?pos' :: u64)"
    using lt(2) by (simp add: length_take_Suc_enc)
  have "?pos' < length (enc_records ms)"
    using lt k by (intro length_enc_take_less) simp
  then have nohop: "(of_nat ?pos' :: u64) \<noteq> sizes (segments L ! si)"
    using sf unfolding seg_file_def sizes_def by (auto simp: of_nat_eq_u64 simp del: of_nat_add)
  have nlt: "\<not> (of_nat (start + k) :: u64) < of_nat (start + Suc k')"
    using lt k big by (simp add: of_nat_less_u64 del: of_nat_add of_nat_Suc)
  have "fetch_loop L (of_nat (start + k)) (of_nat (start + Suc k')) si (of_nat ?pos') = Inr (ms ! k)"
    using Suc.hyps(2) lt by (intro Suc.hyps(1)) simp_all
  then show ?case
    using assms(1) rd neq nohop nlt
    by (subst fetch_loop.simps) (simp only: cur pos Let_def if_False sum.case simp_thms not_less not_le[symmetric] if_True)
qed

lemma log_fetch_ok:
  assumes inv: "log_inv L mss"
  shows "log_fetch off L = (if unat off < length (concat mss) then Inr (concat mss ! unat off)
    else Inl (Out_of_range ''Invalid offset''))"
proof -
  have big: "length (concat mss) < 2 ^ 64"
    using inv length_enc_records_ge [of "concat mss"] by (simp add: log_inv_def holds_def)
  have nx: "next_offset L = of_nat (length (concat mss))" and idx: "index L = full_index 0 0 mss"
    using inv by (simp_all add: log_inv_def holds_def)
  have off: "of_nat (unat off) = off" by simp
  have lt: "next_offset L \<le> off \<longleftrightarrow> \<not> unat off < length (concat mss)"
    using big by (simp add: nx word_le_nat_alt unat_of_nat_u64 not_less)
  show ?thesis
  proof (cases "unat off < length (concat mss)")
    case True
    obtain i k where i: "i < length mss" "k < length (mss ! i)" "unat off = length (concat (take i mss)) + k"
      and tw: "takeWhile (\<lambda>entry. \<not> off < entry_offset entry) (index L) \<noteq> []"
      "checkpoint_before i (length (concat (take i mss))) 0 k (mss ! i)
         (last (takeWhile (\<lambda>entry. \<not> off < entry_offset entry) (index L)))"
      using full_index_lookup [of 0 "unat off" mss 0] True big
      unfolding off idx [symmetric] add_0 by blast
    let ?e = "last (takeWhile (\<lambda>entry. \<not> off < entry_offset entry) (index L))" and ?s = "length (concat (take i mss))"
    obtain k' where k': "k' \<le> k" "entry_segment ?e = i" "entry_offset ?e = of_nat (?s + k')"
      "entry_position ?e = of_nat (length (enc_records (take k' (mss ! i))))"
      using tw(2) by (auto simp: checkpoint_before_def)
    have split: "concat mss = concat (take i mss) @ mss ! i @ concat (drop (Suc i) mss)"
      using i(1) by (metis concat.simps(2) concat_append id_take_nth_drop)
    have "fetch_loop L off (entry_offset ?e) (entry_segment ?e) (entry_position ?e) = Inr (mss ! i ! k)"
    proof -
      have "i < length (segments L)" using i(1) log_inv_length [OF inv] by simp
      moreover have "seg_file (segments L ! i) (log_dir L) (enc_records (mss ! i))"
        using inv i(1) by (auto simp: log_inv_def holds_def segs_hold_def dest: list_all2_nthD2)
      moreover have "?s + length (mss ! i) < 2 ^ 64"
        using big split by (metis length_append add.assoc add_lessD1)
      ultimately show ?thesis
        using fetch_loop_run [of i L "mss ! i" k' k ?s] i k' off by metis
    qed
    moreover have "concat mss ! unat off = mss ! i ! k"
      using i by (subst split) (simp add: nth_append)
    ultimately show ?thesis
      using True lt tw(1) off by (simp add: log_fetch_def Let_def)
  qed (use lt in \<open>simp add: log_fetch_def\<close>)
qed

end
