(* ===== verification/LogRecovery.thy ===== *)
theory LogRecovery
  imports LogCorrect
begin

text \<open>
  Start-up of a log: loading the segment files in the order of their names, cutting torn tails,
  replaying the write-ahead log, and what a process that reopens the directory of a log finds,
  after a clean stop or after a crash that tore the active segment and the write-ahead log.
\<close>

section \<open>Torn files\<close>

text \<open>A torn tail: nothing, or a proper prefix of a record.\<close>

definition torn :: "string \<Rightarrow> bool" where
  "torn t \<longleftrightarrow> t = [] \<or> (\<exists>m. strict_prefix t (enc_record m) \<and> length m < 2 ^ 64)"

lemma torn_header:
  assumes "strict_prefix t (enc_record m)" and "8 \<le> length t"
  shows "take 8 t = le64 (of_nat (length m))" "length t < 8 + length m"
proof -
  obtain s where s: "enc_record m = t @ s" "s \<noteq> []"
    using assms(1) by (auto simp: strict_prefix_def prefix_def)
  then have "take 8 t = take 8 (enc_record m)" using assms(2) by simp
  then show "take 8 t = le64 (of_nat (length m))" by (simp add: enc_record_def)
  have "8 + length m = length t + length s"
    by (metis length_append length_enc_record s(1))
  then show "length t < 8 + length m"
    using s(2) by simp
qed

lemma segment_read_torn:
  assumes sf: "seg_file seg d (enc_records pre @ t)" and "torn t" "t \<noteq> []"
  shows "\<exists>x. segment_read (of_nat (length (enc_records pre))) seg d = Inl x"
proof -
  let ?p = "length (enc_records pre)"
  obtain m where m: "strict_prefix t (enc_record m)" "length m < 2 ^ 64"
    using assms by (auto simp: torn_def)
  have lt: "?p + length t < 2 ^ 64" using sf by (simp add: seg_file_def)
  have p: "unat (of_nat ?p :: u64) = ?p" and tl: "unat (of_nat (length t) :: u64) = length t"
    using lt by (simp_all add: unat_of_nat_u64)
  have diff: "current_size seg - of_nat ?p = of_nat (length t)"
    using sf by (simp add: seg_file_def)
  show ?thesis
  proof (cases "length t < 8")
    case True
    then have "current_size seg - of_nat ?p < 8"
      by (simp add: diff word_less_nat_alt tl)
    then show ?thesis by (simp add: segment_read_def)
  next
    case False
    note h = torn_header [OF m(1)]
    have "of_le (take 8 t) = of_nat (length m)"
      using False h by simp
    moreover have "of_nat (length t) - 8 < (of_nat (length m) :: u64)"
      using False h m(2) tl by (simp add: word_less_nat_alt unat_sub_u64 word_le_nat_alt unat_of_nat_u64)
    ultimately show ?thesis
      using False by (simp add: segment_read_def seg_file_contents [OF sf] p diff Let_def)
  qed
qed

lemma rebuild_loop_run:
  assumes "seg_file seg d (enc_records (pre @ ms) @ t)" and "torn t"
  shows "rebuild_loop seg d si (of_nat (length (enc_records pre))) (of_nat off) idx =
    (idx @ seg_index si off (length (enc_records pre)) ms, of_nat (off + length ms),
     of_nat (length (enc_records (pre @ ms))), t \<noteq> [])"
  using assms(1)
proof (induction ms arbitrary: pre off idx)
  case Nil
  let ?p = "length (enc_records pre)"
  have sz: "sizes seg = of_nat (?p + length t)" and lt: "?p + length t < 2 ^ 64"
    using Nil by (simp_all add: seg_file_def sizes_def)
  show ?case
  proof (cases "t = []")
    case True
    then show ?thesis using sz by (subst rebuild_loop.simps) simp
  next
    case False
    moreover have "(of_nat ?p :: u64) < of_nat (?p + length t)"
      using False lt by (subst of_nat_less_u64) simp_all
    moreover obtain x where "segment_read (of_nat ?p) seg d = Inl x"
      using segment_read_torn [of seg d pre t] Nil assms(2) False by auto
    ultimately show ?thesis by (subst rebuild_loop.simps) (simp add: sz)
  qed
next
  case (Cons m ms)
  let ?p = "length (enc_records pre)"
  have rd: "segment_read (of_nat ?p) seg d = Inr m"
    using Cons.prems by (intro segment_read_record [of seg d pre m "enc_records ms @ t"]) simp
  have lt: "?p + (8 + length m) + length (enc_records ms) + length t < 2 ^ 64"
    and sz: "sizes seg = of_nat (?p + (8 + length m) + length (enc_records ms) + length t)"
    using Cons.prems by (simp_all add: seg_file_def sizes_def)
  have less: "(of_nat ?p :: u64) < sizes seg"
    unfolding sz using lt by (subst of_nat_less_u64) simp_all
  have "rebuild_loop seg d si (of_nat (length (enc_records (pre @ [m])))) (of_nat (Suc off)) (idx @ checkpoint (of_nat off) si (of_nat ?p)) =
    ((idx @ checkpoint (of_nat off) si (of_nat ?p)) @ seg_index si (Suc off) (length (enc_records (pre @ [m]))) ms,
     of_nat (Suc off + length ms), of_nat (length (enc_records ((pre @ [m]) @ ms))), t \<noteq> [])"
    using Cons.prems by (intro Cons.IH) simp
  then show ?case
    using rd less by (subst rebuild_loop.simps) (simp add: add.assoc add.commute)
qed


section \<open>Loading the segment files\<close>

lemma resize_to_prefix [simp]: "resize_to (length a) (a @ b) = a"
  by simp

lemma segment_truncate_healthy:
  assumes "healthy e" and "visible d (filePath seg) = Some (c @ t)" and "length c < 2 ^ 64"
  shows "segment_truncate e (of_nat (length c)) seg d =
    (Inr (seg\<lparr>current_size := of_nat (length c)\<rparr>),
     AList.update (filePath seg) (Regular c (take (length c) (stable d (filePath seg)))) d)"
  using assms by (auto simp: segment_truncate_def visible_stable healthy_def unat_of_nat_u64
      segment_reopen_def Let_def simp del: resize_to.simps)

text \<open>Cutting a file keeps what is stable of the part that stays.\<close>

definition keeps_stable :: "string \<Rightarrow> string list \<Rightarrow> dir \<Rightarrow> dir \<Rightarrow> bool" where
  "keeps_stable p ms d d' \<longleftrightarrow>
     (\<forall>x. prefix x (enc_records ms) \<longrightarrow> prefix x (stable d p) \<longrightarrow> prefix x (stable d' p))"

lemma prefix_take_prefix: "prefix x c \<Longrightarrow> prefix x s \<Longrightarrow> prefix x (take (length c) s)"
  by (auto simp: prefix_def)

definition keeps_others :: "string set \<Rightarrow> dir \<Rightarrow> dir \<Rightarrow> bool" where
  "keeps_others ps d d' \<longleftrightarrow> (\<forall>p. p \<notin> ps \<longrightarrow> map_of d' p = map_of d p)"

lemma keeps_others_visible: "keeps_others ps d d' \<Longrightarrow> p \<notin> ps \<Longrightarrow> visible d' p = visible d p"
  by (simp add: keeps_others_def visible_def)

abbreviation file_records :: "string \<times> string list \<times> string \<Rightarrow> string list" where
  "file_records f \<equiv> fst (snd f)"

abbreviation file_tail :: "string \<times> string list \<times> string \<Rightarrow> string" where
  "file_tail f \<equiv> snd (snd f)"

definition file_holds :: "dir \<Rightarrow> string \<times> string list \<times> string \<Rightarrow> bool" where
  "file_holds d f \<longleftrightarrow> visible d (fst f) = Some (enc_records (file_records f) @ file_tail f) \<and>
     torn (file_tail f)"

text \<open>Loading changes the files, the segments, the index and the next offset only.\<close>

definition loads_only :: "log \<Rightarrow> log \<Rightarrow> bool" where
  "loads_only L L' \<longleftrightarrow> L' = L\<lparr>log_dir := log_dir L', segments := segments L', index := index L', next_offset := next_offset L'\<rparr>"

lemma loads_only_trans: "loads_only L L1 \<Longrightarrow> loads_only L1 L' \<Longrightarrow> loads_only L L'"
  unfolding loads_only_def by (cases L; cases L1; cases L') simp

text \<open>
  \<open>loaded fs mss L L'\<close>: with the records \<open>mss\<close> in \<open>L\<close>, loading the files \<open>fs\<close> leads to \<open>L'\<close>, which has their
  records too; the other files are as before and nothing stable is lost.
\<close>

definition loaded :: "(string \<times> string list \<times> string) list \<Rightarrow> string list list \<Rightarrow> log \<Rightarrow> log \<Rightarrow> bool" where
  "loaded fs mss L L' \<longleftrightarrow> holds L' (mss @ map file_records fs) \<and>
     map filePath (segments L') = map filePath (segments L) @ map fst fs \<and>
     keeps_others (set (map fst fs)) (log_dir L) (log_dir L') \<and>
     (\<forall>f\<in>set fs. keeps_stable (fst f) (file_records f) (log_dir L) (log_dir L')) \<and>
     loads_only L L'"

lemma keeps_stable_through:
  "keeps_stable p ms d d' \<Longrightarrow> keeps_others ps d' d'' \<Longrightarrow> p \<notin> ps \<Longrightarrow> keeps_stable p ms d d''"
  "keeps_stable p ms d' d'' \<Longrightarrow> keeps_others ps d d' \<Longrightarrow> p \<notin> ps \<Longrightarrow> keeps_stable p ms d d''"
  by (simp_all add: keeps_stable_def keeps_others_def stable_def)

lemma loaded_Cons:
  assumes "loaded [f] mss L L1" and "loaded fs (mss @ [file_records f]) L1 L'" and "fst f \<notin> set (map fst fs)"
  shows "loaded (f # fs) mss L L'"
proof -
  have one: "keeps_others {fst f} (log_dir L) (log_dir L1)" "keeps_stable (fst f) (file_records f) (log_dir L) (log_dir L1)"
    using assms(1) by (simp_all add: loaded_def)
  have more: "keeps_others (set (map fst fs)) (log_dir L1) (log_dir L')"
    "\<forall>g\<in>set fs. keeps_stable (fst g) (file_records g) (log_dir L1) (log_dir L')"
    using assms(2) by (simp_all add: loaded_def)
  have "keeps_stable (fst f) (file_records f) (log_dir L) (log_dir L')"
    by (rule keeps_stable_through(1) [OF one(2) more(1) assms(3)])
  moreover have "keeps_stable (fst g) (file_records g) (log_dir L) (log_dir L')" if "g \<in> set fs" for g
  proof (rule keeps_stable_through(2) [OF _ one(1)])
    show "fst g \<notin> {fst f}" using that assms(3) by (metis image_eqI list.set_map singletonD)
  qed (use that more(2) in blast)
  moreover have "loads_only L L'"
    using assms(1,2) unfolding loaded_def by (blast intro: loads_only_trans)
  ultimately show ?thesis
    using assms(1,2) by (simp add: loaded_def keeps_others_def)
qed

lemma load_segment_ok:
  assumes h: "holds L mss" and e: "healthy e"
    and v: "visible (log_dir L) p = Some (enc_records ms @ t)" and t: "torn t"
    and new: "p \<notin> filePath ` set (segments L)" "p \<noteq> wal_name"
    and big: "length (enc_records (concat mss @ ms)) + length t < 2 ^ 64"
  shows "\<exists>L'. load_segment e p L = (Inr (), L') \<and> loaded [(p, ms, t)] mss L L'"
proof -
  let ?n = "length (segments L)" and ?c = "enc_records ms"
  define seg where "seg = \<lparr>filePath = p, base_offset = 0 :: u64, current_size = of_nat (length (?c @ t)) :: u64\<rparr>"
  define L1 where "L1 = L\<lparr>segments := segments L @ [seg]\<rparr>"
  define idx where "idx = full_index 0 0 (mss @ [ms])"
  have len: "length mss = ?n"
    using h segs_hold_length by (fastforce simp: holds_def)
  have push: "push_segment e p L = (Inr (), L1)"
    using new_segment_existing [OF e v]
    by (simp add: push_segment_def seq_def on_dir_def modify_def L1_def seg_def)
  have sf: "seg_file seg (log_dir L) (enc_records ([] @ ms) @ t)"
    using v big by (simp add: seg_file_def seg_def)
  have rb: "rebuild_loop seg (log_dir L) ?n 0 (next_offset L) (index L) =
      (idx, of_nat (length (concat (mss @ [ms]))), of_nat (length ?c), t \<noteq> [])"
    using rebuild_loop_run [OF sf t, of ?n "length (concat mss)" "index L"] h len
    by (simp add: holds_def idx_def full_index_append)
  obtain d' where d': "keeps_others {p} (log_dir L) d'" "visible d' p = Some ?c" "keeps_stable p ms (log_dir L) d'"
    and load: "load_segment e p L = (Inr (), L\<lparr>log_dir := d', segments := segments L @ [seg\<lparr>current_size := of_nat (length ?c)\<rparr>],
        index := idx, next_offset := of_nat (length (concat (mss @ [ms])))\<rparr>)"
  proof (cases "t = []")
    case True
    then show thesis
      using that [of "log_dir L"] push rb v
      by (simp add: load_segment_def seq_def L1_def rebuild_index_from_segment_def Let_def ret_def
          keeps_others_def keeps_stable_def seg_def)
  next
    case False
    have "visible (log_dir L) (filePath seg) = Some (?c @ t)" "length ?c < 2 ^ 64"
      using v big by (simp_all add: seg_def)
    note cut = segment_truncate_healthy [OF e this]
    show thesis
      using that [of "AList.update p (Regular ?c (take (length ?c) (stable (log_dir L) p))) (log_dir L)"]
        push rb False cut
      by (simp add: load_segment_def seq_def L1_def rebuild_index_from_segment_def Let_def on_dir_def modify_def
          keeps_others_def keeps_stable_def prefix_take_prefix list_update_append seg_def)
  qed
  let ?L' = "L\<lparr>log_dir := d', segments := segments L @ [seg\<lparr>current_size := of_nat (length ?c)\<rparr>],
        index := idx, next_offset := of_nat (length (concat (mss @ [ms])))\<rparr>"
  have "segs_hold (segments L) (log_dir L) mss" using h by (simp add: holds_def)
  then have "segs_hold (segments L) d' mss"
    by (rule segs_hold_frame) (use keeps_others_visible [OF d'(1)] new(1) in \<open>metis singletonD\<close>)
  then have "segs_hold (segments ?L') d' (mss @ [ms])"
    using d'(2) new len big by (auto simp: segs_hold_def list_all2_append seg_file_def seg_def)
  then have "holds ?L' (mss @ [ms])"
    using big by (simp add: holds_def idx_def)
  with load d' show ?thesis
    by (intro exI [of _ ?L']) (simp add: loaded_def loads_only_def seg_def)
qed

lemma load_segments_ok:
  assumes "holds L mss" and e: "healthy e"
    and "\<forall>f\<in>set fs. file_holds (log_dir L) f"
    and "distinct (map fst fs)" "set (map fst fs) \<inter> filePath ` set (segments L) = {}"
      "wal_name \<notin> set (map fst fs)"
    and "length (enc_records (concat (mss @ map file_records fs))) + (\<Sum>f\<leftarrow>fs. length (file_tail f)) < 2 ^ 64"
  shows "\<exists>L'. for_each (load_segment e) (map fst fs) L = (Inr (), L') \<and> loaded fs mss L L'"
  using assms(1,3-)
proof (induction fs arbitrary: L mss)
  case Nil
  then show ?case by (simp add: ret_def loaded_def keeps_others_def loads_only_def)
next
  case (Cons f fs)
  obtain p ms t where f: "f = (p, ms, t)" by (cases f)
  have v: "visible (log_dir L) p = Some (enc_records ms @ t)" and t: "torn t"
    and new: "p \<notin> filePath ` set (segments L)" "p \<noteq> wal_name"
    and big: "length (enc_records (concat mss @ ms)) + length t < 2 ^ 64"
    using Cons.prems by (auto simp: f file_holds_def)
  obtain L1 where L1: "load_segment e p L = (Inr (), L1)" "loaded [f] mss L L1"
    using load_segment_ok [OF Cons.prems(1) e v t new big] f by blast
  then have one: "holds L1 (mss @ [ms])" "map filePath (segments L1) = map filePath (segments L) @ [p]"
    "keeps_others {p} (log_dir L) (log_dir L1)"
    by (simp_all add: loaded_def f)
  have dist: "p \<notin> set (map fst fs)" using Cons.prems(3) by (simp add: f)
  have "file_holds (log_dir L1) g" if "g \<in> set fs" for g
    using that Cons.prems(2) dist keeps_others_visible [OF one(3), of "fst g"]
    by (force simp: file_holds_def)
  moreover have "set (map filePath (segments L1)) = insert p (filePath ` set (segments L))"
    unfolding one(2) by simp
  then have "set (map fst fs) \<inter> filePath ` set (segments L1) = {}"
    using Cons.prems(4) dist by (auto simp: f)
  ultimately obtain L' where L': "for_each (load_segment e) (map fst fs) L1 = (Inr (), L')" "loaded fs (mss @ [ms]) L1 L'"
    using Cons.IH [OF one(1)] Cons.prems(3,5,6) by (auto simp: f)
  have "loaded (f # fs) mss L L'" using loaded_Cons [OF L1(2)] L'(2) dist f by simp
  then show ?case using L1(1) L'(1) by (auto simp: f seq_def)
qed


section \<open>The order in which segments are found\<close>

lemma is_segment_name_segment_name [simp]: "is_segment_name (segment_name n)"
  by (simp add: is_segment_name_def segment_name_def)

lemma segment_name_less:
  assumes "i < j" "j < 10"
  shows "segment_name i \<le> segment_name j"
proof -
  have "i < 10" using assms by simp
  then have "show_nat i = [digit_char i]" "show_nat j = [digit_char j]"
    using assms(2) by (simp_all add: show_nat.simps)
  moreover have "digit_char i < digit_char j"
    using assms \<open>i < 10\<close> by (simp add: less_char_def)
  ultimately show ?thesis by (simp add: segment_name_def)
qed

text \<open>A directory whose segment files are \<open>segment-0.log\<close> to \<open>segment-(n-1).log\<close>.\<close>

definition segment_files :: "nat \<Rightarrow> dir \<Rightarrow> bool" where
  "segment_files n d \<longleftrightarrow> distinct (map fst d) \<and>
     (\<forall>i<n. visible d (segment_name i) \<noteq> None) \<and>
     (\<forall>f. is_segment_name f \<longrightarrow> f \<notin> segment_name ` {..<n} \<longrightarrow> map_of d f = None)"

lemma segment_paths_ordered:
  assumes "segment_files n d" and "n \<le> 10"
  shows "segment_paths d = map segment_name [0..<n]"
proof -
  define fs where "fs = map fst (filter (\<lambda>(f, n). is_regular n \<and> is_segment_name f) d)"
  have "distinct fs"
    using assms(1) by (auto simp: fs_def segment_files_def intro: distinct_map_filter)
  have mem: "f \<in> set fs \<longleftrightarrow> is_segment_name f \<and> visible d f \<noteq> None" for f
    using assms(1)
    by (auto simp: fs_def visible_def segment_files_def image_iff map_of_eq_Some_iff is_regular.simps
       split: option.splits node.splits elim: is_regular.elims)
  have "set fs = segment_name ` {..<n}"
    using assms(1) by (auto simp: mem segment_files_def visible_fresh)
  moreover have "sorted (map segment_name [0..<n])"
    using assms(2) by (auto simp: sorted_iff_nth_mono_less intro: segment_name_less)
  ultimately have "sort fs = map segment_name [0..<n]"
    using \<open>distinct fs\<close>
    by (intro sorted_distinct_set_unique) (auto simp: distinct_map inj_on_def)
  then show ?thesis by (simp add: segment_paths_def fs_def)
qed

section \<open>The write-ahead log\<close>

definition replayable :: "string \<Rightarrow> bool" where
  "replayable m \<longleftrightarrow> length m \<le> unat kMaxWalMessage"

lemma unat_kMaxWalMessage: "unat kMaxWalMessage = 16777216"
  by (simp add: kMaxWalMessage_def)

lemma wal_length_word: "replayable m \<Longrightarrow> unat (of_nat (length m) :: u64) = length m"
  by (simp add: replayable_def unat_kMaxWalMessage unat_of_nat_u64)

lemma wal_next_entry:
  assumes "replayable m"
  shows "wal_next (wal_entry off m @ rest) = Some ((off, m), rest)"
  using wal_length_word [OF assms] assms
  by (simp add: wal_next_def wal_entry_def replayable_def word_less_nat_alt Let_def)

lemma wal_next_torn:
  assumes "strict_prefix w (wal_entry off m)" and "replayable m"
  shows "wal_next w = None"
proof -
  obtain s where s: "wal_entry off m = w @ s" "s \<noteq> []"
    using assms(1) by (auto simp: strict_prefix_def prefix_def)
  have "16 + length m = length w + length s"
    by (metis s(1) length_append length_le_bytes wal_entry_def add.assoc numeral_Bit0)
  then have lt: "length w < 16 + length m" using s(2) by simp
  have "take 8 (drop 8 w) = le64 (of_nat (length m))" if "16 \<le> length w"
  proof -
    have "take 8 (drop 8 (w @ s)) = le64 (of_nat (length m))"
      by (simp add: s(1) [symmetric] wal_entry_def)
    then show ?thesis using that by simp
  qed
  then show ?thesis
    using lt wal_length_word [OF assms(2)] by (auto simp: wal_next_def Let_def not_less)
qed

text \<open>A prefix of a write-ahead log is a run of its entries and a torn rest.\<close>

lemma prefix_enc_wal:
  "prefix w (enc_wal b ms) \<Longrightarrow> list_all replayable ms \<Longrightarrow>
   \<exists>j t. w = enc_wal b (take j ms) @ t \<and> wal_next t = None \<and> j \<le> length ms"
proof (induction ms arbitrary: b w)
  case Nil
  then show ?case by (intro exI [of _ 0] exI [of _ "[]"]) (simp add: wal_next_def)
next
  case (Cons m ms)
  show ?case
  proof (cases "strict_prefix w (wal_entry (of_nat b) m)")
    case True
    then show ?thesis
      using wal_next_torn Cons.prems by (intro exI [of _ 0] exI [of _ w]) auto
  next
    case False
    then obtain w' where w: "w = wal_entry (of_nat b) m @ w'" "prefix w' (enc_wal (Suc b) ms)"
      using Cons.prems(1) by (auto simp: prefix_append strict_prefix_def)
    with Cons.IH [OF w(2)] Cons.prems(2) obtain j t where
      "w' = enc_wal (Suc b) (take j ms) @ t" "wal_next t = None" "j \<le> length ms"
      by auto
    then show ?thesis
      using w by (intro exI [of _ "Suc j"] exI [of _ t]) simp
  qed
qed

text \<open>Replaying skips the entries the segments already hold and appends the others.\<close>

definition same_setup :: "log \<Rightarrow> log \<Rightarrow> bool" where
  "same_setup L L' \<longleftrightarrow> pending_appends L' = pending_appends L \<and> sync_batch_size L' = sync_batch_size L \<and>
     max_segment_size L' = max_segment_size L \<and>
     map_of (log_dir L') wal_name = map_of (log_dir L) wal_name"

lemma append_record_ok:
  assumes inv: "log_inv L mss" and e: "healthy e"
    and room: "length (enc_records (concat mss @ [m])) < 2 ^ 64"
  shows "\<exists>L' mss'. append_record e m L = (Inr (), L') \<and> log_inv L' mss' \<and>
    concat mss' = concat mss @ [m] \<and> length mss' = length mss \<and> same_setup L L'"
proof -
  obtain mss0 ms where mss: "mss = mss0 @ [ms]"
    using log_inv_last [OF inv] by (metis rev_exhaust)
  have "length (enc_records (concat mss0 @ ms @ [m])) < 2 ^ 64"
    using room by (simp add: mss)
  from append_record_inv [OF inv [unfolded mss] e this] obtain L' where
    "append_record e m L = (Inr (), L')" "log_inv L' (mss0 @ [ms @ [m]])" "same_setup L L'"
    unfolding same_setup_def by blast
  then show ?thesis
    by (intro exI [of _ L'] exI [of _ "mss0 @ [ms @ [m]]"]) (simp add: mss)
qed

text \<open>Replaying the first record that is missing.\<close>

lemma replay_missing:
  assumes "log_inv L mss" and "healthy e" and "concat mss = take k xs" and "k < length xs"
    and "length (enc_records xs) < 2 ^ 64"
  shows "\<exists>L1 mss1. append_record e (xs ! k) L = (Inr (), L1) \<and> log_inv L1 mss1 \<and>
    concat mss1 = take (Suc k) xs \<and> length mss1 = length mss \<and> same_setup L L1"
proof -
  have snoc: "concat mss @ [xs ! k] = take (Suc k) xs"
    using assms(3,4) by (simp add: take_Suc_conv_app_nth)
  have "length (enc_records (take (Suc k) xs)) \<le> length (enc_records xs)"
    by (metis append_take_drop_id enc_records_simps(3) le_add1 length_append)
  then have "length (enc_records (concat mss @ [xs ! k])) < 2 ^ 64"
    unfolding snoc using assms(5) by linarith
  from append_record_ok [OF assms(1,2) this] show ?thesis unfolding snoc by blast
qed

lemma recover_loop_run:
  assumes "log_inv L mss" and e: "healthy e"
    and "concat mss = take k xs" "b \<le> k" "k \<le> length xs" and j: "j \<le> length xs"
    and rp: "list_all replayable xs" and fit: "length (enc_records xs) < 2 ^ 64" and t: "wal_next t = None"
  shows "\<exists>L' mss'. recover_loop e (enc_wal b (drop b (take j xs)) @ t) L = (Inr (), L') \<and>
    log_inv L' mss' \<and> concat mss' = take (max k j) xs \<and> length mss' = length mss \<and> same_setup L L'"
  using assms(1,3-5)
proof (induction "j - b" arbitrary: b L mss k)
  case 0
  then have "drop b (take j xs) = []" "max k j = k" by simp_all
  then show ?case
    using 0 t by (intro exI [of _ L] exI [of _ mss]) (subst recover_loop.simps, simp add: same_setup_def)
next
  case (Suc n)
  then have bj: "b < j" and n: "n = j - Suc b" by simp_all
  let ?rest = "enc_wal (Suc b) (drop (Suc b) (take j xs)) @ t"
  have drop: "drop b (take j xs) = xs ! b # drop (Suc b) (take j xs)"
    using j bj by (simp add: Cons_nth_drop_Suc [symmetric])
  have nxt: "wal_next (enc_wal b (drop b (take j xs)) @ t) = Some ((of_nat b, xs ! b), ?rest)"
    using j rp bj by (simp add: drop wal_next_entry list_all_length)
  have small: "length xs < 2 ^ 64"
    using fit length_enc_records_ge [of xs] by linarith
  have nx: "next_offset L = of_nat k"
    using Suc.prems by (simp add: log_inv_def holds_def)
  have eq: "(of_nat b :: u64) = of_nat k \<longleftrightarrow> b = k"
    using Suc.prems small by (intro of_nat_eq_u64) simp_all
  show ?case
  proof (cases "b = k")
    case True
    obtain L1 mss1 where
      L1: "append_record e (xs ! b) L = (Inr (), L1)" "log_inv L1 mss1" "concat mss1 = take (Suc k) xs"
        "length mss1 = length mss" "same_setup L L1"
      using replay_missing [OF Suc.prems(1) e Suc.prems(2) _ fit] True bj j by auto
    have "Suc b \<le> Suc k" "Suc k \<le> length xs" using True bj j by simp_all
    from Suc.hyps(1) [OF n L1(2,3) this] obtain L' mss' where
      L': "recover_loop e ?rest L1 = (Inr (), L')" "log_inv L' mss'"
        "concat mss' = take (max (Suc k) j) xs" "length mss' = length mss1" "same_setup L1 L'"
      by blast
    have "recover_loop e (enc_wal b (drop b (take j xs)) @ t) L = (Inr (), L')"
      using nxt nx True L1(1) L'(1) by (subst recover_loop.simps) simp
    moreover have "max (Suc k) j = max k j" using True bj by simp
    ultimately show ?thesis
      using L1(4,5) L'(2-5) by (auto simp: same_setup_def)
  next
    case False
    then have "Suc b \<le> k" using Suc.prems by simp
    from Suc.hyps(1) [OF n Suc.prems(1,2) this Suc.prems(4)] obtain L' mss' where
      L': "recover_loop e ?rest L = (Inr (), L')" "log_inv L' mss'"
        "concat mss' = take (max k j) xs" "length mss' = length mss" "same_setup L L'"
      by blast
    have "recover_loop e (enc_wal b (drop b (take j xs)) @ t) L = (Inr (), L')"
      using nxt nx False eq L'(1) by (subst recover_loop.simps) simp
    with L'(2-5) show ?thesis by blast
  qed
qed

section \<open>Opening a log\<close>

lemma stable_upto_keeps:
  "list_all2 (\<lambda>p ms. keeps_stable p ms d d') ps mss \<Longrightarrow> stable_upto b ps d mss \<Longrightarrow> stable_upto b ps d' mss"
proof (induction ps arbitrary: mss b)
  case (Cons p ps)
  then obtain ms mss' where mss: "mss = ms # mss'" by (cases mss) auto
  have "prefix (enc_records (take b ms)) (enc_records ms)"
    by (metis append_take_drop_id enc_records_simps(3) prefixI)
  then show ?case
    using Cons by (auto simp: mss keeps_stable_def)
qed simp

lemma holds_empty_log: "holds (empty_log d mx bt) []"
  by (simp add: holds_def segs_hold_def empty_log_def)

lemma load_existing_ok:
  assumes e: "healthy e" and files: "segment_files n d" and n: "0 < n" "n \<le> 10"
    and len: "length mss = n"
    and fh: "\<And>i. i < n \<Longrightarrow> file_holds d (segment_name i, mss ! i, ts i)"
    and big: "length (enc_records (concat mss)) + (\<Sum>i\<leftarrow>[0..<n]. length (ts i)) < 2 ^ 64"
  shows "\<exists>L'. load_existing_segments e (empty_log d mx bt) = (Inr (), L') \<and> log_inv L' mss \<and>
    same_setup (empty_log d mx bt) L' \<and>
    (\<forall>b. stable_upto b (map segment_name [0..<n]) d mss \<longrightarrow>
         stable_upto b (map segment_name [0..<n]) (log_dir L') mss)"
proof -
  define fs where "fs = map (\<lambda>i. (segment_name i, mss ! i, ts i)) [0..<n]"
  let ?L = "empty_log d mx bt"
  have names: "map fst fs = map segment_name [0..<n]" and recs: "map file_records fs = mss"
    using len by (simp_all add: fs_def comp_def list_eq_iff_nth_eq)
  have tails: "(\<Sum>f\<leftarrow>fs. length (file_tail f)) = (\<Sum>i\<leftarrow>[0..<n]. length (ts i))"
    by (simp add: fs_def comp_def)
  have dir: "log_dir ?L = d" "segments ?L = []" by (simp_all add: empty_log_def)
  have pre: "\<forall>f\<in>set fs. file_holds (log_dir ?L) f" "distinct (map fst fs)"
    "set (map fst fs) \<inter> filePath ` set (segments ?L) = {}" "wal_name \<notin> set (map fst fs)"
    using fh unfolding names by (auto simp: dir fs_def distinct_map inj_on_def)
  have big': "length (enc_records (concat ([] @ map file_records fs))) + (\<Sum>f\<leftarrow>fs. length (file_tail f)) < 2 ^ 64"
    using big by (simp only: recs tails append_Nil)
  obtain L1 where run: "for_each (load_segment e) (map fst fs) ?L = (Inr (), L1)" and "loaded fs [] ?L L1"
    using load_segments_ok [OF holds_empty_log e pre big'] by blast
  then have L1: "holds L1 mss" "map filePath (segments L1) = map fst fs" "keeps_others (set (map fst fs)) d (log_dir L1)"
    "\<forall>f\<in>set fs. keeps_stable (fst f) (file_records f) d (log_dir L1)" "loads_only ?L L1"
    by (simp_all add: loaded_def recs dir)
  have "length (segments L1) = n"
    using L1(2) by (metis length_map length_upt minus_nat.diff_0 names)
  define L' where "L' = L1\<lparr>active_segment_index := n - 1\<rparr>"
  have h: "holds L' mss"
    using L1(1) by (rule holds_frame) (simp_all add: L'_def)
  have fresh: "map_of (log_dir L1) (segment_name k) = None" if "n \<le> k" for k
  proof -
    have "segment_name k \<notin> segment_name ` {..<n}" "segment_name k \<notin> set (map fst fs)"
      using that unfolding names by auto
    then show ?thesis using files L1(3) by (simp add: segment_files_def keeps_others_def)
  qed
  have inv: "log_inv L' mss"
    unfolding log_inv_def using h fresh n(1) \<open>length (segments L1) = n\<close> L1(2)
    by (auto simp: L'_def names)
  have "map_of (log_dir L1) wal_name = map_of d wal_name"
    using L1(3) pre(4) by (simp add: keeps_others_def)
  then have su: "same_setup ?L L'"
    using L1(5) unfolding same_setup_def loads_only_def by (cases L1) (simp add: L'_def dir)
  have "list_all2 (\<lambda>p ms. keeps_stable p ms d (log_dir L')) (map fst fs) (map file_records fs)"
    using L1(4) by (simp add: L'_def list_all2_map1 list_all2_map2 list_all2_same)
  then have st: "stable_upto b (map segment_name [0..<n]) (log_dir L') mss"
    if "stable_upto b (map segment_name [0..<n]) d mss" for b
    using that unfolding names recs by (rule stable_upto_keeps)
  have "segment_paths (log_dir ?L) = map fst fs"
    unfolding names dir by (rule segment_paths_ordered [OF files n(2)])
  moreover have "map fst fs \<noteq> []" using n(1) by (simp add: fs_def)
  ultimately have "load_existing_segments e ?L = (Inr (), L')"
    using run \<open>length (segments L1) = n\<close>
    by (simp add: load_existing_segments_def Let_def seq_def activate_last_def modify_def L'_def)
  with inv su st show ?thesis by blast
qed

lemma stable_upto_empty: "concat mss = [] \<Longrightarrow> stable_upto b ps d mss"
proof (induction mss arbitrary: b ps)
  case (Cons ms mss)
  then show ?case by (cases ps) auto
qed simp

lemma durable_cleared:
  "pending_appends L = 0 \<Longrightarrow> visible (log_dir L) wal_name = Some [] \<or> map_of (log_dir L) wal_name = None \<Longrightarrow>
   stable_upto (length (concat mss)) (map filePath (segments L)) (log_dir L) mss \<Longrightarrow> durable_inv L mss"
  by (auto simp: durable_inv_def synced_count_def)

text \<open>The end of \<^verbatim>\<open>recover_wal\<close>: everything is synced, then the write-ahead log is emptied.\<close>

lemma settle_ok:
  assumes inv: "log_inv L mss" and e: "healthy e" and p: "pending_appends L = 0"
    and nr: "map_of (log_dir L) wal_name \<noteq> Some Not_regular"
  shows "\<exists>L'. seq (\<lambda>L. if 0 < next_offset L then sync_segments e L else ret () L) (\<lambda>_. clear_wal e) L = (Inr (), L') \<and>
    log_inv L' mss \<and> durable_inv L' mss \<and> pending_appends L' = 0 \<and>
    sync_batch_size L' = sync_batch_size L \<and> max_segment_size L' = max_segment_size L"
proof -
  have len: "length (concat mss) < 2 ^ 64" and nx: "next_offset L = of_nat (length (concat mss))"
    using inv length_enc_records_ge [of "concat mss"] by (auto simp: log_inv_def holds_def)
  have "list_all2 (\<lambda>seg ms. visible (log_dir L) (filePath seg) = Some (enc_records ms)) (segments L) mss"
    using inv by (auto simp: log_inv_def holds_def segs_hold_def seg_file_def elim!: list.rel_mono_strong)
  from sync_each [OF e this] obtain d1 where d1:
    "sync_segments e L = (Inr (), L\<lparr>log_dir := d1\<rparr>)" "visible d1 = visible (log_dir L)"
    "\<forall>p. map_of d1 p = None \<longleftrightarrow> map_of (log_dir L) p = None"
    "\<forall>p. p \<notin> filePath ` set (segments L) \<longrightarrow> map_of d1 p = map_of (log_dir L) p"
    "list_all2 (\<lambda>seg ms. stable d1 (filePath seg) = enc_records ms) (segments L) mss"
    by (auto simp: sync_segments_def)
  note paths = log_inv_paths [OF inv]
  define d where "d = (if concat mss = [] then log_dir L else d1)"
  have v: "visible d = visible (log_dir L)" "map_of d p = None \<longleftrightarrow> map_of (log_dir L) p = None"
    "map_of d wal_name = map_of (log_dir L) wal_name" for p
    using d1(2-4) paths by (auto simp: d_def)
  define L' where "L' = L\<lparr>log_dir := AList.update wal_name (Regular [] []) d\<rparr>"
  have "0 < next_offset L \<longleftrightarrow> concat mss \<noteq> []"
    using len by (auto simp: nx word_gt_0 word_unat_eq_iff unat_of_nat_u64)
  then have "(if 0 < next_offset L then sync_segments e L else ret () L) = (Inr (), L\<lparr>log_dir := d\<rparr>)"
    using d1(1) by (simp add: d_def ret_def)
  moreover have "map_of d wal_name \<noteq> Some Not_regular" using nr v(3) by simp
  ultimately have run: "seq (\<lambda>L. if 0 < next_offset L then sync_segments e L else ret () L) (\<lambda>_. clear_wal e) L = (Inr (), L')"
    using e by (simp add: seq_def clear_wal_def on_dir_def healthy_def L'_def)
  have inv': "log_inv L' mss"
    using inv by (rule log_inv_frame) (use v in \<open>simp_all add: L'_def\<close>)
  have "stable_upto (length (concat mss)) (map filePath (segments L)) d mss"
  proof (cases "concat mss = []")
    case True
    then show ?thesis by (rule stable_upto_empty)
  next
    case False
    then have "d = d1" unfolding d_def by (rule if_not_P)
    then show ?thesis using d1(5) by (simp add: stable_upto_synced list_all2_map1)
  qed
  then have "stable_upto (length (concat mss)) (map filePath (segments L)) (log_dir L') mss"
    by (rule stable_upto_frame) (use paths in \<open>auto simp: L'_def image_iff\<close>)
  then have "durable_inv L' mss"
    by (intro durable_cleared) (simp_all add: L'_def p)
  with run inv' p show ?thesis by (intro exI [of _ L']) (simp add: L'_def)
qed

lemma enc_wal_empty [simp]: "enc_wal b ms = [] \<longleftrightarrow> ms = []"
  by (cases ms) (auto simp: wal_entry_def dest: arg_cong [of _ _ length])

lemma recover_wal_ok:
  assumes inv: "log_inv L mss" and e: "healthy e" and p: "pending_appends L = 0"
    and nr: "map_of (log_dir L) wal_name \<noteq> Some Not_regular"
    and xs: "concat mss = take k xs" "b \<le> k" "k \<le> length xs" "j \<le> length xs"
      "list_all replayable xs" "length (enc_records xs) < 2 ^ 64"
    and w: "file_contents (log_dir L) wal_name = enc_wal b (drop b (take j xs)) @ t" "wal_next t = None"
    and st: "file_contents (log_dir L) wal_name = [] \<Longrightarrow>
      stable_upto (length (concat mss)) (map filePath (segments L)) (log_dir L) mss"
  shows "\<exists>L' mss'. recover_wal e L = (Inr (), L') \<and> log_inv L' mss' \<and> durable_inv L' mss' \<and>
    concat mss' = take (max k j) xs \<and> length mss' = length mss \<and> pending_appends L' = 0 \<and>
    sync_batch_size L' = sync_batch_size L \<and> max_segment_size L' = max_segment_size L"
proof (cases "file_contents (log_dir L) wal_name = []")
  case True
  then have "j \<le> b" using w(1) xs(4) by simp
  then have mx: "max k j = k" using xs(2) by simp
  have "visible (log_dir L) wal_name = Some [] \<or> map_of (log_dir L) wal_name = None"
    using True nr by (auto simp: file_contents_def visible_def split: option.splits node.splits)
  then have "durable_inv L mss" using durable_cleared [OF p] st True by blast
  then show ?thesis
    using True nr inv xs(1) mx p
    by (intro exI [of _ L] exI [of _ mss]) (simp add: recover_wal_def ret_def)
next
  case False
  obtain L1 mss1 where L1: "recover_loop e (file_contents (log_dir L) wal_name) L = (Inr (), L1)"
    "log_inv L1 mss1" "concat mss1 = take (max k j) xs" "length mss1 = length mss" "same_setup L L1"
    using recover_loop_run [OF inv e xs w(2)] w(1) by metis
  have "pending_appends L1 = 0" "map_of (log_dir L1) wal_name \<noteq> Some Not_regular"
    using L1(5) p nr by (simp_all add: same_setup_def)
  from settle_ok [OF L1(2) e this] obtain L' where
    L': "seq (\<lambda>L. if 0 < next_offset L then sync_segments e L else ret () L) (\<lambda>_. clear_wal e) L1 = (Inr (), L')"
      "log_inv L' mss1" "durable_inv L' mss1" "pending_appends L' = 0"
      "sync_batch_size L' = sync_batch_size L" "max_segment_size L' = max_segment_size L"
    using L1(5) by (auto simp: same_setup_def)
  have "open_ok e wal_name" using e by (simp add: healthy_def)
  then have "recover_wal e L =
    seq (recover_loop e (file_contents (log_dir L) wal_name))
      (\<lambda>_. seq (\<lambda>L. if 0 < next_offset L then sync_segments e L else ret () L) (\<lambda>_. clear_wal e)) L"
    using False nr by (simp add: recover_wal_def)
  also have "\<dots> = (Inr (), L')"
    using L1(1) L'(1) by (simp add: seq_def [of "recover_loop e (file_contents (log_dir L) wal_name)"])
  finally show ?thesis using L' L1(3,4) by blast
qed

lemma batch_positive [simp]: "0 < max 1 (bt :: u64)"
  by (simp add: less_max_iff_disj)

lemma log_open_ok:
  assumes e: "healthy e" and files: "segment_files n d" "0 < n" "n \<le> 10" "length mss = n"
    and fh: "\<And>i. i < n \<Longrightarrow> file_holds d (segment_name i, mss ! i, ts i)"
    and big: "length (enc_records (concat mss)) + (\<Sum>i\<leftarrow>[0..<n]. length (ts i)) < 2 ^ 64"
    and nr: "map_of d wal_name \<noteq> Some Not_regular"
    and xs: "concat mss = take k xs" "b \<le> k" "k \<le> length xs" "j \<le> length xs"
      "list_all replayable xs" "length (enc_records xs) < 2 ^ 64"
    and w: "file_contents d wal_name = enc_wal b (drop b (take j xs)) @ t" "wal_next t = None"
    and st: "file_contents d wal_name = [] \<Longrightarrow>
      stable_upto (length (concat mss)) (map segment_name [0..<n]) d mss"
  shows "\<exists>L' mss'. log_open e d mx bt = (Inr (), L') \<and> log_ok L' mss' \<and>
    concat mss' = take (max k j) xs \<and> length mss' = n \<and> pending_appends L' = 0"
proof -
  let ?L = "empty_log d mx bt"
  obtain L1 where L1: "load_existing_segments e ?L = (Inr (), L1)" "log_inv L1 mss" "same_setup ?L L1"
    "\<forall>b. stable_upto b (map segment_name [0..<n]) d mss \<longrightarrow>
         stable_upto b (map segment_name [0..<n]) (log_dir L1) mss"
    using load_existing_ok [OF e files fh big] by blast
  have s: "pending_appends L1 = 0" "map_of (log_dir L1) wal_name = map_of d wal_name"
    "sync_batch_size L1 = max 1 bt"
    using L1(3) by (simp_all add: same_setup_def empty_log_def)
  have fc: "file_contents (log_dir L1) wal_name = file_contents d wal_name"
    using s(2) by (simp add: file_contents_def)
  have names: "map filePath (segments L1) = map segment_name [0..<n]"
    using L1(2) files(4) log_inv_length [OF L1(2)] by (simp add: log_inv_def)
  obtain L' mss' where L': "recover_wal e L1 = (Inr (), L')" "log_inv L' mss'" "durable_inv L' mss'"
    "concat mss' = take (max k j) xs" "length mss' = length mss" "pending_appends L' = 0"
    "sync_batch_size L' = sync_batch_size L1"
    using recover_wal_ok [OF L1(2) e s(1) _ xs w [folded fc]] nr st L1(4)
    unfolding fc s(2) names by blast
  have "0 < sync_batch_size L'"
    by (simp only: L'(7) s(3) batch_positive)
  then have "log_ok L' mss'" using L' by (simp add: log_ok_def)
  moreover have "log_open e d mx bt = (Inr (), L')"
    using e L1(1) L'(1) by (simp add: log_open_def healthy_def seq_def)
  ultimately show ?thesis using L' files(4) by blast
qed

text \<open>A directory without segment files and without a write-ahead log gives an empty log.\<close>

lemma log_open_fresh:
  assumes e: "healthy e" and files: "segment_files 0 d" and wal: "map_of d wal_name = None"
  shows "\<exists>L'. log_open e d mx bt = (Inr (), L') \<and> log_ok L' [[]] \<and>
    L' = (empty_log d mx bt)\<lparr>log_dir := AList.update (segment_name 0) (Regular [] []) d,
      segments := [\<lparr>filePath = segment_name 0, base_offset = 0, current_size = 0\<rparr>]\<rparr>"
proof -
  let ?L = "empty_log d mx bt"
  define L' where "L' = ?L\<lparr>log_dir := AList.update (segment_name 0) (Regular [] []) d,
      segments := [\<lparr>filePath = segment_name 0, base_offset = 0, current_size = 0\<rparr>]\<rparr>"
  have fresh: "map_of d (segment_name k) = None" for k
    using files by (simp add: segment_files_def)
  have "segment_paths d = []"
    using segment_paths_ordered [OF files] by simp
  then have load: "load_existing_segments e ?L = (Inr (), L')"
    using new_segment_fresh [OF e fresh]
    by (simp add: load_existing_segments_def push_segment_def seq_def on_dir_def modify_def
        activate_last_def empty_log_def L'_def)
  have "log_open e d mx bt = (Inr (), L')"
    using e load wal
    by (simp add: log_open_def healthy_def seq_def recover_wal_def file_contents_def ret_def L'_def)
  moreover have "log_ok L' [[]]"
    using fresh wal
    by (simp add: log_ok_def log_inv_def holds_def segs_hold_def seg_file_def durable_inv_def
        synced_count_def L'_def empty_log_def)
  ultimately show ?thesis by (auto simp: L'_def)
qed


section \<open>Reopening after a crash\<close>

lemma prefix_enc_records:
  "prefix c (enc_records ms) \<Longrightarrow> length (enc_records ms) < 2 ^ 64 \<Longrightarrow>
   \<exists>k t. c = enc_records (take k ms) @ t \<and> torn t \<and> k \<le> length ms \<and>
     (\<forall>b\<le>length ms. prefix (enc_records (take b ms)) c \<longrightarrow> b \<le> k)"
proof (induction ms arbitrary: c)
  case Nil
  then show ?case by (intro exI [of _ 0] exI [of _ "[]"]) (simp add: torn_def)
next
  case (Cons m ms)
  show ?case
  proof (cases "strict_prefix c (enc_record m)")
    case True
    have "b = 0" if "prefix (enc_records (take b (m # ms))) c" for b
    proof (rule ccontr)
      assume "b \<noteq> 0"
      then obtain b' where "b = Suc b'" by (cases b) auto
      with that have "prefix (enc_record m @ enc_records (take b' ms)) c" by simp
      then have "prefix (enc_record m) c" by (rule append_prefixD)
      with True show False by (simp add: prefix_order.less_le_not_le)
    qed
    moreover have "torn c" using True Cons.prems(2) by (auto simp: torn_def)
    ultimately show ?thesis by (intro exI [of _ 0] exI [of _ c]) auto
  next
    case False
    then obtain c' where c: "c = enc_record m @ c'" "prefix c' (enc_records ms)"
      using Cons.prems(1) by (auto simp: prefix_append strict_prefix_def)
    have "length (enc_records ms) < 2 ^ 64" using Cons.prems(2) by simp
    from Cons.IH [OF c(2) this] obtain k t where kt: "c' = enc_records (take k ms) @ t" "torn t" "k \<le> length ms"
      "\<forall>b\<le>length ms. prefix (enc_records (take b ms)) c' \<longrightarrow> b \<le> k"
      by blast
    have "b \<le> Suc k" if "b \<le> length (m # ms)" "prefix (enc_records (take b (m # ms))) c" for b
      using that kt(4) unfolding c(1) by (cases b) simp_all
    moreover have "c = enc_records (take (Suc k) (m # ms)) @ t" using c(1) kt(1) by simp
    ultimately show ?thesis using kt(2,3) by (intro exI [of _ "Suc k"] exI [of _ t]) simp
  qed
qed

lemma stable_upto_last:
  "stable_upto b (ps @ [p]) d (mss @ [ms]) \<Longrightarrow> length ps = length mss \<Longrightarrow>
   prefix (enc_records (take (b - length (concat mss)) ms)) (stable d p)"
  by (induction b ps d mss rule: stable_upto.induct) auto

lemma stable_upto_covers:
  "list_all2 (\<lambda>p ms. prefix (enc_records ms) (stable d p)) ps mss \<Longrightarrow> stable_upto b ps d mss"
proof (induction ps arbitrary: mss b)
  case (Cons p ps)
  then obtain ms mss' where "mss = ms # mss'" by (cases mss) auto
  moreover have "prefix (enc_records (take b ms)) (enc_records ms)"
    by (metis append_take_drop_id enc_records_simps(3) prefixI)
  ultimately show ?case using Cons by (auto intro: prefix_order.trans)
qed simp

text \<open>
  What a crash leaves of a log: the closed segments are whole, the active segment and the
  write-ahead log are cut somewhere after their stable part, and there are no other segment
  files. What was read back from the disk is on the disk.
\<close>

definition cut_copy :: "dir \<Rightarrow> string \<Rightarrow> dir \<Rightarrow> bool" where
  "cut_copy d p d' \<longleftrightarrow> (\<exists>c. map_of d' p = Some (Regular c c) \<and>
     prefix (stable d p) c \<and> prefix c (file_contents d p))"

definition crash_image :: "log \<Rightarrow> dir \<Rightarrow> bool" where
  "crash_image L d \<longleftrightarrow> segment_files (length (segments L)) d \<and>
     (\<forall>seg\<in>set (butlast (segments L)).
        map_of d (filePath seg) =
          Some (Regular (file_contents (log_dir L) (filePath seg)) (file_contents (log_dir L) (filePath seg)))) \<and>
     cut_copy (log_dir L) (filePath (last (segments L))) d \<and>
     (map_of d wal_name = None \<or> cut_copy (log_dir L) wal_name d)"

lemma log_inv_file:
  assumes inv: "log_inv L mss" and i: "i < length mss"
  shows "filePath (segments L ! i) = segment_name i"
    "visible (log_dir L) (segment_name i) = Some (enc_records (mss ! i))"
proof -
  have len: "length (segments L) = length mss" using log_inv_length [OF inv] .
  have "map filePath (segments L) ! i = map segment_name [0..<length (segments L)] ! i"
    using inv by (simp only: log_inv_def)
  then show name: "filePath (segments L ! i) = segment_name i" using len i by simp
  have "list_all2 (\<lambda>seg ms. seg_file seg (log_dir L) (enc_records ms)) (segments L) mss"
    using inv by (simp add: log_inv_def holds_def segs_hold_def)
  then show "visible (log_dir L) (segment_name i) = Some (enc_records (mss ! i))"
    using i len name by (auto simp: seg_file_def dest: list_all2_nthD)
qed

lemma visible_contents: "visible d p = Some c \<Longrightarrow> file_contents d p = c"
  by (auto simp: visible_Some file_contents_def)

lemma durable_wal:
  "durable_inv L mss \<Longrightarrow>
   file_contents (log_dir L) wal_name = enc_wal (synced_count L mss) (drop (synced_count L mss) (concat mss))"
  by (auto simp: durable_inv_def synced_count_def visible_Some file_contents_def)

lemma crash_wal:
  assumes "durable_inv L mss" and "crash_image L d" and "list_all replayable (concat mss)"
  defines "b \<equiv> synced_count L mss" and "xs \<equiv> concat mss"
  shows "\<exists>j t. file_contents d wal_name = enc_wal b (drop b (take j xs)) @ t \<and> wal_next t = None \<and> j \<le> length xs \<and>
    (file_contents d wal_name = file_contents (log_dir L) wal_name \<longrightarrow> j = length xs)"
proof (cases "file_contents d wal_name = file_contents (log_dir L) wal_name")
  case True
  then show ?thesis
    using durable_wal [OF assms(1)]
    by (intro exI [of _ "length xs"] exI [of _ "[]"]) (simp add: b_def xs_def wal_next_def)
next
  case False
  have "prefix (file_contents d wal_name) (file_contents (log_dir L) wal_name)"
    using assms(2) by (auto simp: crash_image_def cut_copy_def file_contents_def)
  then have "prefix (file_contents d wal_name) (enc_wal b (drop b xs))"
    using durable_wal [OF assms(1)] by (simp add: b_def xs_def)
  moreover have "list_all replayable (drop b xs)"
    using assms(3) unfolding xs_def list_all_iff by (blast dest: in_set_dropD)
  ultimately obtain j t where "file_contents d wal_name = enc_wal b (take j (drop b xs)) @ t"
    "wal_next t = None" "j \<le> length (drop b xs)"
    using prefix_enc_wal by blast
  moreover have "b \<le> length xs" by (simp add: b_def xs_def synced_count_def)
  ultimately show ?thesis
    using False by (intro exI [of _ "b + j"] exI [of _ t]) (simp add: take_drop add.commute)
qed

text \<open>The active segment after a crash: whole records, at least the stable ones, and a torn tail.\<close>

lemma crash_active:
  assumes inv: "log_inv L (mss @ [ms])" and img: "crash_image L d"
  obtains k t where "map_of d (segment_name (length mss)) =
      Some (Regular (enc_records (take k ms) @ t) (enc_records (take k ms) @ t))" "torn t" "k \<le> length ms"
    "length (enc_records (take k ms) @ t) \<le> length (enc_records ms)"
    "\<forall>b\<le>length ms. prefix (enc_records (take b ms)) (stable (log_dir L) (segment_name (length mss))) \<longrightarrow> b \<le> k"
proof -
  let ?m = "length mss"
  have last: "filePath (last (segments L)) = segment_name ?m"
    using log_inv_file(1) [OF inv, of ?m] log_inv_length [OF inv]
    by (cases "segments L" rule: rev_cases) (auto simp: nth_append)
  have vlast: "file_contents (log_dir L) (segment_name ?m) = enc_records ms"
    using log_inv_file(2) [OF inv, of ?m] by (simp add: visible_contents)
  obtain c where c: "map_of d (segment_name ?m) = Some (Regular c c)"
    "prefix (stable (log_dir L) (segment_name ?m)) c" "prefix c (enc_records ms)"
    using img unfolding crash_image_def cut_copy_def last vlast by blast
  have "length (enc_records ms) < 2 ^ 64" using inv by (simp add: log_inv_def holds_def)
  from prefix_enc_records [OF c(3) this] obtain k t where
    k: "c = enc_records (take k ms) @ t" "torn t" "k \<le> length ms"
      "\<forall>b\<le>length ms. prefix (enc_records (take b ms)) c \<longrightarrow> b \<le> k"
    by blast
  show thesis
  proof (rule that [OF _ k(2,3)])
    show "map_of d (segment_name ?m) = Some (Regular (enc_records (take k ms) @ t) (enc_records (take k ms) @ t))"
      using c(1) k(1) by simp
    show "length (enc_records (take k ms) @ t) \<le> length (enc_records ms)" using prefix_length_le [OF c(3)] k(1) by simp
  qed (use k(4) c(2) prefix_order.trans in blast)
qed

lemma crash_closed:
  assumes "log_inv L (mss @ [ms])" and "crash_image L d" and "i < length mss"
  shows "map_of d (segment_name i) = Some (Regular (enc_records (mss ! i)) (enc_records (mss ! i)))"
proof -
  have "segments L ! i \<in> set (butlast (segments L))"
    using assms(3) log_inv_length [OF assms(1)] by (auto simp: in_set_conv_nth nth_butlast intro!: exI [of _ i])
  then show ?thesis
    using assms(2,3) log_inv_file [OF assms(1), of i] by (auto simp: crash_image_def visible_contents nth_append)
qed

lemma crash_segments:
  assumes inv: "log_inv L mss" and dur: "durable_inv L mss" and img: "crash_image L d"
  shows "\<exists>mss1 ts k. length mss1 = length mss \<and>
    (\<forall>i<length mss. file_holds d (segment_name i, mss1 ! i, ts i)) \<and>
    length (enc_records (concat mss1)) + (\<Sum>i\<leftarrow>[0..<length mss]. length (ts i)) < 2 ^ 64 \<and>
    concat mss1 = take k (concat mss) \<and> synced_count L mss \<le> k \<and> k \<le> length (concat mss) \<and>
    stable_upto (length (concat mss1)) (map segment_name [0..<length mss]) d mss1"
proof -
  let ?b = "synced_count L mss"
  have fit: "length (enc_records (concat mss)) < 2 ^ 64" using inv by (simp add: log_inv_def holds_def)
  have len: "length (segments L) = length mss" using log_inv_length [OF inv] .
  obtain mss0 ms where mss: "mss = mss0 @ [ms]"
    using log_inv_last [OF inv] by (metis rev_exhaust)
  let ?m = "length mss0"
  have inv': "log_inv L (mss0 @ [ms])" using inv mss by simp
  obtain k t where k: "map_of d (segment_name ?m) = Some (Regular (enc_records (take k ms) @ t) (enc_records (take k ms) @ t))"
      "torn t" "k \<le> length ms" "length (enc_records (take k ms) @ t) \<le> length (enc_records ms)"
    and most: "\<forall>b\<le>length ms. prefix (enc_records (take b ms)) (stable (log_dir L) (segment_name ?m)) \<longrightarrow> b \<le> k"
    by (rule crash_active [OF inv' img])
  note closed = crash_closed [OF inv' img]
  define mss1 where "mss1 = mss0 @ [take k ms]"
  define ts where "ts i = (if i = ?m then t else [])" for i
  have fh: "file_holds d (segment_name i, mss1 ! i, ts i)" if "i < length mss" for i
    using that closed [of i] k(1,2)
    by (auto simp: file_holds_def visible_Some mss1_def ts_def mss nth_append less_Suc_eq torn_def)
  have s0: "(\<Sum>i\<leftarrow>[0..<?m]. length (ts i)) = 0" "ts ?m = t" by (simp_all add: ts_def)
  then have "(\<Sum>i\<leftarrow>[0..<length mss]. length (ts i)) = length t" by (simp add: mss s0 del: sum_list_eq_0_iff)
  then have big: "length (enc_records (concat mss1)) + (\<Sum>i\<leftarrow>[0..<length mss]. length (ts i)) < 2 ^ 64"
    using fit k(4) by (simp add: mss1_def) (simp add: mss)
  define k1 where "k1 = length (concat mss0) + k"
  have xs: "concat mss1 = take k1 (concat mss)" "k1 \<le> length (concat mss)"
    using k(3) by (simp_all add: mss1_def k1_def mss)
  have "stable_upto ?b (map segment_name [0..<?m] @ [segment_name ?m]) (log_dir L) (mss0 @ [ms])"
    using dur inv len mss by (simp add: durable_inv_def log_inv_def)
  then have "prefix (enc_records (take (?b - length (concat mss0)) ms)) (stable (log_dir L) (segment_name ?m))"
    using stable_upto_last by (metis diff_zero length_map length_upt)
  moreover have "?b \<le> length (concat mss0) + length ms"
    by (simp add: synced_count_def mss)
  then have "?b - length (concat mss0) \<le> length ms" by linarith
  ultimately have "?b - length (concat mss0) \<le> k" using most by blast
  then have bk: "?b \<le> k1" by (simp add: k1_def)
  have st: "stable_upto (length (concat mss1)) (map segment_name [0..<length mss]) d mss1"
  proof (rule stable_upto_covers, simp add: list_all2_conv_all_nth mss1_def mss, intro allI impI)
    fix i assume "i < Suc ?m"
    then show "prefix (enc_records ((mss0 @ [take k ms]) ! i)) (stable d ((map segment_name [0..<?m] @ [segment_name ?m]) ! i))"
      using closed [of i] k(1) by (auto simp: less_Suc_eq nth_append stable_def)
  qed
  have "length mss1 = length mss" by (simp add: mss1_def mss)
  with fh big xs bk st show ?thesis by blast
qed

lemma log_crash_ok:
  assumes ok: "log_ok L mss" and few: "length (segments L) \<le> 10" and img: "crash_image L d"
    and rp: "list_all replayable (concat mss)" and e: "healthy e"
  shows "\<exists>L' mss' k. log_open e d mx bt = (Inr (), L') \<and> log_ok L' mss' \<and> length mss' = length mss \<and>
    concat mss' = take k (concat mss) \<and> synced_count L mss \<le> k \<and> k \<le> length (concat mss) \<and>
    (file_contents d wal_name = file_contents (log_dir L) wal_name \<longrightarrow> k = length (concat mss))"
proof -
  let ?b = "synced_count L mss"
  have inv: "log_inv L mss" and dur: "durable_inv L mss" using ok by (auto simp: log_ok_def)
  have fit: "length (enc_records (concat mss)) < 2 ^ 64" using inv by (simp add: log_inv_def holds_def)
  obtain mss1 ts k1 where len1: "length mss1 = length mss"
    and fh: "\<And>i. i < length mss \<Longrightarrow> file_holds d (segment_name i, mss1 ! i, ts i)"
    and big: "length (enc_records (concat mss1)) + (\<Sum>i\<leftarrow>[0..<length mss]. length (ts i)) < 2 ^ 64"
    and xs: "concat mss1 = take k1 (concat mss)" "?b \<le> k1" "k1 \<le> length (concat mss)"
    and st: "stable_upto (length (concat mss1)) (map segment_name [0..<length mss]) d mss1"
    using crash_segments [OF inv dur img] by blast
  have nr: "map_of d wal_name \<noteq> Some Not_regular"
    using img by (auto simp: crash_image_def cut_copy_def)
  obtain j u where w: "file_contents d wal_name = enc_wal ?b (drop ?b (take j (concat mss))) @ u" "wal_next u = None"
    and j: "j \<le> length (concat mss)"
      "file_contents d wal_name = file_contents (log_dir L) wal_name \<Longrightarrow> j = length (concat mss)"
    using crash_wal [OF dur img rp] by blast
  have "segment_files (length mss) d" "0 < length mss" "length mss \<le> 10" "length mss1 = length mss"
    using img few log_inv_last [OF inv] len1 by (simp_all add: crash_image_def log_inv_length [OF inv])
  from log_open_ok [OF e this fh big nr xs j(1) rp fit w st] obtain L' mss' where
    "log_open e d mx bt = (Inr (), L')" "log_ok L' mss'" "concat mss' = take (max k1 j) (concat mss)"
    "length mss' = length mss"
    by blast
  then show ?thesis
    using xs(2,3) j by (intro exI [of _ L'] exI [of _ mss'] exI [of _ "max k1 j"]) auto
qed

end
