(* ===== verification/AppendLog.thy ===== *)
theory AppendLog
  imports Segment
begin

text \<open>
  What the layers above a partition log rely on: appending returns the number of records there
  were and adds one, nothing is ever changed or removed, and fetching an offset returns the
  record appended there. The contract is a locale. Its client lemmas cover reading back what was
  appended, the immutability of offsets, and runs of appends. The partition log and the partitions
  of the storage engine are its instances.
\<close>

section \<open>The specification\<close>

text \<open>The bytes of all records are addressed with 64-bit positions.\<close>

definition roomy :: "string list \<Rightarrow> bool" where
  "roomy ms \<longleftrightarrow> length (enc_records ms) < 2 ^ 64"

definition fetch_spec :: "string list \<Rightarrow> u64 \<Rightarrow> failure + string" where
  "fetch_spec ms off =
     (if unat off < length ms then Inr (ms ! unat off) else Inl (Out_of_range ''Invalid offset''))"

text \<open>A run of appends, collecting the offsets, as the batch handlers do it.\<close>

fun append_all :: "('m \<Rightarrow> ('l, u64) prog) \<Rightarrow> 'm list \<Rightarrow> ('l, u64 list) prog" where
  "append_all app [] = ret []"
| "append_all app (m # ms) =
     seq (app m) (\<lambda>off. seq (append_all app ms) (\<lambda>offs. ret (off # offs)))"

definition offsets_from :: "nat \<Rightarrow> nat \<Rightarrow> u64 list" where
  "offsets_from n k = map of_nat [n..<n + k]"

lemma roomy_prefix: "roomy (ms @ ns) \<Longrightarrow> roomy ms"
  by (simp add: roomy_def)

lemma roomy_length: "roomy ms \<Longrightarrow> length ms < 2 ^ 64"
  using length_enc_records_ge [of ms] by (simp add: roomy_def)

lemma unat_offset: "roomy ms \<Longrightarrow> n \<le> length ms \<Longrightarrow> unat (of_nat n :: u64) = n"
  using roomy_length [of ms] by (simp add: unat_of_nat_u64)

lemma offsets_from_Suc: "offsets_from n (Suc k) = of_nat n # offsets_from (Suc n) k"
proof -
  have "[n..<n + Suc k] = n # [Suc n..<Suc n + k]" by (simp add: upt_rec)
  then show ?thesis by (simp add: offsets_from_def)
qed

lemma length_offsets_from [simp]: "length (offsets_from n k) = k"
  by (simp add: offsets_from_def)

lemma nth_offsets_from [simp]: "i < k \<Longrightarrow> offsets_from n k ! i = of_nat (n + i)"
  by (simp add: offsets_from_def)

section \<open>The contract and its consequences\<close>

locale append_only_log =
  fixes wf :: "'l \<Rightarrow> bool"
    and records :: "'l \<Rightarrow> string list"
    and append :: "string \<Rightarrow> ('l, u64) prog"
    and fetch :: "u64 \<Rightarrow> 'l \<Rightarrow> failure + string"
  assumes append_law: "wf L \<Longrightarrow> roomy (records L @ [m]) \<Longrightarrow>
      \<exists>L'. append m L = (Inr (of_nat (length (records L))), L') \<and> wf L' \<and> records L' = records L @ [m]"
    and fetch_law: "wf L \<Longrightarrow> fetch off L = fetch_spec (records L) off"
begin

lemma append_then_fetch:
  assumes "wf L" and "roomy (records L @ [m])"
  shows "\<exists>off L'. append m L = (Inr off, L') \<and> wf L' \<and> fetch off L' = Inr m"
proof -
  obtain L' where "append m L = (Inr (of_nat (length (records L))), L')" "wf L'" "records L' = records L @ [m]"
    using append_law [OF assms] by blast
  moreover from this have "fetch (of_nat (length (records L))) L' = Inr m"
    using assms(2) by (simp add: fetch_law fetch_spec_def unat_offset)
  ultimately show ?thesis by blast
qed

lemma append_keeps_offsets:
  assumes "wf L" and "roomy (records L @ [m])" and "fetch off L = Inr x"
  shows "fetch off (snd (append m L)) = Inr x"
proof -
  obtain L' where "append m L = (Inr (of_nat (length (records L))), L')" "wf L'" "records L' = records L @ [m]"
    using append_law [OF assms(1,2)] by blast
  with assms show ?thesis
    by (auto simp: fetch_law fetch_spec_def nth_append split: if_splits)
qed

lemma append_all_law:
  "wf L \<Longrightarrow> roomy (records L @ ms) \<Longrightarrow>
   \<exists>L'. append_all append ms L = (Inr (offsets_from (length (records L)) (length ms)), L') \<and>
     wf L' \<and> records L' = records L @ ms"
proof (induction ms arbitrary: L)
  case Nil
  then show ?case by (simp add: ret_def offsets_from_def)
next
  case (Cons m ms)
  have "roomy (records L @ [m])" using Cons.prems(2) roomy_prefix [of "records L @ [m]" ms] by simp
  then obtain L1 where L1: "append m L = (Inr (of_nat (length (records L))), L1)" "wf L1"
    "records L1 = records L @ [m]"
    using append_law [OF Cons.prems(1)] by blast
  moreover from this obtain L' where
    "append_all append ms L1 = (Inr (offsets_from (length (records L1)) (length ms)), L')"
    "wf L'" "records L' = records L1 @ ms"
    using Cons.IH [OF L1(2)] Cons.prems(2) by auto
  ultimately show ?case by (simp add: seq_def ret_def offsets_from_Suc)
qed

lemma append_all_then_fetch:
  assumes "wf L" and "roomy (records L @ ms)"
  shows "\<exists>offs L'. append_all append ms L = (Inr offs, L') \<and> length offs = length ms \<and>
    (\<forall>i<length ms. fetch (offs ! i) L' = Inr (ms ! i)) \<and>
    (\<forall>off x. fetch off L = Inr x \<longrightarrow> fetch off L' = Inr x)"
proof -
  obtain L' where L': "append_all append ms L = (Inr (offsets_from (length (records L)) (length ms)), L')"
    "wf L'" "records L' = records L @ ms"
    using append_all_law [OF assms] by blast
  have "fetch (offsets_from (length (records L)) (length ms) ! i) L' = Inr (ms ! i)" if "i < length ms" for i
    using that L' unat_offset [OF assms(2), of "length (records L) + i"]
    by (simp add: fetch_law fetch_spec_def)
  moreover have "fetch off L' = Inr x" if "fetch off L = Inr x" for off x
    using that assms(1) L' by (auto simp: fetch_law fetch_spec_def nth_append split: if_splits)
  ultimately show ?thesis using L'(1) by (intro exI conjI) auto
qed

lemma scan_records:
  assumes "wf L" and "roomy (records L)"
  shows "map (\<lambda>off. fetch off L) (offsets_from 0 (length (records L))) = map Inr (records L)"
  using assms(1) unat_offset [OF assms(2)]
  by (intro nth_equalityI) (simp_all add: fetch_law fetch_spec_def)

end

end
