(* ===== verification/LogSpec.thy ===== *)
theory LogSpec
  imports LogRecovery AppendLog
begin

text \<open>
  The abstract view of a partition log: the list of its records, read off the segment files. A
  well-formed log refines a list: appending adds one record at the end, fetching indexes the
  list, and flushing, reopening and recovering keep it.
\<close>

section \<open>Reading the records of a log off its files\<close>

function decode_records :: "string \<Rightarrow> string list" where
  "decode_records c =
     (if length c < 8 + unat (of_le (take 8 c)) then []
      else take (unat (of_le (take 8 c))) (drop 8 c) #
           decode_records (drop (8 + unat (of_le (take 8 c))) c))"
  by pat_completeness auto

termination decode_records
  by (relation "measure length") auto

declare decode_records.simps [simp del]

lemma decode_enc_records: "length (enc_records ms) < 2 ^ 64 \<Longrightarrow> decode_records (enc_records ms) = ms"
proof (induction ms)
  case Nil
  then show ?case by (subst decode_records.simps) simp
next
  case (Cons m ms)
  then have "unat (of_nat (length m) :: u64) = length m" by (simp add: unat_of_nat_u64)
  then show ?case using Cons by (subst decode_records.simps) (simp add: enc_record_def)
qed

definition log_view :: "log \<Rightarrow> string list list" where
  "log_view L = map (\<lambda>seg. decode_records (file_contents (log_dir L) (filePath seg))) (segments L)"

definition log_records :: "log \<Rightarrow> string list" where
  "log_records L = concat (log_view L)"

lemma log_inv_view:
  assumes inv: "log_inv L mss"
  shows "log_view L = mss"
proof (rule nth_equalityI)
  show len: "length (log_view L) = length mss"
    by (simp add: log_view_def log_inv_length [OF inv])
  have fit: "length (enc_records (concat mss)) < 2 ^ 64"
    using inv by (simp add: log_inv_def holds_def)
  fix i assume "i < length (log_view L)"
  then have i: "i < length mss" by (simp add: len)
  have "length (enc_records (mss ! i)) < 2 ^ 64"
    using fit length_enc_concat [of "mss ! i" mss] i by simp
  then show "log_view L ! i = mss ! i"
    using i log_inv_file [OF inv i] log_inv_length [OF inv]
    by (simp add: log_view_def visible_contents decode_enc_records)
qed

section \<open>A directory that holds only the files of the log\<close>

definition tidy :: "dir \<Rightarrow> bool" where
  "tidy d \<longleftrightarrow> distinct (map fst d) \<and>
     (\<forall>f. is_segment_name f \<longrightarrow> map_of d f \<noteq> None \<longrightarrow> f \<in> range segment_name)"

text \<open>
  Whatever the operating system does, the operations of a log write only to files that are
  there, to the write-ahead log and to the files of new segments.
\<close>

lemma not_segment_wal [simp]: "\<not> is_segment_name wal_name"
  by (simp add: is_segment_name_def wal_name_def)

lemma tidy_update:
  assumes "tidy d" and "p = wal_name \<or> p \<in> range segment_name \<or> map_of d p \<noteq> None"
  shows "tidy (AList.update p v d)"
  using assms by (auto simp: tidy_def distinct_update)

lemma write_file_tidy: "tidy d \<Longrightarrow> tidy (snd (write_file e p bs d))"
  by (auto simp: write_file_def intro!: tidy_update split: option.splits node.splits prod.splits)

lemma sync_file_tidy: "tidy d \<Longrightarrow> tidy (snd (sync_file e p d))"
  by (auto simp: sync_file_def intro!: tidy_update split: option.splits node.splits)

lemma segment_reopen_tidy: "tidy d \<Longrightarrow> filePath seg \<in> range segment_name \<or> map_of d (filePath seg) \<noteq> None \<Longrightarrow>
   tidy (snd (segment_reopen e seg d))"
  by (auto simp: segment_reopen_def Let_def intro: tidy_update split: option.splits node.splits)

lemma segment_truncate_tidy: "tidy d \<Longrightarrow> tidy (snd (segment_truncate e n seg d))"
  by (auto simp: segment_truncate_def simp del: resize_to.simps
      intro!: segment_reopen_tidy tidy_update split: option.splits node.splits)

definition keeps_tidy :: "(log, 'a) prog \<Rightarrow> bool" where
  "keeps_tidy f \<longleftrightarrow> (\<forall>L. tidy (log_dir L) \<longrightarrow> tidy (log_dir (snd (f L))))"

named_theorems tidy_intros

lemma keeps_tidy_seq [tidy_intros]:
  "keeps_tidy f \<Longrightarrow> (\<And>x. keeps_tidy (g x)) \<Longrightarrow> keeps_tidy (seq f g)"
  unfolding keeps_tidy_def
proof (intro allI impI)
  fix L :: log
  assume f: "\<forall>L. tidy (log_dir L) \<longrightarrow> tidy (log_dir (snd (f L)))"
    and g: "\<And>x. \<forall>L. tidy (log_dir L) \<longrightarrow> tidy (log_dir (snd (g x L)))" and t: "tidy (log_dir L)"
  obtain r L1 where r: "f L = (r, L1)" by fastforce
  have "tidy (log_dir L1)" using f [rule_format, OF t] r by simp
  then show "tidy (log_dir (snd (seq f g L)))"
    using g by (cases r) (simp_all add: seq_def r)
qed

lemma keeps_tidy_ret [tidy_intros]: "keeps_tidy (ret x)" "keeps_tidy (gets h)" "keeps_tidy (throw y)"
  by (simp_all add: keeps_tidy_def ret_def gets_def throw_def)

lemma keeps_tidy_modify [tidy_intros]: "(\<And>L. log_dir (h L) = log_dir L) \<Longrightarrow> keeps_tidy (modify h)"
  by (simp add: keeps_tidy_def modify_def)

lemma keeps_tidy_for_each: "(\<And>x. x \<in> set xs \<Longrightarrow> keeps_tidy (f x)) \<Longrightarrow> keeps_tidy (for_each f xs)"
  by (induction xs) (simp_all add: keeps_tidy_ret keeps_tidy_seq)

lemma keeps_tidy_at: "(\<And>L. keeps_tidy (f L)) \<Longrightarrow> keeps_tidy (\<lambda>L. f L L)"
  by (simp add: keeps_tidy_def)

lemma keeps_tidy_if [tidy_intros]:
  "keeps_tidy f \<Longrightarrow> keeps_tidy g \<Longrightarrow> keeps_tidy (\<lambda>L. if b L then f L else g L)"
  by (simp add: keeps_tidy_def)

lemma keeps_tidy_on_dir: "(\<And>d. tidy d \<Longrightarrow> tidy (snd (f d))) \<Longrightarrow> keeps_tidy (on_dir f)"
  by (simp add: keeps_tidy_def on_dir_def case_prod_beta)

lemma keeps_tidy_on_segment:
  "(\<And>seg d. tidy d \<Longrightarrow> tidy (snd (snd (f seg d)))) \<Longrightarrow> keeps_tidy (on_segment i f)"
  by (simp add: keeps_tidy_def on_segment_def case_prod_beta)

lemma write_wal_tidy [tidy_intros]: "keeps_tidy (write_wal e off m)"
  unfolding write_wal_def
  by (rule keeps_tidy_on_dir) (auto simp: Let_def case_prod_beta intro!: write_file_tidy tidy_update)

lemma sync_segments_tidy [tidy_intros]: "keeps_tidy (sync_segments e)"
  unfolding sync_segments_def
  by (rule keeps_tidy_at, rule keeps_tidy_for_each, rule keeps_tidy_on_dir)
    (simp add: segment_sync_def segment_flush_def case_prod_beta sync_file_tidy)

lemma clear_wal_tidy [tidy_intros]: "keeps_tidy (clear_wal e)"
  unfolding clear_wal_def by (rule keeps_tidy_on_dir) (simp add: tidy_update)

lemma sync_pending_tidy [tidy_intros]: "keeps_tidy (sync_pending e)"
proof -
  have "keeps_tidy (sync_wal e)"
    unfolding sync_wal_def by (rule keeps_tidy_on_dir) (simp add: case_prod_beta sync_file_tidy)
  then show ?thesis
    unfolding sync_pending_def by (intro tidy_intros) simp_all
qed

lemma append_record_tidy [tidy_intros]: "keeps_tidy (append_record e m)"
proof -
  have "keeps_tidy (on_segment i (segment_append e m))" for i
    by (rule keeps_tidy_on_segment)
      (auto simp: segment_append_def Let_def case_prod_beta intro!: write_file_tidy)
  then have "keeps_tidy (seq (on_segment i (segment_append e m)) (\<lambda>byte_position. modify (\<lambda>L. L\<lparr>
          index := index L @ checkpoint (next_offset L) (active_segment_index L) byte_position,
          next_offset := next_offset L + 1\<rparr>)))" for i
    by (rule keeps_tidy_seq) (simp add: keeps_tidy_modify)
  then show ?thesis by (simp add: keeps_tidy_def append_record_def)
qed

lemma push_segment_tidy [tidy_intros]: "p \<in> range segment_name \<Longrightarrow> keeps_tidy (push_segment e p)"
  unfolding push_segment_def
  by (intro keeps_tidy_seq keeps_tidy_on_dir keeps_tidy_modify)
    (auto simp: new_segment_def intro!: segment_reopen_tidy)

lemma activate_last_tidy [tidy_intros]: "keeps_tidy activate_last"
  unfolding activate_last_def by (rule keeps_tidy_modify) simp

lemma log_append_tidy [tidy_intros]: "keeps_tidy (log_append e m)"
proof -
  have "keeps_tidy (rotate e)"
    unfolding rotate_def
    by (rule keeps_tidy_if, rule keeps_tidy_at, intro tidy_intros) (simp_all add: keeps_tidy_ret)
  moreover have "keeps_tidy (count_pending e)"
    unfolding count_pending_def by (intro tidy_intros) simp
  ultimately show ?thesis
    unfolding log_append_def by (intro tidy_intros)
qed

lemma log_flush_tidy [tidy_intros]: "keeps_tidy (log_flush e)"
  unfolding log_flush_def by (intro tidy_intros)

lemma load_segment_tidy: "p \<in> range segment_name \<Longrightarrow> keeps_tidy (load_segment e p)"
proof -
  assume p: "p \<in> range segment_name"
  have cut: "keeps_tidy (seq (on_dir (segment_truncate e n seg)) (\<lambda>seg. modify (\<lambda>L. L\<lparr>segments := (segments L)[i := seg]\<rparr>)))" for n seg i
    by (intro keeps_tidy_seq keeps_tidy_on_dir keeps_tidy_modify segment_truncate_tidy) simp_all
  have "keeps_tidy (rebuild_index_from_segment e i)" for i
    using cut by (simp add: keeps_tidy_def rebuild_index_from_segment_def Let_def ret_def split: prod.splits)
  then have "keeps_tidy (\<lambda>L. rebuild_index_from_segment e (length (segments L) - 1) L)"
    by (rule keeps_tidy_at)
  then show "keeps_tidy (load_segment e p)"
    unfolding load_segment_def using p by (intro tidy_intros)
qed

lemma recover_loop_tidy [tidy_intros]: "keeps_tidy (recover_loop e w)"
proof -
  have "tidy (log_dir L) \<Longrightarrow> tidy (log_dir (snd (recover_loop e w L)))" for L
  proof (induction e w L rule: recover_loop.induct)
    case (1 e w L)
    have app: "tidy (log_dir (snd (append_record e m L)))" for m
      using append_record_tidy 1(3) by (simp add: keeps_tidy_def)
    show ?case
    proof (cases "wal_next w")
      case None
      then show ?thesis using 1(3) by (subst recover_loop.simps) simp
    next
      case (Some x)
      obtain off m rest where x: "x = ((off, m), rest)" by (metis prod.exhaust)
      obtain r L' where r: "append_record e m L = (r, L')" by fastforce
      have "tidy (log_dir L')" using app [of m] r by simp
      then show ?thesis
        using 1 Some x r by (subst recover_loop.simps) (auto split: sum.splits)
    qed
  qed
  then show ?thesis by (simp add: keeps_tidy_def)
qed

lemma log_open_tidy:
  assumes "tidy d"
  shows "tidy (log_dir (snd (log_open e d mx bt)))"
proof -
  have "set (segment_paths d) \<subseteq> range segment_name"
    using assms by (force simp: segment_paths_def tidy_def map_of_eq_None_iff)
  then have "keeps_tidy (for_each (load_segment e) (segment_paths d))"
    by (intro keeps_tidy_for_each load_segment_tidy) auto
  then have "keeps_tidy (\<lambda>L. if segment_paths d = [] then seq (push_segment e (segment_name 0)) (\<lambda>_. activate_last) L
       else seq (for_each (load_segment e) (segment_paths d)) (\<lambda>_. activate_last) L)"
    by (intro tidy_intros) simp
  moreover have "keeps_tidy (recover_wal e)"
  proof -
    have "keeps_tidy (seq (recover_loop e w)
          (\<lambda>_. seq (\<lambda>L. if 0 < next_offset L then sync_segments e L else ret () L) (\<lambda>_. clear_wal e)))" for w
      by (intro tidy_intros)
    then show ?thesis by (simp add: keeps_tidy_def recover_wal_def throw_def ret_def)
  qed
  ultimately have "keeps_tidy (seq (\<lambda>L. if segment_paths d = [] then seq (push_segment e (segment_name 0)) (\<lambda>_. activate_last) L
       else seq (for_each (load_segment e) (segment_paths d)) (\<lambda>_. activate_last) L) (\<lambda>_. recover_wal e))"
    by (intro keeps_tidy_seq)
  moreover have "tidy (log_dir (empty_log d mx bt))" using assms by (simp add: empty_log_def)
  ultimately show ?thesis
    using assms
    by (auto simp: log_open_def keeps_tidy_def load_existing_segments_def empty_log_def seq_def Let_def)
qed

section \<open>Well-formed logs refine lists\<close>

definition wf_log :: "log \<Rightarrow> bool" where
  "wf_log L \<longleftrightarrow> log_ok L (log_view L) \<and> tidy (log_dir L)"

lemma wf_logI:
  assumes "log_ok L mss" and "tidy (log_dir L)"
  shows "wf_log L" "log_records L = concat mss"
  using assms log_inv_view [of L mss] by (auto simp: wf_log_def log_records_def log_ok_def)

lemma wf_logE:
  assumes "wf_log L"
  obtains mss where "log_ok L mss" "log_records L = concat mss" "tidy (log_dir L)" "log_inv L mss"
    "length (segments L) = length mss"
  using assms log_inv_length by (auto simp: wf_log_def log_records_def log_ok_def)

lemma wf_log_roomy: "wf_log L \<Longrightarrow> roomy (log_records L)"
  by (erule wf_logE) (simp add: log_inv_def holds_def roomy_def)

lemma wf_log_append:
  assumes "wf_log L" and "healthy e" and "roomy (log_records L @ [m])"
  shows "\<exists>L'. log_append e m L = (Inr (of_nat (length (log_records L))), L') \<and> wf_log L' \<and>
    log_records L' = log_records L @ [m]"
proof -
  obtain mss where mss: "log_ok L mss" "log_records L = concat mss" "tidy (log_dir L)"
    using assms(1) by (rule wf_logE)
  obtain L' mss' where L': "log_append e m L = (Inr (of_nat (length (concat mss))), L')"
    "log_ok L' mss'" "concat mss' = concat mss @ [m]"
    using log_append_ok [OF mss(1) assms(2), of m] assms(3) unfolding roomy_def mss(2) by blast
  have "tidy (log_dir L')"
    using log_append_tidy [of e m] mss(3) L'(1) by (auto simp: keeps_tidy_def dest: spec [of _ L])
  from wf_logI [OF L'(2) this] show ?thesis using L' mss(2) by simp
qed

lemma wf_log_fetch: "wf_log L \<Longrightarrow> log_fetch off L = fetch_spec (log_records L) off"
  by (erule wf_logE) (simp add: log_fetch_ok fetch_spec_def)

lemma healthy_unique: "healthy e \<Longrightarrow> e = healthy_os"
  by (cases e) (auto simp: healthy_def healthy_os_def fun_eq_iff)

interpretation plog: append_only_log wf_log log_records "log_append healthy_os" log_fetch
  by unfold_locales (simp_all add: wf_log_append wf_log_fetch)

lemma wf_log_flush:
  assumes "wf_log L" and e: "healthy e"
  shows "\<exists>L'. log_flush e L = (Inr (), L') \<and> wf_log L' \<and> log_records L' = log_records L \<and>
    pending_appends L' = 0"
proof (cases "0 < pending_appends L")
  case True
  obtain mss where mss: "log_ok L mss" "log_records L = concat mss" "tidy (log_dir L)" "log_inv L mss"
    using assms(1) by (rule wf_logE)
  have "visible (log_dir L) wal_name \<noteq> None"
    using mss(1) True by (auto simp: log_ok_def durable_inv_def)
  from sync_pending_ok [OF mss(4) e this] obtain L' where L': "sync_pending e L = (Inr (), L')"
    "log_inv L' mss" "durable_inv L' mss" "pending_appends L' = 0" "sync_batch_size L' = sync_batch_size L"
    by blast
  have ok: "log_ok L' mss" using L' mss(1) by (simp add: log_ok_def)
  have "tidy (log_dir L')"
    using sync_pending_tidy [of e] mss(3) L'(1) by (auto simp: keeps_tidy_def dest: spec [of _ L])
  from wf_logI [OF ok this] show ?thesis
    using L'(1,4) mss(2) True by (simp add: log_flush_def)
next
  case False
  then have "pending_appends L = 0" by (simp add: word_gt_0)
  then show ?thesis using assms(1) by (simp add: log_flush_def ret_def)
qed

section \<open>Reopening\<close>

lemma wf_log_open_fresh:
  assumes "healthy e" and "tidy d" and "segment_files 0 d" and "map_of d wal_name = None"
  shows "\<exists>L'. log_open e d mx bt = (Inr (), L') \<and> wf_log L' \<and> log_records L' = [] \<and> pending_appends L' = 0"
proof -
  obtain L' where L': "log_open e d mx bt = (Inr (), L')" "log_ok L' [[]]" "pending_appends L' = 0"
    using log_open_fresh [OF assms(1,3,4), of mx bt] by (auto simp: empty_log_def)
  have "tidy (log_dir L')" using log_open_tidy [OF assms(2), of e mx bt] L'(1) by simp
  from wf_logI [OF L'(2) this] L' show ?thesis by auto
qed

lemma wf_log_files:
  assumes "log_inv L mss" and "tidy (log_dir L)"
  shows "segment_files (length mss) (log_dir L)"
proof -
  have "map_of (log_dir L) f = None" if "is_segment_name f" "f \<notin> segment_name ` {..<length mss}" for f
  proof (cases "f \<in> range segment_name")
    case True
    then obtain k where "f = segment_name k" by blast
    moreover from this that(2) have "length mss \<le> k" by (auto simp: not_less [symmetric])
    ultimately show ?thesis using assms(1) log_inv_length [OF assms(1)] by (simp add: log_inv_def)
  next
    case False
    then show ?thesis using assms(2) that(1) by (auto simp: tidy_def)
  qed
  moreover have "visible (log_dir L) (segment_name i) \<noteq> None" if "i < length mss" for i
    using log_inv_file(2) [OF assms(1) that] by simp
  ultimately show ?thesis
    using assms(2) by (simp add: segment_files_def tidy_def)
qed

lemma wf_log_reopen:
  assumes "wf_log L" and e: "healthy e" and few: "length (segments L) \<le> 10"
    and rp: "list_all replayable (log_records L)"
  shows "\<exists>L'. log_open e (log_dir L) mx bt = (Inr (), L') \<and> wf_log L' \<and>
    log_records L' = log_records L \<and> pending_appends L' = 0"
proof -
  obtain mss where mss: "log_ok L mss" "log_records L = concat mss" "tidy (log_dir L)" "log_inv L mss"
    "length (segments L) = length mss"
    using assms(1) by (rule wf_logE)
  let ?b = "synced_count L mss" and ?xs = "concat mss"
  have dur: "durable_inv L mss" using mss(1) by (simp add: log_ok_def)
  have fit: "length (enc_records ?xs) < 2 ^ 64" using mss(4) by (simp add: log_inv_def holds_def)
  have files: "segment_files (length mss) (log_dir L)" "0 < length mss" "length mss \<le> 10"
    using wf_log_files [OF mss(4,3)] log_inv_last [OF mss(4)] few mss(5) by simp_all
  have fh: "file_holds (log_dir L) (segment_name i, mss ! i, [])" if "i < length mss" for i
    using log_inv_file(2) [OF mss(4) that] by (simp add: file_holds_def torn_def)
  have big: "length (enc_records ?xs) + (\<Sum>i\<leftarrow>[0..<length mss]. length ([] :: string)) < 2 ^ 64"
    using fit by (simp add: sum_list_triv)
  have nr: "map_of (log_dir L) wal_name \<noteq> Some Not_regular"
    using dur by (auto simp: durable_inv_def visible_Some)
  have w: "file_contents (log_dir L) wal_name = enc_wal ?b (drop ?b (take (length ?xs) ?xs)) @ []"
    "wal_next [] = None"
    using durable_wal [OF dur] by (simp_all add: wal_next_def)
  have st: "stable_upto (length ?xs) (map segment_name [0..<length mss]) (log_dir L) mss"
    if "file_contents (log_dir L) wal_name = []"
  proof -
    have "?b = length ?xs" using that durable_wal [OF dur] by (simp add: synced_count_def)
    then show ?thesis
      using dur mss(4,5) unfolding durable_inv_def log_inv_def by simp
  qed
  have b: "?b \<le> length ?xs" by (simp add: synced_count_def)
  have xs: "?xs = take (length ?xs) ?xs" "max (length ?xs) (length ?xs) = length ?xs" by simp_all
  obtain L' mss' where
    L': "log_open e (log_dir L) mx bt = (Inr (), L')" "log_ok L' mss'" "concat mss' = ?xs"
      "pending_appends L' = 0"
    using log_open_ok [OF e files refl fh big nr xs(1) b order_refl order_refl rp [unfolded mss(2)] fit w st, of mx bt]
    unfolding xs(2) xs(1) [symmetric] by blast
  have "tidy (log_dir L')" using log_open_tidy [OF mss(3), of e mx bt] L'(1) by simp
  from wf_logI [OF L'(2) this] L' mss(2) show ?thesis by simp
qed

lemma wf_log_crash:
  assumes "wf_log L" and e: "healthy e" and few: "length (segments L) \<le> 10"
    and rp: "list_all replayable (log_records L)" and img: "crash_image L d"
  shows "\<exists>L' k. log_open e d mx bt = (Inr (), L') \<and> wf_log L' \<and> log_records L' = take k (log_records L) \<and>
    length (log_records L) - unat (pending_appends L) \<le> k \<and>
    (file_contents d wal_name = file_contents (log_dir L) wal_name \<longrightarrow> log_records L' = log_records L)"
proof -
  obtain mss where mss: "log_ok L mss" "log_records L = concat mss" "log_inv L mss"
    using assms(1) by (rule wf_logE)
  obtain L' mss' k where L': "log_open e d mx bt = (Inr (), L')" "log_ok L' mss'"
    "concat mss' = take k (concat mss)" "synced_count L mss \<le> k"
    "file_contents d wal_name = file_contents (log_dir L) wal_name \<longrightarrow> k = length (concat mss)"
    using log_crash_ok [OF mss(1) few img _ e] rp mss(2) by metis
  have "tidy d"
    using img by (force simp: crash_image_def segment_files_def tidy_def)
  then have "tidy (log_dir L')" using log_open_tidy [of d e mx bt] L'(1) by simp
  from wf_logI [OF L'(2) this] L' mss(2) show ?thesis
    by (intro exI [of _ L'] exI [of _ k]) (simp add: synced_count_def)
qed

end
