(* ===== verification/Config.thy ===== *)
theory Config
  imports Prelude
begin

text \<open>
  The identity of a broker and its cluster (\<^verbatim>\<open>include/config/broker_config.h\<close>,
  \<^verbatim>\<open>src/config/broker_config.cpp\<close>). The role and the leader's id are atomics that change at
  run time; the rest is fixed.
\<close>

section \<open>Configuration\<close>

datatype BrokerType = LEADER | FOLLOWER

record ClusterPeer =
  peer_id :: int32
  peer_host :: string
  peer_port :: int32

record LeaderEndpoint =
  leader_id :: int32
  leader_host :: string
  leader_port :: int32

record BrokerConfig =
  cfg_port :: int32
  cfg_id :: int32
  ip_address :: string
  cfg_peers :: "ClusterPeer list"
  cfg_data_directory :: string
  cfg_type :: BrokerType
  leader_broker_id :: int32

definition new_config ::
  "int32 \<Rightarrow> int32 \<Rightarrow> string \<Rightarrow> ClusterPeer list \<Rightarrow> string \<Rightarrow> BrokerType \<Rightarrow> int32 \<Rightarrow> BrokerConfig" where
  "new_config port bid ip ps dir role leader =
     \<lparr>cfg_port = port, cfg_id = bid, ip_address = ip, cfg_peers = ps, cfg_data_directory = dir,
      cfg_type = role, leader_broker_id = leader\<rparr>"

definition cfg_is_leader :: "BrokerConfig \<Rightarrow> bool" where
  "cfg_is_leader c \<longleftrightarrow> cfg_type c = LEADER"

definition get_leader_endpoint :: "BrokerConfig \<Rightarrow> LeaderEndpoint option" where
  "get_leader_endpoint c =
     (if leader_broker_id c = cfg_id c
      then Some \<lparr>leader_id = cfg_id c, leader_host = ip_address c, leader_port = cfg_port c\<rparr>
      else (case filter (\<lambda>peer. peer_id peer = leader_broker_id c) (cfg_peers c) of
              [] \<Rightarrow> None
            | peer # _ \<Rightarrow>
                Some \<lparr>leader_id = peer_id peer, leader_host = peer_host peer, leader_port = peer_port peer\<rparr>))"

definition set_leader :: "int32 \<Rightarrow> BrokerConfig \<Rightarrow> BrokerConfig" where
  "set_leader i c =
     c\<lparr>leader_broker_id := i, cfg_type := (if i = cfg_id c then LEADER else FOLLOWER)\<rparr>"

definition promote_to_leader :: "BrokerConfig \<Rightarrow> BrokerConfig" where
  "promote_to_leader c = set_leader (cfg_id c) c"

section \<open>Role and leader agree\<close>

definition config_ok :: "BrokerConfig \<Rightarrow> bool" where
  "config_ok c \<longleftrightarrow> (cfg_is_leader c \<longleftrightarrow> leader_broker_id c = cfg_id c)"

lemma set_leader_simps [simp]:
  "cfg_id (set_leader i c) = cfg_id c" "cfg_peers (set_leader i c) = cfg_peers c"
  "leader_broker_id (set_leader i c) = i" "cfg_is_leader (set_leader i c) \<longleftrightarrow> i = cfg_id c"
  "ip_address (set_leader i c) = ip_address c" "cfg_port (set_leader i c) = cfg_port c"
  by (simp_all add: set_leader_def cfg_is_leader_def)

lemma config_ok_set_leader [simp]: "config_ok (set_leader i c)"
  by (simp add: config_ok_def)

lemma leader_endpoint_known:
  "(\<exists>ep. get_leader_endpoint c = Some ep \<and> leader_id ep = leader_broker_id c) \<longleftrightarrow>
   leader_broker_id c \<in> insert (cfg_id c) (peer_id ` set (cfg_peers c))"
proof (cases "leader_broker_id c = cfg_id c")
  case False
  show ?thesis
  proof (cases "filter (\<lambda>peer. peer_id peer = leader_broker_id c) (cfg_peers c)")
    case Nil
    then show ?thesis using False by (auto simp: get_leader_endpoint_def filter_empty_conv)
  next
    case (Cons peer rest)
    then have "peer \<in> set (cfg_peers c) \<and> peer_id peer = leader_broker_id c"
      by (auto simp: filter_eq_Cons_iff)
    then show ?thesis using False Cons by (auto simp: get_leader_endpoint_def intro: rev_image_eqI)
  qed
qed (simp add: get_leader_endpoint_def)

section \<open>Properties\<close>

text \<open>
  After a leader is set, the broker leads exactly when the leader is itself, and the endpoint
  of the leader is found exactly when the id is the broker's own or a peer's.
\<close>
theorem set_leader_endpoint:
  "(cfg_is_leader (set_leader i c) \<longleftrightarrow> i = cfg_id c) \<and>
   ((\<exists>ep. get_leader_endpoint (set_leader i c) = Some ep \<and> leader_id ep = i) \<longleftrightarrow>
    i \<in> insert (cfg_id c) (peer_id ` set (cfg_peers c)))"
  using leader_endpoint_known [of "set_leader i c"] by simp

end
