(* ===== verification/Protocol.thy ===== *)
theory Protocol
  imports Prelude
begin

text \<open>
  The binary request and response protocol (\<^verbatim>\<open>include/protocol/protocol.h\<close>,
  \<^verbatim>\<open>src/protocol/protocol.cpp\<close>): the request and response structures, the primitive
  big-endian readers and writers over a growing string and a cursor, and the four entry
  points \<^verbatim>\<open>parse_request\<close>, \<^verbatim>\<open>encode_request\<close>, \<^verbatim>\<open>parse_response\<close> and
  \<^verbatim>\<open>serialize_response\<close>. The lemmas show that decoding inverts encoding on every message
  within the protocol's limits, that an accepted request payload is the encoding of what was
  read from it, and that malformed payloads are reported.
\<close>


section \<open>Requests and responses\<close>

datatype RequestType =
    PRODUCE | FETCH | REPLICATE | ACK | HEARTBEAT | COMMIT | METADATA | JOIN_GROUP
  | LEAVE_GROUP | GROUP_FETCH | COMMIT_OFFSET | GROUP_ASSIGNMENT | BATCH_PRODUCE
  | BATCH_REPLICATE | ERROR

text \<open>The enumerators in declaration order; an enumerator's number is its position.\<close>

definition request_types :: "RequestType list" where
  "request_types =
     [PRODUCE, FETCH, REPLICATE, ACK, HEARTBEAT, COMMIT, METADATA, JOIN_GROUP,
      LEAVE_GROUP, GROUP_FETCH, COMMIT_OFFSET, GROUP_ASSIGNMENT, BATCH_PRODUCE,
      BATCH_REPLICATE, ERROR]"

fun type_code :: "RequestType \<Rightarrow> u8" where
  "type_code PRODUCE = 0"
| "type_code FETCH = 1"
| "type_code REPLICATE = 2"
| "type_code ACK = 3"
| "type_code HEARTBEAT = 4"
| "type_code COMMIT = 5"
| "type_code METADATA = 6"
| "type_code JOIN_GROUP = 7"
| "type_code LEAVE_GROUP = 8"
| "type_code GROUP_FETCH = 9"
| "type_code COMMIT_OFFSET = 10"
| "type_code GROUP_ASSIGNMENT = 11"
| "type_code BATCH_PRODUCE = 12"
| "type_code BATCH_REPLICATE = 13"
| "type_code ERROR = 14"

definition type_of_code :: "u8 \<Rightarrow> RequestType" where
  "type_of_code w = request_types ! unat w"

definition string_to_request :: "string \<Rightarrow> RequestType" where
  "string_to_request s = ERROR"

record Request =
  kind :: RequestType
  topic :: string
  partition :: int32
  message :: string
  fetch_offset :: u64
  broker_id :: int32
  group_id :: string
  member_id :: string
  messages :: "string list"

record Response =
  success :: bool
  reply :: string
  appended_offset :: u64
  appended_offsets :: "u64 list"

definition kProtocolVersion :: u8 where
  "kProtocolVersion = 1"

definition kMaxStringBytes :: nat where
  "kMaxStringBytes = 16 * 1024 * 1024"

definition kMaxBatchMessages :: nat where
  "kMaxBatchMessages = 10000"


section \<open>Writers\<close>

definition put_u8 :: "string \<Rightarrow> u8 \<Rightarrow> string" where
  "put_u8 out v = out @ [char_of_u8 v]"

definition put_u16 :: "string \<Rightarrow> u16 \<Rightarrow> string" where
  "put_u16 out v = put_u8 (put_u8 out (ucast (drop_bit 8 v))) (ucast v)"

definition put_u32 :: "string \<Rightarrow> u32 \<Rightarrow> string" where
  "put_u32 out v = foldl (\<lambda>out shift. put_u8 out (ucast (drop_bit shift v))) out [24, 16, 8, 0]"

definition put_u64 :: "string \<Rightarrow> u64 \<Rightarrow> string" where
  "put_u64 out v =
     foldl (\<lambda>out shift. put_u8 out (ucast (drop_bit shift v))) out [56, 48, 40, 32, 24, 16, 8, 0]"

definition put_string :: "string \<Rightarrow> string \<Rightarrow> string" where
  "put_string out s = put_u32 out (of_nat (length s)) @ s"

definition put_topic_partition :: "string \<Rightarrow> Request \<Rightarrow> string" where
  "put_topic_partition out r = put_u32 (put_string out (topic r)) (bits32 (partition r))"


section \<open>Readers\<close>

text \<open>
  A reader takes the input and the cursor and reports success, the new cursor and the value.
  The multi-byte readers shift the bytes into the value one at a time, so a reader that runs
  out of input has moved the cursor and holds the bytes read so far, as in the code.
\<close>

definition get_u8 :: "string \<Rightarrow> nat \<Rightarrow> (nat \<times> u8) option" where
  "get_u8 inp pos = (if length inp \<le> pos then None else Some (pos + 1, u8_of_char (inp ! pos)))"

fun get_bytes :: "nat \<Rightarrow> string \<Rightarrow> nat \<Rightarrow> 'a::len word \<Rightarrow> bool \<times> nat \<times> 'a word" where
  "get_bytes 0 inp pos v = (True, pos, v)"
| "get_bytes (Suc n) inp pos v =
     (case get_u8 inp pos of
        None \<Rightarrow> (False, pos, v)
      | Some (pos', byte) \<Rightarrow> get_bytes n inp pos' (push_bit 8 v OR ucast byte))"

definition get_u16 :: "string \<Rightarrow> nat \<Rightarrow> u16 \<Rightarrow> bool \<times> nat \<times> u16" where
  "get_u16 inp pos v =
     (case get_u8 inp pos of
        None \<Rightarrow> (False, pos, v)
      | Some (pos1, a) \<Rightarrow>
          (case get_u8 inp pos1 of
             None \<Rightarrow> (False, pos1, v)
           | Some (pos2, b) \<Rightarrow> (True, pos2, push_bit 8 (ucast a) OR ucast b)))"

definition get_u32 :: "string \<Rightarrow> nat \<Rightarrow> bool \<times> nat \<times> u32" where
  "get_u32 inp pos = get_bytes 4 inp pos 0"

definition get_u64 :: "string \<Rightarrow> nat \<Rightarrow> bool \<times> nat \<times> u64" where
  "get_u64 inp pos = get_bytes 8 inp pos 0"

definition get_string :: "string \<Rightarrow> nat \<Rightarrow> nat \<times> string option" where
  "get_string inp pos =
     (case get_u32 inp pos of
        (ok, pos', sz) \<Rightarrow>
          if \<not> ok \<or> kMaxStringBytes < unat sz \<or> length inp - pos' < unat sz then (pos', None)
          else (pos' + unat sz, Some (take (unat sz) (drop pos' inp))))"

definition get_topic_partition :: "string \<Rightarrow> nat \<times> Request \<Rightarrow> bool \<times> nat \<times> Request" where
  "get_topic_partition inp st =
     (case st of (pos, r) \<Rightarrow>
        (case get_string inp pos of
           (pos1, None) \<Rightarrow> (False, pos1, r)
         | (pos1, Some s) \<Rightarrow>
             (case get_u32 inp pos1 of
                (ok, pos2, p) \<Rightarrow>
                  if ok then (True, pos2, r\<lparr>topic := s, partition := Int32 p\<rparr>)
                  else (False, pos2, r\<lparr>topic := s\<rparr>))))"


section \<open>Parsing requests\<close>

type_synonym field_reader = "nat \<times> Request \<Rightarrow> bool \<times> nat \<times> Request"

text \<open>The short-circuit conjunction of the code: the right operand runs only after success.\<close>

definition and_then :: "field_reader \<Rightarrow> field_reader \<Rightarrow> field_reader" where
  "and_then f g st = (case f st of (ok, st') \<Rightarrow> if ok then g st' else (False, st'))"

definition string_field ::
  "((string \<Rightarrow> string) \<Rightarrow> Request \<Rightarrow> Request) \<Rightarrow> string \<Rightarrow> field_reader" where
  "string_field upd inp st =
     (case st of (pos, r) \<Rightarrow>
        (case get_string inp pos of
           (pos1, None) \<Rightarrow> (False, pos1, r)
         | (pos1, Some s) \<Rightarrow> (True, pos1, upd (\<lambda>_. s) r)))"

definition offset_field :: "string \<Rightarrow> field_reader" where
  "offset_field inp st =
     (case st of (pos, r) \<Rightarrow>
        (case get_u64 inp pos of (ok, pos', v) \<Rightarrow> (ok, pos', r\<lparr>fetch_offset := v\<rparr>)))"

text \<open>\<^verbatim>\<open>ACK\<close> stores the broker only after a successful read, \<^verbatim>\<open>HEARTBEAT\<close> in any case.\<close>

definition ack_broker_field :: "string \<Rightarrow> field_reader" where
  "ack_broker_field inp st =
     (case st of (pos, r) \<Rightarrow>
        (case get_u32 inp pos of
           (ok, pos', v) \<Rightarrow> if ok then (True, pos', r\<lparr>broker_id := Int32 v\<rparr>) else (False, pos', r)))"

definition heartbeat_broker_field :: "string \<Rightarrow> field_reader" where
  "heartbeat_broker_field inp st =
     (case st of (pos, r) \<Rightarrow>
        (case get_u32 inp pos of (ok, pos', v) \<Rightarrow> (ok, pos', r\<lparr>broker_id := Int32 v\<rparr>)))"

text \<open>The \<^verbatim>\<open>while\<close> loop over the announced number of messages; \<open>n\<close> of them are still to come.\<close>

fun batch_loop :: "nat \<Rightarrow> string \<Rightarrow> field_reader" where
  "batch_loop 0 inp (pos, r) = (True, pos, r)"
| "batch_loop (Suc n) inp (pos, r) =
     (case get_string inp pos of
        (pos1, None) \<Rightarrow> (False, pos1, r)
      | (pos1, Some s) \<Rightarrow> batch_loop n inp (pos1, r\<lparr>messages := messages r @ [s]\<rparr>))"

definition batch_field :: "string \<Rightarrow> field_reader" where
  "batch_field inp st =
     (case st of (pos, r) \<Rightarrow>
        (case get_u32 inp pos of
           (ok, pos', count) \<Rightarrow>
             if ok \<and> unat count \<le> kMaxBatchMessages then batch_loop (unat count) inp (pos', r)
             else (False, pos', r)))"

fun parse_body :: "RequestType \<Rightarrow> string \<Rightarrow> field_reader" where
  "parse_body PRODUCE inp =
     and_then (get_topic_partition inp) (and_then (string_field message_update inp) (offset_field inp))"
| "parse_body BATCH_PRODUCE inp = and_then (get_topic_partition inp) (batch_field inp)"
| "parse_body BATCH_REPLICATE inp =
     and_then (get_topic_partition inp) (and_then (offset_field inp) (batch_field inp))"
| "parse_body FETCH inp = and_then (get_topic_partition inp) (offset_field inp)"
| "parse_body COMMIT inp = and_then (get_topic_partition inp) (offset_field inp)"
| "parse_body REPLICATE inp =
     and_then (get_topic_partition inp) (and_then (offset_field inp) (string_field message_update inp))"
| "parse_body ACK inp =
     and_then (offset_field inp) (and_then (ack_broker_field inp) (get_topic_partition inp))"
| "parse_body HEARTBEAT inp = heartbeat_broker_field inp"
| "parse_body METADATA inp = (\<lambda>st. (True, st))"
| "parse_body JOIN_GROUP inp =
     and_then (string_field group_id_update inp)
       (and_then (string_field member_id_update inp) (string_field topic_update inp))"
| "parse_body LEAVE_GROUP inp =
     and_then (string_field group_id_update inp)
       (and_then (string_field member_id_update inp) (string_field topic_update inp))"
| "parse_body GROUP_ASSIGNMENT inp =
     and_then (string_field group_id_update inp)
       (and_then (string_field member_id_update inp) (string_field topic_update inp))"
| "parse_body GROUP_FETCH inp =
     and_then (string_field group_id_update inp)
       (and_then (string_field member_id_update inp)
         (and_then (get_topic_partition inp) (offset_field inp)))"
| "parse_body COMMIT_OFFSET inp =
     and_then (string_field group_id_update inp)
       (and_then (string_field member_id_update inp)
         (and_then (get_topic_partition inp) (offset_field inp)))"
| "parse_body ERROR inp = (\<lambda>st. (False, st))"

definition blank_request :: "RequestType \<Rightarrow> Request" where
  "blank_request t =
     \<lparr>kind = t, topic = [], partition = int32_of 0, message = [], fetch_offset = 0,
      broker_id = int32_of 0, group_id = [], member_id = [], messages = []\<rparr>"

definition parse_request :: "string \<Rightarrow> Request" where
  "parse_request payload =
     (case get_u8 payload 0 of
        None \<Rightarrow> blank_request ERROR
      | Some (pos1, version) \<Rightarrow>
          if version \<noteq> kProtocolVersion then blank_request ERROR
          else (case get_u8 payload pos1 of
                  None \<Rightarrow> blank_request ERROR
                | Some (pos2, t) \<Rightarrow>
                    if type_code BATCH_REPLICATE < t then blank_request ERROR
                    else (case parse_body (type_of_code t) payload
                                 (pos2, blank_request (type_of_code t)) of
                            (valid, pos, r) \<Rightarrow>
                              if \<not> valid \<or> pos \<noteq> length payload then r\<lparr>kind := ERROR\<rparr> else r)))"


section \<open>Encoding requests\<close>

definition put_strings :: "string \<Rightarrow> string list \<Rightarrow> string" where
  "put_strings out ss = foldl put_string out ss"

definition put_batch :: "string \<Rightarrow> Request \<Rightarrow> string" where
  "put_batch out r = put_strings (put_u32 out (of_nat (length (messages r)))) (messages r)"

definition put_group_member :: "string \<Rightarrow> Request \<Rightarrow> string" where
  "put_group_member out r = put_string (put_string out (group_id r)) (member_id r)"

definition encode_request :: "Request \<Rightarrow> string" where
  "encode_request r =
     (let out = put_u8 (put_u8 [] kProtocolVersion) (type_code (kind r)) in
      case kind r of
        PRODUCE \<Rightarrow> put_u64 (put_string (put_topic_partition out r) (message r)) (fetch_offset r)
      | BATCH_PRODUCE \<Rightarrow> put_batch (put_topic_partition out r) r
      | BATCH_REPLICATE \<Rightarrow> put_batch (put_u64 (put_topic_partition out r) (fetch_offset r)) r
      | FETCH \<Rightarrow> put_u64 (put_topic_partition out r) (fetch_offset r)
      | COMMIT \<Rightarrow> put_u64 (put_topic_partition out r) (fetch_offset r)
      | REPLICATE \<Rightarrow> put_string (put_u64 (put_topic_partition out r) (fetch_offset r)) (message r)
      | ACK \<Rightarrow> put_topic_partition (put_u32 (put_u64 out (fetch_offset r)) (bits32 (broker_id r))) r
      | HEARTBEAT \<Rightarrow> put_u32 out (bits32 (broker_id r))
      | METADATA \<Rightarrow> out
      | JOIN_GROUP \<Rightarrow> put_string (put_group_member out r) (topic r)
      | LEAVE_GROUP \<Rightarrow> put_string (put_group_member out r) (topic r)
      | GROUP_ASSIGNMENT \<Rightarrow> put_string (put_group_member out r) (topic r)
      | GROUP_FETCH \<Rightarrow> put_u64 (put_topic_partition (put_group_member out r) r) (fetch_offset r)
      | COMMIT_OFFSET \<Rightarrow> put_u64 (put_topic_partition (put_group_member out r) r) (fetch_offset r)
      | ERROR \<Rightarrow> [])"


section \<open>Responses\<close>

definition malformed_response :: Response where
  "malformed_response =
     \<lparr>success = False, reply = ''malformed_response'', appended_offset = - 1, appended_offsets = []\<rparr>"

fun get_offsets :: "nat \<Rightarrow> string \<Rightarrow> nat \<Rightarrow> u64 list \<Rightarrow> (nat \<times> u64 list) option" where
  "get_offsets 0 inp pos acc = Some (pos, acc)"
| "get_offsets (Suc n) inp pos acc =
     (case get_u64 inp pos of
        (ok, pos', v) \<Rightarrow> if ok then get_offsets n inp pos' (acc @ [v]) else None)"

definition parse_response :: "string \<Rightarrow> Response" where
  "parse_response payload =
     (case get_u8 payload 0 of
        None \<Rightarrow> malformed_response
      | Some (pos1, version) \<Rightarrow>
          if version \<noteq> kProtocolVersion then malformed_response
          else (case get_u8 payload pos1 of
                  None \<Rightarrow> malformed_response
                | Some (pos2, succ) \<Rightarrow>
                    (case get_u8 payload pos2 of
                       None \<Rightarrow> malformed_response
                     | Some (pos3, kd) \<Rightarrow>
                         (case get_u64 payload pos3 of
                            (ok, pos4, off) \<Rightarrow>
                              if \<not> ok then malformed_response
                              else (case get_string payload pos4 of
                                      (pos5, None) \<Rightarrow> malformed_response
                                    | (pos5, Some s) \<Rightarrow>
                                        (case get_u32 payload pos5 of
                                           (ok', pos6, count) \<Rightarrow>
                                             if \<not> ok' \<or> kMaxBatchMessages < unat count
                                             then malformed_response
                                             else (case get_offsets (unat count) payload pos6 [] of
                                                     None \<Rightarrow> malformed_response
                                                   | Some (pos7, offs) \<Rightarrow>
                                                       if pos7 \<noteq> length payload then malformed_response
                                                       else \<lparr>success = (succ \<noteq> 0), reply = s,
                                                             appended_offset = off,
                                                             appended_offsets = offs\<rparr>)))))))"

definition serialize_response :: "Response \<Rightarrow> string" where
  "serialize_response r =
     (let out = put_u8 (put_u8 (put_u8 [] kProtocolVersion) (if success r then 1 else 0))
                  (if reply r = [] then 0 else 1);
          out = put_string (put_u64 out (appended_offset r)) (reply r);
          out = put_u32 out (of_nat (length (appended_offsets r)))
      in foldl put_u64 out (appended_offsets r))"


section \<open>Big-endian numbers\<close>

text \<open>
  \<open>be_bytes n v\<close> are the low \<open>n\<close> bytes of \<open>v\<close>, the most significant one first; every
  writer appends such a run. \<open>at inp pos s\<close> says that \<open>s\<close> is what the input holds from the
  cursor on.
\<close>

primrec be_bytes :: "nat \<Rightarrow> 'a::len word \<Rightarrow> string" where
  "be_bytes 0 v = []"
| "be_bytes (Suc n) v = char_of_u8 (ucast (drop_bit (8 * n) v)) # be_bytes n v"

definition at :: "string \<Rightarrow> nat \<Rightarrow> string \<Rightarrow> bool" where
  "at inp pos s \<longleftrightarrow> pos \<le> length inp \<and> drop pos inp = s"

lemma join_step:
  fixes v :: "'a::len word"
  shows "push_bit 8 (drop_bit (n + 8) v) OR ucast (ucast (drop_bit n v) :: u8) = drop_bit n v"
  by (rule bit_word_eqI) (auto simp: bit_simps not_le intro: arg_cong [where f = "bit v"])

lemma length_be_bytes [simp]: "length (be_bytes n v) = n"
  by (induction n) simp_all

lemma at_append: "at inp pos (s @ t) \<Longrightarrow> at inp (pos + length s) t"
  unfolding at_def
  by (metis add.commute append_eq_conv_conj drop_drop length_append length_drop le_add_diff_inverse nat_add_left_cancel_le le_add1)

lemma get_u8_at: "at inp pos (c # s) \<Longrightarrow> get_u8 inp pos = Some (pos + 1, u8_of_char c)"
  unfolding at_def get_u8_def
  by (metis drop_all list.discI nth_via_drop not_le)

lemma get_bytes_at:
  "at inp pos (be_bytes n v @ s) \<Longrightarrow> v0 = drop_bit (8 * n) v \<Longrightarrow>
   get_bytes n inp pos v0 = (True, pos + n, v)"
proof (induction n arbitrary: pos v0)
  case (Suc n)
  then have "at inp (pos + 1) (be_bytes n v @ s)"
    using at_append [of inp pos "[char_of_u8 (ucast (drop_bit (8 * n) v))]"] by simp
  moreover have "push_bit 8 v0 OR ucast (ucast (drop_bit (8 * n) v) :: u8) = drop_bit (8 * n) v"
    using Suc.prems(2) join_step [of "8 * n" v] by (simp add: add.commute)
  ultimately show ?case
    using Suc.prems(1) by (simp add: Suc.IH get_u8_at)
qed simp

lemma split_step:
  fixes v0 :: "'a::len word"
  assumes "\<And>k. bit v0 k \<Longrightarrow> k + 8 < LENGTH('a)"
  shows "drop_bit 8 (push_bit 8 v0 OR ucast (b :: u8)) = v0"
  using assms by (intro bit_word_eqI) (auto simp: bit_simps add.commute dest: bit_imp_le_length)

lemma split_low:
  assumes "8 \<le> LENGTH('a::len)"
  shows "ucast (push_bit 8 v0 OR ucast (b :: u8) :: 'a word) = b"
  using assms by (intro bit_word_eqI) (auto simp: bit_simps)

lemma get_bytes_inv:
  fixes v :: "'a::len word"
  assumes "get_bytes n inp pos v0 = (True, pos', v)" and "8 * n \<le> LENGTH('a)"
    and "\<And>k. bit v0 k \<Longrightarrow> k + 8 * n < LENGTH('a)"
  shows "pos' = pos + n \<and> (n = 0 \<or> pos' \<le> length inp) \<and> take n (drop pos inp) = be_bytes n v \<and> drop_bit (8 * n) v = v0"
  using assms
proof (induction n arbitrary: pos v0)
  case (Suc n)
  then have lt: "pos < length inp"
    by (auto simp: get_u8_def split: if_splits)
  define b where "b = u8_of_char (inp ! pos)"
  define v1 where "v1 = push_bit 8 v0 OR ucast b"
  have run: "get_bytes n inp (pos + 1) v1 = (True, pos', v)"
    using Suc.prems(1) lt by (simp add: get_u8_def b_def v1_def)
  have top: "k + 8 * n < LENGTH('a)" if "bit v1 k" for k
  proof (cases "bit (ucast b :: 'a word) k")
    case True
    then have "k < 8" by (auto simp: bit_simps dest: bit_imp_le_length)
    with Suc.prems(2) show ?thesis by simp
  next
    case False
    with that have "8 \<le> k" "bit v0 (k - 8)" by (auto simp: v1_def bit_simps)
    with Suc.prems(3) show ?thesis by fastforce
  qed
  have IH: "pos' = pos + 1 + n" "n = 0 \<or> pos' \<le> length inp"
     "take n (drop (pos + 1) inp) = be_bytes n v" "drop_bit (8 * n) v = v1"
    using Suc.IH [OF run _ top] Suc.prems(2) by auto
  have "drop_bit (8 * Suc n) v = drop_bit 8 v1"
    by (simp flip: IH(4))
  also have "... = v0"
    unfolding v1_def using Suc.prems(3) by (intro split_step) fastforce
  finally have "drop_bit (8 * Suc n) v = v0" .
  moreover have "ucast (drop_bit (8 * n) v) = b"
    using Suc.prems(2) split_low [where 'a = 'a] by (simp add: IH(4) v1_def)
  ultimately show ?case
    using IH lt by (auto simp: b_def take_Suc hd_drop_conv_nth tl_drop drop_Suc take_Suc_conv_app_nth simp flip: Cons_nth_drop_Suc)
qed simp


lemma put_u8_eq [codec]: "put_u8 out v = out @ [char_of_u8 v]"
  by (simp add: put_u8_def)

lemma put_u32_eq [codec]: "put_u32 out v = out @ be_bytes 4 v"
  by (simp add: put_u32_def put_u8_def numeral_eq_Suc)

lemma put_u64_eq [codec]: "put_u64 out v = out @ be_bytes 8 v"
  by (simp add: put_u64_def put_u8_def numeral_eq_Suc)

definition be_string :: "string \<Rightarrow> string" where
  "be_string s = be_bytes 4 (of_nat (length s) :: u32) @ s"

lemma put_string_eq [codec]: "put_string out s = out @ be_string s"
  by (simp add: put_string_def be_string_def put_u32_eq)

lemma put_strings_eq [codec]: "put_strings out ss = out @ concat (map be_string ss)"
  by (induction ss arbitrary: out) (simp_all add: put_strings_def put_string_eq)

lemma length_be_string [simp]: "length (be_string s) = 4 + length s"
  by (simp add: be_string_def)

definition fits :: "string \<Rightarrow> bool" where
  "fits s \<longleftrightarrow> length s \<le> kMaxStringBytes"

lemma get_u32_at: "at inp pos (be_bytes 4 v @ s) \<Longrightarrow> get_u32 inp pos = (True, pos + 4, v)"
  unfolding get_u32_def by (rule get_bytes_at) (auto intro!: bit_word_eqI simp: bit_simps dest: bit_imp_le_length)

lemma get_u64_at: "at inp pos (be_bytes 8 v @ s) \<Longrightarrow> get_u64 inp pos = (True, pos + 8, v)"
  unfolding get_u64_def by (rule get_bytes_at) (auto intro!: bit_word_eqI simp: bit_simps dest: bit_imp_le_length)

lemma get_string_at:
  assumes "at inp pos (be_string s @ t)" and "fits s"
  shows "get_string inp pos = (pos + 4 + length s, Some s)"
proof -
  have "length s < 2 ^ 32"
    using assms(2) by (simp add: fits_def kMaxStringBytes_def)
  then have len: "unat (of_nat (length s) :: u32) = length s"
    by (rule unat_of_nat_u32)
  have rest: "at inp (pos + 4) (s @ t)"
    using assms(1) at_append [of inp pos "be_bytes 4 (of_nat (length s) :: u32)"]
    by (simp add: be_string_def)
  then have "length s \<le> length inp - (pos + 4)"
    by (metis at_def length_append length_drop le_add1)
  with assms rest len show ?thesis
    by (simp add: get_string_def get_u32_at [of _ _ _ "s @ t"] be_string_def fits_def at_def)
qed

text \<open>A successful read consumed exactly the encoding of the value it returned.\<close>

definition consumed :: "string \<Rightarrow> nat \<Rightarrow> nat \<Rightarrow> string \<Rightarrow> bool" where
  "consumed inp pos pos' s \<longleftrightarrow> pos' \<le> length inp \<and> take pos' inp = take pos inp @ s"

lemma consumed_append:
  "consumed inp a b s \<Longrightarrow> consumed inp b c t \<Longrightarrow> consumed inp a c (s @ t)"
  by (simp add: consumed_def)

lemma consumedI: "n \<le> length inp - pos \<Longrightarrow> pos \<le> length inp \<Longrightarrow> take n (drop pos inp) = s \<Longrightarrow>
  consumed inp pos (pos + n) s"
  by (auto simp: consumed_def take_add)

lemma get_u32_inv:
  "get_u32 inp pos = (True, pos', v) \<Longrightarrow> consumed inp pos pos' (be_bytes 4 v)"
  unfolding get_u32_def by (drule get_bytes_inv) (auto intro!: consumedI)

lemma get_u64_inv:
  "get_u64 inp pos = (True, pos', v) \<Longrightarrow> consumed inp pos pos' (be_bytes 8 v)"
  unfolding get_u64_def by (drule get_bytes_inv) (auto intro!: consumedI)

lemma get_string_inv:
  assumes "get_string inp pos = (pos', Some s)"
  shows "consumed inp pos pos' (be_string s)" "fits s"
proof -
  obtain pos1 sz where u: "get_u32 inp pos = (True, pos1, sz)"
    and le: "unat sz \<le> kMaxStringBytes" "unat sz \<le> length inp - pos1"
    and eq: "pos' = pos1 + unat sz" "s = take (unat sz) (drop pos1 inp)"
    using assms by (auto simp: get_string_def split: prod.splits if_splits)
  from u have c: "consumed inp pos pos1 (be_bytes 4 sz)" by (rule get_u32_inv)
  have len: "length s = unat sz" using le eq by simp
  moreover have "consumed inp pos1 pos' s"
    using c le eq by (auto simp: consumed_def take_add)
  ultimately show "consumed inp pos pos' (be_string s)"
    using consumed_append [OF c] by (simp add: be_string_def)
  show "fits s" using len le by (simp add: fits_def)
qed


section \<open>Field codecs\<close>

text \<open>
  The contract of a field reader against the writer of the same field: reading the encoding of
  an admissible value succeeds and stores it, and whatever a successful read consumed is the
  encoding of the admissible value it stored.
\<close>

locale field_codec =
  fixes rd :: "string \<Rightarrow> field_reader"
    and enc :: "'x \<Rightarrow> string"
    and store :: "'x \<Rightarrow> Request \<Rightarrow> Request"
    and ok :: "'x \<Rightarrow> bool"
  assumes read_encoded:
    "ok x \<Longrightarrow> at inp pos (enc x @ t) \<Longrightarrow> rd inp (pos, r) = (True, pos + length (enc x), store x r)"
    and encoded_read:
    "pos \<le> length inp \<Longrightarrow> rd inp (pos, r) = (True, pos', r') \<Longrightarrow>
     \<exists>x. ok x \<and> r' = store x r \<and> consumed inp pos pos' (enc x)"
begin

lemma read_whole:
  "ok x \<Longrightarrow> rd (pre @ enc x @ t) (length pre, r) = (True, length pre + length (enc x), store x r)"
  by (rule read_encoded) (simp_all add: at_def)

lemma read_all:
  assumes "pos \<le> length inp" and "rd inp (pos, r) = (True, length inp, r')"
  shows "\<exists>x. ok x \<and> r' = store x r \<and> inp = take pos inp @ enc x"
  using encoded_read [OF assms] by (auto simp: consumed_def)

end

lemma field_codec_and_then:
  assumes "field_codec f e1 u1 ok1" and "field_codec g e2 u2 ok2"
  shows "field_codec (\<lambda>inp. and_then (f inp) (g inp)) (\<lambda>(x, y). e1 x @ e2 y)
    (\<lambda>(x, y) r. u2 y (u1 x r)) (\<lambda>(x, y). ok1 x \<and> ok2 y)"
proof
  fix z inp pos t r
  assume z: "case z of (x, y) \<Rightarrow> ok1 x \<and> ok2 y"
    and at: "at inp pos ((case z of (x, y) \<Rightarrow> e1 x @ e2 y) @ t)"
  obtain x y where xy: "z = (x, y)" by (cases z)
  have "f inp (pos, r) = (True, pos + length (e1 x), u1 x r)"
    using z at xy field_codec.read_encoded [OF assms(1), of x inp pos "e2 y @ t"] by simp
  moreover have "at inp (pos + length (e1 x)) (e2 y @ t)"
    using at xy at_append [of inp pos "e1 x"] by simp
  ultimately show "and_then (f inp) (g inp) (pos, r) =
      (True, pos + length (case z of (x, y) \<Rightarrow> e1 x @ e2 y), (case z of (x, y) \<Rightarrow> \<lambda>r. u2 y (u1 x r)) r)"
    using z xy field_codec.read_encoded [OF assms(2), of y inp "pos + length (e1 x)" t "u1 x r"]
    by (simp add: and_then_def add.assoc)
next
  fix pos inp r pos' r'
  assume le: "pos \<le> length inp" and run: "and_then (f inp) (g inp) (pos, r) = (True, pos', r')"
  then obtain p1 r1 where "f inp (pos, r) = (True, p1, r1)" and g: "g inp (p1, r1) = (True, pos', r')"
    by (auto simp: and_then_def split: prod.splits if_splits)
  then obtain x where x: "ok1 x" "r1 = u1 x r" "consumed inp pos p1 (e1 x)"
    using field_codec.encoded_read [OF assms(1) le] by blast
  then obtain y where "ok2 y" "r' = u2 y r1" "consumed inp p1 pos' (e2 y)"
    using field_codec.encoded_read [OF assms(2) _ g] by (auto simp: consumed_def)
  with x show "\<exists>z. (case z of (x, y) \<Rightarrow> ok1 x \<and> ok2 y) \<and>
      r' = (case z of (x, y) \<Rightarrow> \<lambda>r. u2 y (u1 x r)) r \<and>
      consumed inp pos pos' (case z of (x, y) \<Rightarrow> e1 x @ e2 y)"
    by (intro exI [of _ "(x, y)"]) (auto intro: consumed_append)
qed

lemma string_field_codec:
  "field_codec (string_field upd) be_string (\<lambda>s. upd (\<lambda>_. s)) fits"
  by unfold_locales
    (auto simp: string_field_def get_string_at split: prod.splits option.splits dest: get_string_inv)

interpretation topic_partition: field_codec get_topic_partition
  "\<lambda>(s, p). be_string s @ be_bytes 4 (bits32 p)"
  "\<lambda>(s, p) r. r\<lparr>topic := s, partition := p\<rparr>" "\<lambda>(s, p). fits s"
proof
  fix x :: "string \<times> int32" and inp pos t r
  assume x: "case x of (s, p) \<Rightarrow> fits s"
    and at: "at inp pos ((case x of (s, p) \<Rightarrow> be_string s @ be_bytes 4 (bits32 p)) @ t)"
  obtain s p where xs: "x = (s, p)" by (cases x)
  have "at inp (pos + (4 + length s)) (be_bytes 4 (bits32 p) @ t)"
    using at xs at_append [of inp pos "be_string s"] by simp
  then show "get_topic_partition inp (pos, r) =
     (True, pos + length (case x of (s, p) \<Rightarrow> be_string s @ be_bytes 4 (bits32 p)),
      (case x of (s, p) \<Rightarrow> \<lambda>r. r\<lparr>topic := s, partition := p\<rparr>) r)"
    using at x xs by (simp add: get_topic_partition_def get_string_at get_u32_at add.assoc)
next
  fix pos inp r pos' r'
  assume "pos \<le> length inp" "get_topic_partition inp (pos, r) = (True, pos', r')"
  then show "\<exists>x. (case x of (s, p) \<Rightarrow> fits s) \<and>
     r' = (case x of (s, p) \<Rightarrow> \<lambda>r. r\<lparr>topic := s, partition := p\<rparr>) r \<and>
     consumed inp pos pos' (case x of (s, p) \<Rightarrow> be_string s @ be_bytes 4 (bits32 p))"
    by (fastforce simp: get_topic_partition_def split: prod.splits option.splits if_splits
        dest: get_string_inv get_u32_inv intro: consumed_append)
qed

interpretation offset: field_codec offset_field "be_bytes 8" "\<lambda>v r. r\<lparr>fetch_offset := v\<rparr>" "\<lambda>v. True"
  by unfold_locales (auto simp: offset_field_def get_u64_at split: prod.splits dest: get_u64_inv)

interpretation ack_broker: field_codec ack_broker_field
  "\<lambda>b. be_bytes 4 (bits32 b)" "\<lambda>b r. r\<lparr>broker_id := b\<rparr>" "\<lambda>b. True"
  by unfold_locales (fastforce simp: ack_broker_field_def get_u32_at split: prod.splits if_splits
      dest: get_u32_inv)+

interpretation heartbeat_broker: field_codec heartbeat_broker_field
  "\<lambda>b. be_bytes 4 (bits32 b)" "\<lambda>b r. r\<lparr>broker_id := b\<rparr>" "\<lambda>b. True"
  by unfold_locales (fastforce simp: heartbeat_broker_field_def get_u32_at split: prod.splits if_splits
      dest: get_u32_inv)+

lemma batch_loop_at:
  assumes "at inp pos (concat (map be_string ss) @ t)" and "\<forall>s\<in>set ss. fits s"
  shows "batch_loop (length ss) inp (pos, r) =
    (True, pos + length (concat (map be_string ss)), r\<lparr>messages := messages r @ ss\<rparr>)"
  using assms
proof (induction ss arbitrary: pos r)
  case (Cons s ss)
  then have "at inp (pos + (4 + length s)) (concat (map be_string ss) @ t)"
    using at_append [of inp pos "be_string s"] by simp
  with Cons show ?case
    by (simp add: get_string_at [of _ _ s "concat (map be_string ss) @ t"] add.assoc)
qed simp

lemma batch_loop_inv:
  assumes "batch_loop n inp (pos, r) = (True, pos', r')" and "pos \<le> length inp"
  shows "\<exists>ss. length ss = n \<and> (\<forall>s\<in>set ss. fits s) \<and> r' = r\<lparr>messages := messages r @ ss\<rparr> \<and>
    consumed inp pos pos' (concat (map be_string ss))"
  using assms
proof (induction n arbitrary: pos r)
  case (Suc n)
  then obtain p1 s where g: "get_string inp pos = (p1, Some s)"
    and run: "batch_loop n inp (p1, r\<lparr>messages := messages r @ [s]\<rparr>) = (True, pos', r')"
    by (auto split: prod.splits option.splits)
  note gs = get_string_inv [OF g]
  then have "p1 \<le> length inp" by (simp add: consumed_def)
  then obtain ss where "length ss = n" "\<forall>s\<in>set ss. fits s"
    "r' = r\<lparr>messages := messages r @ s # ss\<rparr>" "consumed inp p1 pos' (concat (map be_string ss))"
    using Suc.IH [OF run] by auto
  with gs show ?case
    by (intro exI [of _ "s # ss"]) (auto intro: consumed_append)
qed (auto simp: consumed_def)


interpretation batch: field_codec batch_field
  "\<lambda>ss. be_bytes 4 (of_nat (length ss) :: u32) @ concat (map be_string ss)"
  "\<lambda>ss r. r\<lparr>messages := messages r @ ss\<rparr>"
  "\<lambda>ss. length ss \<le> kMaxBatchMessages \<and> (\<forall>s\<in>set ss. fits s)"
proof
  fix ss inp pos t r
  assume ok: "length ss \<le> kMaxBatchMessages \<and> (\<forall>s\<in>set ss. fits s)"
    and at: "at inp pos ((be_bytes 4 (of_nat (length ss) :: u32) @ concat (map be_string ss)) @ t)"
  have "unat (of_nat (length ss) :: u32) = length ss"
    using ok by (intro unat_of_nat_u32) (simp add: kMaxBatchMessages_def)
  moreover have "at inp (pos + 4) (concat (map be_string ss) @ t)"
    using at at_append [of inp pos "be_bytes 4 (of_nat (length ss) :: u32)"] by simp
  ultimately show "batch_field inp (pos, r) =
     (True, pos + length (be_bytes 4 (of_nat (length ss) :: u32) @ concat (map be_string ss)),
      r\<lparr>messages := messages r @ ss\<rparr>)"
    using at ok by (simp add: batch_field_def get_u32_at batch_loop_at add.assoc)
next
  fix pos inp r pos' r'
  assume "pos \<le> length inp" and "batch_field inp (pos, r) = (True, pos', r')"
  then obtain p1 count where u: "get_u32 inp pos = (True, p1, count)"
    and le: "unat count \<le> kMaxBatchMessages"
    and run: "batch_loop (unat count) inp (p1, r) = (True, pos', r')"
    by (auto simp: batch_field_def split: prod.splits if_splits)
  note c = get_u32_inv [OF u]
  then have "p1 \<le> length inp" by (simp add: consumed_def)
  then obtain ss where ss: "length ss = unat count" "\<forall>s\<in>set ss. fits s"
    "r' = r\<lparr>messages := messages r @ ss\<rparr>" "consumed inp p1 pos' (concat (map be_string ss))"
    using batch_loop_inv [OF run] by blast
  with c le show "\<exists>x. (length x \<le> kMaxBatchMessages \<and> (\<forall>s\<in>set x. fits s)) \<and>
     r' = r\<lparr>messages := messages r @ x\<rparr> \<and>
     consumed inp pos pos' (be_bytes 4 (of_nat (length x) :: u32) @ concat (map be_string x))"
    by (intro exI [of _ ss]) (auto intro: consumed_append)
qed

text \<open>The reader of each kind of request is the conjunction of its fields' readers.\<close>

lemmas tp_codec = topic_partition.field_codec_axioms
lemmas off_codec = offset.field_codec_axioms
lemmas group_codec = string_field_codec [of group_id_update]
lemmas member_codec = string_field_codec [of member_id_update]
lemmas tp_off_codec = field_codec_and_then [OF tp_codec off_codec]
lemmas produce_codec =
  field_codec_and_then [OF tp_codec
    field_codec_and_then [OF string_field_codec [of message_update] off_codec]]
lemmas batch_produce_codec = field_codec_and_then [OF tp_codec batch.field_codec_axioms]
lemmas batch_replicate_codec =
  field_codec_and_then [OF tp_codec field_codec_and_then [OF off_codec batch.field_codec_axioms]]
lemmas replicate_codec =
  field_codec_and_then [OF tp_codec
    field_codec_and_then [OF off_codec string_field_codec [of message_update]]]
lemmas ack_codec =
  field_codec_and_then [OF off_codec
    field_codec_and_then [OF ack_broker.field_codec_axioms tp_codec]]
lemmas membership_codec =
  field_codec_and_then [OF group_codec
    field_codec_and_then [OF member_codec string_field_codec [of topic_update]]]
lemmas group_offset_codec =
  field_codec_and_then [OF group_codec field_codec_and_then [OF member_codec tp_off_codec]]


section \<open>Whole requests\<close>

definition tp_bytes :: "Request \<Rightarrow> string" where
  "tp_bytes r = be_string (topic r) @ be_bytes 4 (bits32 (partition r))"

definition batch_bytes :: "Request \<Rightarrow> string" where
  "batch_bytes r =
     be_bytes 4 (of_nat (length (messages r)) :: u32) @ concat (map be_string (messages r))"

definition member_bytes :: "Request \<Rightarrow> string" where
  "member_bytes r = be_string (group_id r) @ be_string (member_id r)"

lemmas field_bytes_defs = tp_bytes_def batch_bytes_def member_bytes_def

text \<open>What a request of each kind puts on the wire after the version and the kind.\<close>

fun body_bytes :: "RequestType \<Rightarrow> Request \<Rightarrow> string" where
  "body_bytes PRODUCE r = tp_bytes r @ be_string (message r) @ be_bytes 8 (fetch_offset r)"
| "body_bytes BATCH_PRODUCE r = tp_bytes r @ batch_bytes r"
| "body_bytes BATCH_REPLICATE r = tp_bytes r @ be_bytes 8 (fetch_offset r) @ batch_bytes r"
| "body_bytes FETCH r = tp_bytes r @ be_bytes 8 (fetch_offset r)"
| "body_bytes COMMIT r = tp_bytes r @ be_bytes 8 (fetch_offset r)"
| "body_bytes REPLICATE r = tp_bytes r @ be_bytes 8 (fetch_offset r) @ be_string (message r)"
| "body_bytes ACK r =
     be_bytes 8 (fetch_offset r) @ be_bytes 4 (bits32 (broker_id r)) @ tp_bytes r"
| "body_bytes HEARTBEAT r = be_bytes 4 (bits32 (broker_id r))"
| "body_bytes METADATA r = []"
| "body_bytes JOIN_GROUP r = member_bytes r @ be_string (topic r)"
| "body_bytes LEAVE_GROUP r = member_bytes r @ be_string (topic r)"
| "body_bytes GROUP_ASSIGNMENT r = member_bytes r @ be_string (topic r)"
| "body_bytes GROUP_FETCH r = member_bytes r @ tp_bytes r @ be_bytes 8 (fetch_offset r)"
| "body_bytes COMMIT_OFFSET r = member_bytes r @ tp_bytes r @ be_bytes 8 (fetch_offset r)"
| "body_bytes ERROR r = []"

text \<open>
  The part of a request that its kind transports: the other fields arrive as the defaults of
  \<open>blank_request\<close>.
\<close>

fun wire_fields :: "RequestType \<Rightarrow> Request \<Rightarrow> Request" where
  "wire_fields PRODUCE r = (blank_request PRODUCE)\<lparr>topic := topic r, partition := partition r,
     message := message r, fetch_offset := fetch_offset r\<rparr>"
| "wire_fields BATCH_PRODUCE r = (blank_request BATCH_PRODUCE)\<lparr>topic := topic r,
     partition := partition r, messages := messages r\<rparr>"
| "wire_fields BATCH_REPLICATE r = (blank_request BATCH_REPLICATE)\<lparr>topic := topic r,
     partition := partition r, fetch_offset := fetch_offset r, messages := messages r\<rparr>"
| "wire_fields FETCH r = (blank_request FETCH)\<lparr>topic := topic r, partition := partition r,
     fetch_offset := fetch_offset r\<rparr>"
| "wire_fields COMMIT r = (blank_request COMMIT)\<lparr>topic := topic r, partition := partition r,
     fetch_offset := fetch_offset r\<rparr>"
| "wire_fields REPLICATE r = (blank_request REPLICATE)\<lparr>topic := topic r,
     partition := partition r, fetch_offset := fetch_offset r, message := message r\<rparr>"
| "wire_fields ACK r = (blank_request ACK)\<lparr>topic := topic r, partition := partition r,
     fetch_offset := fetch_offset r, broker_id := broker_id r\<rparr>"
| "wire_fields HEARTBEAT r = (blank_request HEARTBEAT)\<lparr>broker_id := broker_id r\<rparr>"
| "wire_fields METADATA r = blank_request METADATA"
| "wire_fields JOIN_GROUP r = (blank_request JOIN_GROUP)\<lparr>topic := topic r,
     group_id := group_id r, member_id := member_id r\<rparr>"
| "wire_fields LEAVE_GROUP r = (blank_request LEAVE_GROUP)\<lparr>topic := topic r,
     group_id := group_id r, member_id := member_id r\<rparr>"
| "wire_fields GROUP_ASSIGNMENT r = (blank_request GROUP_ASSIGNMENT)\<lparr>topic := topic r,
     group_id := group_id r, member_id := member_id r\<rparr>"
| "wire_fields GROUP_FETCH r = (blank_request GROUP_FETCH)\<lparr>topic := topic r,
     partition := partition r, fetch_offset := fetch_offset r, group_id := group_id r,
     member_id := member_id r\<rparr>"
| "wire_fields COMMIT_OFFSET r = (blank_request COMMIT_OFFSET)\<lparr>topic := topic r,
     partition := partition r, fetch_offset := fetch_offset r, group_id := group_id r,
     member_id := member_id r\<rparr>"
| "wire_fields ERROR r = blank_request ERROR"

definition within_limits :: "Request \<Rightarrow> bool" where
  "within_limits r \<longleftrightarrow> fits (topic r) \<and> fits (message r) \<and> fits (group_id r) \<and> fits (member_id r) \<and>
     length (messages r) \<le> kMaxBatchMessages \<and> (\<forall>s\<in>set (messages r). fits s)"

lemma fits_Nil [simp]: "fits []"
  by (simp add: fits_def)

lemma encode_request_eq:
  "kind r \<noteq> ERROR \<Longrightarrow>
   encode_request r = [char_of_u8 kProtocolVersion, char_of_u8 (type_code (kind r))] @ body_bytes (kind r) r"
  by (cases "kind r")
    (simp_all add: encode_request_def put_topic_partition_def put_batch_def put_group_member_def
      field_bytes_defs codec)

lemmas wire_simps = within_limits_def field_bytes_defs blank_request_def

lemma parse_body_at:
  assumes lim: "within_limits r" and "t \<noteq> ERROR" and at: "at inp pos (body_bytes t r @ s)"
  shows "parse_body t inp (pos, blank_request t) = (True, pos + length (body_bytes t r), wire_fields t r)"
proof -
  let ?tp = "(topic r, partition r)"
  note codec_reads =
    field_codec.read_encoded [OF produce_codec, where x = "(?tp, message r, fetch_offset r)"]
    field_codec.read_encoded [OF tp_off_codec, where x = "(?tp, fetch_offset r)"]
    field_codec.read_encoded [OF replicate_codec, where x = "(?tp, fetch_offset r, message r)"]
    field_codec.read_encoded [OF ack_codec, where x = "(fetch_offset r, broker_id r, topic r, partition r)"]
    field_codec.read_encoded [OF heartbeat_broker.field_codec_axioms, where x = "broker_id r"]
    field_codec.read_encoded [OF membership_codec, where x = "(group_id r, member_id r, topic r)"]
    field_codec.read_encoded [OF group_offset_codec, where x = "(group_id r, member_id r, ?tp, fetch_offset r)"]
    field_codec.read_encoded [OF batch_produce_codec, where x = "(?tp, messages r)"]
    field_codec.read_encoded [OF batch_replicate_codec, where x = "(?tp, fetch_offset r, messages r)"]
  show ?thesis
    using assms codec_reads [of inp pos s] by (cases t) (simp_all add: wire_simps)
qed

lemma parse_body_inv:
  assumes run: "parse_body t inp (pos, blank_request t) = (True, pos', r)" and le: "pos \<le> length inp"
  shows "within_limits r \<and> kind r = t \<and> t \<noteq> ERROR \<and> consumed inp pos pos' (body_bytes t r)"
proof -
  note codec_writes =
    field_codec.encoded_read [OF produce_codec le] field_codec.encoded_read [OF tp_off_codec le]
    field_codec.encoded_read [OF replicate_codec le] field_codec.encoded_read [OF ack_codec le]
    field_codec.encoded_read [OF heartbeat_broker.field_codec_axioms le] field_codec.encoded_read [OF membership_codec le]
    field_codec.encoded_read [OF group_offset_codec le] field_codec.encoded_read [OF batch_produce_codec le]
    field_codec.encoded_read [OF batch_replicate_codec le]
  show ?thesis
    using run le by (cases t) (fastforce simp: wire_simps consumed_def dest: codec_writes)+
qed


lemma type_of_code_type_code [simp]: "type_of_code (type_code t) = t"
  by (cases t) (simp_all add: type_of_code_def request_types_def)

lemma type_code_bound: "type_code BATCH_REPLICATE < type_code t \<longleftrightarrow> t = ERROR"
  by (cases t) simp_all

lemma type_code_nth: "list_all (\<lambda>n. type_code (request_types ! n) = of_nat n) [0..<14]"
  by code_simp

lemma type_code_type_of_code: "\<not> type_code BATCH_REPLICATE < w \<Longrightarrow> type_code (type_of_code w) = w"
proof -
  assume "\<not> type_code BATCH_REPLICATE < w"
  then have "unat w \<in> set [0..<14]"
    by (simp add: not_less word_le_nat_alt)
  then have "type_code (request_types ! unat w) = of_nat (unat w)"
    using type_code_nth unfolding list_all_iff by blast
  then show ?thesis
    by (simp add: type_of_code_def)
qed

lemma wire_fields_kind [simp]: "kind (wire_fields t r) = t"
  by (cases t) (simp_all add: blank_request_def)

lemma body_bytes_wire_fields [simp]: "body_bytes t (wire_fields t r) = body_bytes t r"
  by (cases t) (simp_all add: field_bytes_defs blank_request_def)

lemma kind_blank [simp]: "kind (blank_request t) = t"
  by (simp add: blank_request_def)

lemma get_u8_Some: "get_u8 p i = Some (j, v) \<Longrightarrow> i < length p \<and> p ! i = char_of_u8 v"
  by (auto simp: get_u8_def split: if_splits)

text \<open>A payload is accepted exactly when a version, a kind and a body of that kind fill it.\<close>

lemma parse_request_encoded:
  assumes "t \<noteq> ERROR" and "within_limits r"
  shows "parse_request ([char_of_u8 kProtocolVersion, char_of_u8 (type_code t)] @ body_bytes t r @ s) =
    (wire_fields t r)\<lparr>kind := if s = [] then t else ERROR\<rparr>"
proof -
  define p where "p = [char_of_u8 kProtocolVersion, char_of_u8 (type_code t)] @ body_bytes t r @ s"
  have "get_u8 p 0 = Some (1, kProtocolVersion)" "get_u8 p 1 = Some (2, type_code t)"
    by (simp_all add: p_def get_u8_def)
  moreover have "at p 2 (body_bytes t r @ s)"
    by (simp add: p_def at_def)
  then have "parse_body t p (2, blank_request t) = (True, 2 + length (body_bytes t r), wire_fields t r)"
    using assms parse_body_at by blast
  moreover have "\<not> type_code BATCH_REPLICATE < type_code t"
    using assms(1) by (simp add: type_code_bound del: type_code.simps)
  ultimately have "parse_request p = (wire_fields t r)\<lparr>kind := if s = [] then t else ERROR\<rparr>"
    by (auto simp: parse_request_def p_def [symmetric] simp del: type_code.simps)
      (auto simp: p_def)
  then show ?thesis by (simp add: p_def)
qed

lemma parse_request_accepted:
  assumes "kind (parse_request p) \<noteq> ERROR"
  shows "within_limits (parse_request p) \<and>
    p = [char_of_u8 kProtocolVersion, char_of_u8 (type_code (kind (parse_request p)))]
      @ body_bytes (kind (parse_request p)) (parse_request p)"
proof -
  obtain p2 t r where v: "get_u8 p 0 = Some (1, kProtocolVersion)"
    and k: "get_u8 p 1 = Some (2, t)" "\<not> type_code BATCH_REPLICATE < t"
    and b: "parse_body (type_of_code t) p (2, blank_request (type_of_code t)) = (True, length p, r)"
    and r: "parse_request p = r"
    using assms
    by (auto simp: parse_request_def get_u8_def numeral_2_eq_2 kind_blank
        split: option.splits if_splits prod.splits)
  have "2 \<le> length p" using k(1) by (simp add: get_u8_def split: if_splits)
  note inv = parse_body_inv [OF b this]
  then have "type_code (kind r) = t" using k(2) type_code_type_of_code by simp
  moreover have "take 2 p = [char_of_u8 kProtocolVersion, char_of_u8 t]"
    using get_u8_Some [OF v] get_u8_Some [OF k(1)] by (cases p; cases "tl p") auto
  ultimately show ?thesis
    using inv r by (auto simp: consumed_def)
qed

lemma get_offsets_at:
  assumes "at inp pos (concat (map (be_bytes 8) vs) @ t)"
  shows "get_offsets (length vs) inp pos acc = Some (pos + 8 * length vs, acc @ vs)"
  using assms
proof (induction vs arbitrary: pos acc)
  case (Cons v vs)
  then have "at inp (pos + 8) (concat (map (be_bytes 8) vs) @ t)"
    using at_append [of inp pos "be_bytes 8 v"] by simp
  with Cons show ?case
    by (simp add: get_u64_at [of _ _ v "concat (map (be_bytes 8) vs) @ t"] add.assoc)
qed simp

lemma foldl_put_u64 [codec]: "foldl put_u64 out vs = out @ concat (map (be_bytes 8) vs)"
  by (induction vs arbitrary: out) (simp_all add: codec)


section \<open>Properties of the protocol\<close>

text \<open>A batch with a negative partition number and an empty message, used as a concrete input.\<close>

definition sample_batch :: Request where
  "sample_batch = (blank_request BATCH_REPLICATE)\<lparr>topic := ''orders'', partition := int32_of (-3),
     fetch_offset := 77, messages := [''a'', ''bcd'', [] ]\<rparr>"

lemma sample_limits: "within_limits sample_batch" "kind sample_batch \<noteq> ERROR"
  by (simp_all add: sample_batch_def within_limits_def blank_request_def fits_def kMaxStringBytes_def kMaxBatchMessages_def)


lemma sample_accepted: "kind (parse_request (encode_request sample_batch)) \<noteq> ERROR"
  using parse_request_encoded [of "kind sample_batch" sample_batch "[]"] sample_limits
  by (simp add: encode_request_eq)

text \<open>C19. Decoding inverts encoding: for every request other than ERROR whose strings and batch
  are within the protocol's limits, parsing its encoding gives back the kind and exactly the
  fields that kind transports, for all fourteen kinds.\<close>

theorem parse_encode_request:
  "within_limits r \<Longrightarrow> kind r \<noteq> ERROR \<Longrightarrow> parse_request (encode_request r) = wire_fields (kind r) r"
  using parse_request_encoded [of "kind r" r "[]"]
  by (simp add: encode_request_eq)

theorem parse_encode_request_witness:
  "within_limits sample_batch \<and> kind sample_batch \<noteq> ERROR \<and>
   parse_request (encode_request sample_batch) = sample_batch"
  using sample_limits parse_encode_request [OF sample_limits]
  by (simp add: sample_batch_def blank_request_def)

text \<open>C20. The encoding is canonical: a payload that is not rejected is, byte for byte, the
  encoding of the request read from it, so nothing is ignored and no two accepted payloads
  mean the same request.\<close>

theorem encode_parse_request:
  assumes "kind (parse_request p) \<noteq> ERROR"
  shows "encode_request (parse_request p) = p"
  using parse_request_accepted [OF assms] encode_request_eq [OF assms] by simp

theorem encode_parse_request_witness:
  "kind (parse_request (encode_request sample_batch)) \<noteq> ERROR \<and>
   encode_request (parse_request (encode_request sample_batch)) = encode_request sample_batch"
  using sample_accepted encode_parse_request [OF sample_accepted] by blast

text \<open>No accepted payload is a proper prefix of another: a request followed by trailing bytes
  is reported as ERROR.\<close>

theorem accepted_prefix_free:
  assumes "kind (parse_request p) \<noteq> ERROR" and "s \<noteq> []"
  shows "kind (parse_request (p @ s)) = ERROR"
proof -
  let ?r = "parse_request p"
  have "p @ s = [char_of_u8 kProtocolVersion, char_of_u8 (type_code (kind ?r))] @ body_bytes (kind ?r) ?r @ s"
    using parse_request_accepted [OF assms(1)] by (metis append_assoc)
  moreover have "within_limits ?r"
    using parse_request_accepted [OF assms(1)] by blast
  ultimately show ?thesis
    using parse_request_encoded [OF assms(1), of ?r s] assms(2) by (cases "wire_fields (kind ?r) ?r") (simp only: Request.simps if_False simp_thms)
qed

theorem accepted_prefix_free_witness:
  "kind (parse_request (encode_request sample_batch)) \<noteq> ERROR \<and>
   kind (parse_request (encode_request sample_batch @ ''x'')) = ERROR"
  using sample_accepted accepted_prefix_free [OF sample_accepted, of "''x''"] by simp

text \<open>C21. A response within the limits survives the round trip unchanged, the whole record with
  its list of offsets.\<close>

theorem parse_serialize_response:
  assumes "fits (reply r)" and "length (appended_offsets r) \<le> kMaxBatchMessages"
  shows "parse_response (serialize_response r) = r"
proof -
  define p where "p = serialize_response r"
  let ?c = "be_bytes 4 (of_nat (length (appended_offsets r)) :: u32)"
  let ?o = "concat (map (be_bytes 8) (appended_offsets r))"
  have p: "p = [char_of_u8 kProtocolVersion, char_of_u8 (if success r then 1 else 0),
      char_of_u8 (if reply r = [] then 0 else 1)] @ be_bytes 8 (appended_offset r) @
      be_string (reply r) @ ?c @ ?o"
    by (simp add: p_def serialize_response_def Let_def codec)
  have a3: "at p 3 (be_bytes 8 (appended_offset r) @ be_string (reply r) @ ?c @ ?o)"
    by (simp add: p at_def)
  have a11: "at p 11 (be_string (reply r) @ ?c @ ?o)"
    using at_append [OF a3] by simp
  have a12: "at p (11 + (4 + length (reply r))) (?c @ ?o)"
    using at_append [OF a11] by simp
  have a13: "at p (11 + (4 + length (reply r)) + 4) (?o @ [])"
    using at_append [OF a12] by simp
  have c: "unat (of_nat (length (appended_offsets r)) :: u32) = length (appended_offsets r)"
    using assms(2) by (intro unat_of_nat_u32) (simp add: kMaxBatchMessages_def)
  have heads: "get_u8 p 0 = Some (1, kProtocolVersion)"
    "get_u8 p 1 = Some (2, if success r then 1 else 0)"
    "get_u8 p 2 = Some (3, if reply r = [] then 0 else 1)"
    by (simp_all add: p get_u8_def)
  have len: "length p = 11 + (4 + length (reply r)) + 4 + 8 * length (appended_offsets r)"
    by (simp add: p length_concat comp_def sum_list_triv)
  show ?thesis
    using assms len c get_offsets_at [OF a13, of "[]"]
    unfolding p_def [symmetric] parse_response_def
    by (simp add: heads [simplified] get_u64_at [OF a3] get_string_at [OF a11] get_u32_at [OF a12, simplified] add.assoc)
qed

theorem parse_serialize_response_witness:
  "parse_response (serialize_response \<lparr>success = True, reply = ''ok'', appended_offset = 3,
     appended_offsets = [1, 2, 3]\<rparr>) = \<lparr>success = True, reply = ''ok'', appended_offset = 3,
     appended_offsets = [1, 2, 3]\<rparr>"
  by (rule parse_serialize_response) (simp_all add: fits_def kMaxStringBytes_def kMaxBatchMessages_def)

end
