(* ===== verification/Frame.thy ===== *)
theory Frame
  imports Protocol "HOL-Library.Sublist"
begin

text \<open>
  Length-prefixed frames over a stream socket (\<^verbatim>\<open>include/protocol/frame.h\<close>,
  \<^verbatim>\<open>src/protocol/frame.cpp\<close>). The socket is a parameter: what arrives is a list of chunks, of
  which one \<^verbatim>\<open>recv\<close> sees at most the first, and the answers of \<^verbatim>\<open>writev\<close> are a sequence of
  return values. The lemmas show that frames survive any chunking and any sequence of partial
  writes.
\<close>

section \<open>The socket\<close>

text \<open>An empty chunk stands for an error or an end of the stream reported by one call.\<close>

fun recv :: "nat \<Rightarrow> string list \<Rightarrow> string \<times> string list" where
  "recv n [] = ([], [])"
| "recv n (c # cs) = (take n c, if length c \<le> n then cs else drop n c # cs)"

section \<open>Frames\<close>

definition wrap_frame :: "string \<Rightarrow> string" where
  "wrap_frame payload = put_u32 [] (of_nat (length payload)) @ payload"

function read_exact :: "nat \<Rightarrow> string list \<Rightarrow> string option \<times> string list" where
  "read_exact n rx =
     (if n = 0 then (Some [], rx)
      else (case recv n rx of
              (bytes, rx') \<Rightarrow>
                if bytes = [] then (None, rx')
                else (case read_exact (n - length bytes) rx' of
                        (got, rx'') \<Rightarrow> (map_option ((@) bytes) got, rx''))))"
  by pat_completeness auto

termination read_exact
  by (relation "measure fst") auto

declare read_exact.simps [simp del]

definition read_frame :: "string list \<Rightarrow> string option \<times> string list" where
  "read_frame rx =
     (case read_exact 4 rx of
        (None, rx') \<Rightarrow> (None, rx')
      | (Some header, rx') \<Rightarrow>
          (let len = snd (snd (get_u32 header 0))
           in if len = 0 then (Some [], rx') else read_exact (unat len) rx'))"

text \<open>
  The inner loop of \<^verbatim>\<open>write_frame\<close> drops the buffers that were sent completely and moves the
  start of the first one that was not.
\<close>

fun advance :: "nat \<Rightarrow> string list \<Rightarrow> string list" where
  "advance n [] = []"
| "advance n (b # bs) =
     (if length b \<le> n then advance (n - length b) bs else drop n b # bs)"

text \<open>
  \<open>answer i\<close> is what the \<open>i\<close>-th \<^verbatim>\<open>writev\<close> returns, unless that is more than the buffers hold:
  the call never reports more bytes than it was given.
\<close>

definition writev :: "int \<Rightarrow> string list \<Rightarrow> int" where
  "writev answer buffers = min answer (int (length (concat buffers)))"

function write_loop :: "(nat \<Rightarrow> int) \<Rightarrow> nat \<Rightarrow> nat \<Rightarrow> nat \<Rightarrow> string list \<Rightarrow> bool \<times> string" where
  "write_loop answer i frame_size total_sent buffers =
     (if total_sent < frame_size then
        (let sent = writev (answer i) buffers
         in if sent \<le> 0 then (False, [])
            else (case write_loop answer (Suc i) frame_size (total_sent + nat sent) (advance (nat sent) buffers) of
                    (ok, out) \<Rightarrow> (ok, take (nat sent) (concat buffers) @ out)))
      else (True, []))"
  by pat_completeness auto

termination write_loop
  by (relation "measure (\<lambda>(answer, i, frame_size, total_sent, buffers). frame_size - total_sent)") auto

declare write_loop.simps [simp del]

definition write_frame :: "(nat \<Rightarrow> int) \<Rightarrow> string \<Rightarrow> bool \<times> string" where
  "write_frame answer payload =
     (let header = put_u32 [] (of_nat (length payload));
          buffers = (if payload = [] then [header] else [header, payload])
      in write_loop answer 0 (4 + length payload) 0 buffers)"

section \<open>Reading\<close>

definition open_stream :: "string list \<Rightarrow> bool" where
  "open_stream rx \<longleftrightarrow> [] \<notin> set rx"

lemma recv_stream:
  assumes "open_stream rx" and "concat rx \<noteq> []" and "0 < n" and "recv n rx = (bytes, rx')"
  shows "bytes \<noteq> []" "length bytes \<le> n" "concat rx = bytes @ concat rx'" "open_stream rx'"
  using assms by (cases rx; auto simp: open_stream_def split: if_splits)+

lemma read_exact_stream:
  "open_stream rx \<Longrightarrow> concat rx = s @ rest \<Longrightarrow> n = length s \<Longrightarrow>
   \<exists>rx'. read_exact n rx = (Some s, rx') \<and> concat rx' = rest \<and> open_stream rx'"
proof (induction n rx arbitrary: s rule: read_exact.induct)
  case (1 n rx)
  show ?case
  proof (cases "n = 0")
    case True
    then show ?thesis using 1 by (subst read_exact.simps) simp
  next
    case False
    obtain bytes rx' where r: "recv n rx = (bytes, rx')" by fastforce
    have "concat rx \<noteq> []" using 1(3,4) False by auto
    note step = recv_stream [OF 1(2) this _ r]
    have eq: "bytes @ concat rx' = s @ rest" "length bytes \<le> length s"
      using step False 1(3,4) by simp_all
    then have "take (length bytes) (s @ rest) = bytes" "drop (length bytes) (s @ rest) = concat rx'"
      by (metis append_eq_conv_conj)+
    then have s: "take (length bytes) s = bytes" "concat rx' = drop (length bytes) s @ rest"
      using eq(2) by simp_all
    obtain rx'' where "read_exact (n - length bytes) rx' = (Some (drop (length bytes) s), rx'')"
      "concat rx'' = rest" "open_stream rx''"
      using 1(1) [OF False r [symmetric] step(1) step(4) s(2)] step(1,2) False 1(4) by auto
    moreover have "bytes @ drop (length bytes) s = s" using s(1) by (metis append_take_drop_id)
    ultimately show ?thesis
      using False r step(1) by (subst read_exact.simps) simp
  qed
qed

text \<open>A stream that ends too early makes the reader fail.\<close>

lemma read_exact_short: "length (concat rx) < n \<Longrightarrow> fst (read_exact n rx) = None"
proof (induction n rx rule: read_exact.induct)
  case (1 n rx)
  obtain bytes rx' where r: "recv n rx = (bytes, rx')" by fastforce
  have "length (concat rx') < n - length bytes" if "bytes \<noteq> []"
    using 1(2) r that by (cases rx) (auto split: if_splits)
  then show ?case
    using 1 r by (subst read_exact.simps) (auto split: prod.splits)
qed

lemma wrap_frame_eq: "wrap_frame payload = be_bytes 4 (of_nat (length payload) :: u32) @ payload"
  by (simp add: wrap_frame_def put_u32_eq)

lemma frame_header: "snd (snd (get_u32 (be_bytes 4 v) 0)) = v"
  using get_u32_at [of "be_bytes 4 v" 0 v "[]"] by (simp add: at_def)

lemma read_frame_stream:
  assumes "open_stream rx" and "concat rx = wrap_frame payload @ rest" and "length payload < 2 ^ 32"
  shows "\<exists>rx'. read_frame rx = (Some payload, rx') \<and> concat rx' = rest \<and> open_stream rx'"
proof -
  obtain rx1 where h: "read_exact 4 rx = (Some (be_bytes 4 (of_nat (length payload) :: u32)), rx1)"
    "concat rx1 = payload @ rest" "open_stream rx1"
    using read_exact_stream [OF assms(1), of "be_bytes 4 (of_nat (length payload) :: u32)" "payload @ rest" 4]
      assms(2) by (auto simp: wrap_frame_eq)
  have len: "unat (of_nat (length payload) :: u32) = length payload"
    using assms(3) by (rule unat_of_nat_u32)
  show ?thesis
  proof (cases "payload = []")
    case True
    then show ?thesis using h by (simp add: read_frame_def frame_header Let_def)
  next
    case False
    then have "(of_nat (length payload) :: u32) \<noteq> 0"
      using len by (metis length_0_conv unsigned_0)
    moreover obtain rx' where "read_exact (length payload) rx1 = (Some payload, rx')" "concat rx' = rest" "open_stream rx'"
      using read_exact_stream [OF h(3,2)] by auto
    ultimately show ?thesis
      using h(1) len by (simp add: read_frame_def frame_header Let_def)
  qed
qed

section \<open>Writing\<close>

lemma concat_advance: "concat (advance k bs) = drop k (concat bs)"
  by (induction bs arbitrary: k) auto

lemma write_loop_emits:
  "tot + length (concat bs) = sz \<Longrightarrow> write_loop answer i sz tot bs = (ok, out) \<Longrightarrow>
   prefix out (concat bs) \<and> (ok \<longleftrightarrow> out = concat bs) \<and> ((\<forall>j\<ge>i. 0 < answer j) \<longrightarrow> ok)"
proof (induction answer i sz tot bs arbitrary: out rule: write_loop.induct)
  case (1 answer i sz tot bs)
  let ?k = "nat (writev (answer i) bs)"
  show ?case
  proof (cases "tot < sz \<and> 0 < writev (answer i) bs")
    case True
    obtain out' where o: "write_loop answer (Suc i) sz (tot + ?k) (advance ?k bs) = (ok, out')"
      and out: "out = take ?k (concat bs) @ out'"
      using True 1(3) by (subst (asm) write_loop.simps) (auto simp: Let_def split: prod.splits)
    have k: "?k \<le> length (concat bs)" using True by (simp add: writev_def)
    have pre: "tot + ?k + length (concat (advance ?k bs)) = sz"
      using True k 1(2) by (simp add: concat_advance)
    have "prefix out' (concat (advance ?k bs)) \<and> (ok \<longleftrightarrow> out' = concat (advance ?k bs)) \<and> ((\<forall>j\<ge>Suc i. 0 < answer j) \<longrightarrow> ok)"
      by (rule 1(1) [OF _ refl _ pre o]) (use True in simp_all)
    then have "prefix out' (drop ?k (concat bs))" "ok \<longleftrightarrow> out' = drop ?k (concat bs)" "(\<forall>j\<ge>Suc i. 0 < answer j) \<longrightarrow> ok"
      unfolding concat_advance by blast+
    moreover have "concat bs = take ?k (concat bs) @ drop ?k (concat bs)" by simp
    ultimately show ?thesis
      unfolding out by (metis Suc_leD same_append_eq same_prefix_prefix)
  next
    case False
    then have "tot < sz \<Longrightarrow> \<not> ok \<and> out = [] \<and> concat bs \<noteq> []" "\<not> tot < sz \<Longrightarrow> ok \<and> out = [] \<and> concat bs = []"
      using 1(2,3) by (auto simp: Let_def write_loop.simps [of answer i sz tot bs] split: if_splits)
    moreover have "\<not> 0 < answer i" if "tot < sz"
      using False that 1(2) by (auto simp: writev_def)
    ultimately show ?thesis by (cases "tot < sz") auto
  qed
qed

lemma write_frame_emits:
  assumes "write_frame answer payload = (ok, out)"
  shows "prefix out (wrap_frame payload)" "ok \<longleftrightarrow> out = wrap_frame payload" "(\<And>i. 0 < answer i) \<Longrightarrow> ok"
proof -
  let ?bs = "if payload = [] then [put_u32 [] (of_nat (length payload))] else [put_u32 [] (of_nat (length payload)), payload]"
  have c: "concat ?bs = wrap_frame payload" by (simp add: wrap_frame_def)
  have sz: "0 + length (concat ?bs) = 4 + length payload" by (simp add: c wrap_frame_eq)
  have "write_loop answer 0 (4 + length payload) 0 ?bs = (ok, out)"
    using assms by (simp add: write_frame_def Let_def)
  from write_loop_emits [OF sz this, unfolded c]
  show "prefix out (wrap_frame payload)" "ok \<longleftrightarrow> out = wrap_frame payload" "(\<And>i. 0 < answer i) \<Longrightarrow> ok"
    by blast+
qed

lemma write_frame_whole: "fst (write_frame answer payload) \<Longrightarrow> snd (write_frame answer payload) = wrap_frame payload"
  using write_frame_emits(2) by (metis prod.collapse)

section \<open>Sequences of frames\<close>

fun read_frames :: "nat \<Rightarrow> string list \<Rightarrow> string list option \<times> string list" where
  "read_frames 0 rx = (Some [], rx)"
| "read_frames (Suc n) rx =
     (case read_frame rx of
        (None, rx') \<Rightarrow> (None, rx')
      | (Some p, rx') \<Rightarrow> (case read_frames n rx' of (got, rx'') \<Rightarrow> (map_option ((#) p) got, rx'')))"

lemma read_frames_stream:
  "open_stream rx \<Longrightarrow> concat rx = concat (map wrap_frame ps) @ rest \<Longrightarrow> list_all (\<lambda>p. length p < 2 ^ 32) ps \<Longrightarrow>
   \<exists>rx'. read_frames (length ps) rx = (Some ps, rx') \<and> concat rx' = rest \<and> open_stream rx'"
proof (induction ps arbitrary: rx)
  case (Cons p ps)
  then obtain rx1 where "read_frame rx = (Some p, rx1)" "concat rx1 = concat (map wrap_frame ps) @ rest" "open_stream rx1"
    using read_frame_stream [of rx p "concat (map wrap_frame ps) @ rest"] by auto
  then show ?case using Cons.IH [of rx1] Cons.prems(3) by auto
qed simp

lemma read_exact_sound: "read_exact n rx = (Some s, rx') \<Longrightarrow> concat rx = s @ concat rx' \<and> length s = n"
proof (induction n rx arbitrary: s rule: read_exact.induct)
  case (1 n rx)
  obtain bytes rx1 where r: "recv n rx = (bytes, rx1)" by fastforce
  have c: "concat rx = bytes @ concat rx1 \<and> length bytes \<le> n" if "bytes \<noteq> []"
    using r that by (cases rx) (auto split: if_splits)
  show ?case
  proof (cases "n = 0")
    case True
    then show ?thesis using 1(2) by (simp add: read_exact.simps [of 0 rx])
  next
    case False
    then have ne: "bytes \<noteq> []" using 1(2) r by (auto simp: read_exact.simps [of n rx])
    obtain s' where s': "read_exact (n - length bytes) rx1 = (Some s', rx')" "s = bytes @ s'"
      using 1(2) False r ne by (auto simp: read_exact.simps [of n rx] split: prod.splits)
    show ?thesis using 1(1) [OF False r [symmetric] ne s'(1)] c [OF ne] s'(2) by simp
  qed
qed

lemma get_bytes_enough: "pos + n \<le> length inp \<Longrightarrow> fst (get_bytes n inp pos v)"
  by (induction n arbitrary: pos v) (simp_all add: get_u8_def)

lemma read_frame_sound:
  assumes "read_frame rx = (Some p, rx')"
  shows "concat rx = wrap_frame p @ concat rx' \<and> length p < 2 ^ 32"
proof -
  obtain h rx1 where h: "read_exact 4 rx = (Some h, rx1)"
    using assms by (auto simp: read_frame_def split: prod.splits option.splits)
  have c: "concat rx = h @ concat rx1" "length h = 4" using read_exact_sound [OF h] by auto
  define v where "v = snd (snd (get_u32 h 0))"
  have "get_u32 h 0 = (True, fst (snd (get_u32 h 0)), v)"
    using get_bytes_enough [of 0 4 h "0 :: u32"] c(2) by (simp add: get_u32_def v_def prod_eq_iff)
  from get_u32_inv [OF this] have t: "take (fst (snd (get_u32 h 0))) h = be_bytes 4 v"
    by (auto simp: consumed_def)
  then have "4 = length (take (fst (snd (get_u32 h 0))) h)" by simp
  then have "4 \<le> fst (snd (get_u32 h 0))" using c(2) by simp
  then have "h = be_bytes 4 v" using t c(2) by simp
  have z: "p = [] \<and> rx' = rx1" if "v = 0" using assms h that by (simp add: read_frame_def v_def Let_def)
  have nz: "concat rx1 = p @ concat rx' \<and> length p = unat v" if "v \<noteq> 0"
    using assms h that by (auto simp: read_frame_def v_def Let_def dest!: read_exact_sound)
  have p: "concat rx1 = p @ concat rx' \<and> length p = unat v"
    by (cases "v = 0") (use z in simp, erule nz)
  have "length p < 2 ^ 32" using p unsigned_less [of v] by simp
  then show ?thesis using c(1) p \<open>h = be_bytes 4 v\<close> by (simp add: wrap_frame_eq)
qed

section \<open>Properties\<close>

text \<open>
  C22. Delivery: a sequence of frames, each written with whatever partial writes the socket
  made, is read back as the same sequence of payloads, however the bytes are cut into chunks
  on the way.
\<close>
theorem frames_delivered:
  assumes "length answers = length ps" and "list_all (\<lambda>p. length p < 2 ^ 32) ps"
    and "list_all (\<lambda>(a, p). fst (write_frame a p)) (zip answers ps)"
    and "open_stream rx" and "concat rx = concat (map (\<lambda>(a, p). snd (write_frame a p)) (zip answers ps))"
  shows "\<exists>rx'. read_frames (length ps) rx = (Some ps, rx') \<and> concat rx' = []"
proof -
  have "map (\<lambda>(a, p). snd (write_frame a p)) (zip answers ps) = map (\<lambda>x. wrap_frame (snd x)) (zip answers ps)"
    using assms(3) by (auto simp: list_all_iff write_frame_whole)
  also have "\<dots> = map wrap_frame (map snd (zip answers ps))" by simp
  also have "\<dots> = map wrap_frame ps" using assms(1) by simp
  finally show ?thesis
    using read_frames_stream [of rx ps "[]"] assms(2,4,5) by auto
qed

theorem frames_delivered_witness:
  "\<exists>rx'. read_frames 2 [wrap_frame ''ab'' @ [CHR 0x00], drop 1 (wrap_frame ''c'')] = (Some [''ab'', ''c''], rx') \<and> concat rx' = []"
proof -
  have w: "write_frame (\<lambda>i. 1) ''ab'' = (True, wrap_frame ''ab'')" "write_frame (\<lambda>i. 3) ''c'' = (True, wrap_frame ''c'')"
    by code_simp+
  have c: "wrap_frame ''c'' = [CHR 0x00, CHR 0x00, CHR 0x00, CHR 0x01, CHR ''c'']" by code_simp
  have two: "length [''ab'', ''c''] = 2" by simp
  show ?thesis
    using frames_delivered [of "[\<lambda>i. 1, \<lambda>i. 3]" "[''ab'', ''c'']" "[wrap_frame ''ab'' @ [CHR 0x00], drop 1 (wrap_frame ''c'')]"]
    unfolding two by (simp add: w c open_stream_def del: read_frames.simps)
qed

text \<open>
  Whatever \<^verbatim>\<open>read_frame\<close> accepts was on the wire as a complete frame: the bytes consumed are
  exactly the frame of the payload. So a stream cut inside a frame is never accepted, and no
  byte of a following frame is swallowed.
\<close>
theorem read_frame_exact:
  assumes "read_frame rx = (Some p, rx')"
  shows "concat rx = wrap_frame p @ concat rx' \<and> length p < 2 ^ 32"
  using assms by (rule read_frame_sound)

theorem read_frame_exact_witness:
  "concat [[CHR 0x00, CHR 0x00], [CHR 0x00, CHR 0x01, CHR ''x'', CHR ''y'']] = wrap_frame ''x'' @ ''y''"
proof -
  have "read_frame [[CHR 0x00, CHR 0x00], [CHR 0x00, CHR 0x01, CHR ''x'', CHR ''y'']] = (Some ''x'', [''y''])"
    by code_simp
  from read_frame_exact [OF this] show ?thesis by simp
qed

text \<open>
  For every sequence of answers of the socket, \<^verbatim>\<open>write_frame\<close> ends, what it sent is a prefix of
  the frame, it reports success exactly when the whole frame was sent, and it succeeds when no
  call fails.
\<close>
theorem write_frame_exact:
  "case write_frame answer payload of
     (ok, out) \<Rightarrow> prefix out (wrap_frame payload) \<and> (ok \<longleftrightarrow> out = wrap_frame payload) \<and>
       ((\<forall>i. 0 < answer i) \<longrightarrow> ok)"
  using write_frame_emits [of answer payload] by (auto split: prod.splits)

theorem write_frame_exact_witness:
  "write_frame (\<lambda>i. if i = 2 then - 1 else 3) ''abcd'' = (False, take 6 (wrap_frame ''abcd'')) \<and>
   fst (write_frame (\<lambda>i. 3) ''abcd'')"
proof
  show "write_frame (\<lambda>i. if i = 2 then - 1 else 3) ''abcd'' = (False, take 6 (wrap_frame ''abcd''))" by code_simp
  show "fst (write_frame (\<lambda>i. 3) ''abcd'')"
    using write_frame_exact [where answer = "\<lambda>i. 3" and payload = "''abcd''"] by (auto split: prod.splits)
qed

end
