(* ===== verification/Storage.thy ===== *)
theory Storage
  imports LogSpec
begin

text \<open>
  The storage engine (\<^verbatim>\<open>include/storage/storage_engine.h\<close>,
  \<^verbatim>\<open>src/storage/storage_engine.cpp\<close>): one log per topic and partition, opened on first use and
  kept in a map by key. Each open partition is an append-only log that the others do not see, a
  restart keeps every partition, and the listing of a topic's partitions is exact unless topic
  names clash.
\<close>

section \<open>State and operations\<close>

text \<open>
  \<open>disk\<close> holds the directories of partitions that are not open, by path; the directory of an
  open partition is part of its log.
\<close>

record storage =
  data_directory :: string
  disk :: "(string \<times> dir) list"
  logs :: "(string \<times> log) list"
  engine_segment_size :: u64
  engine_sync_batch :: u64

definition new_storage :: "os \<Rightarrow> (string \<times> dir) list \<Rightarrow> string \<Rightarrow> u64 \<Rightarrow> u64 \<Rightarrow> failure + storage" where
  "new_storage e dirs path max_size batch =
     (if mkdir_ok e
      then Inr \<lparr>data_directory = path, disk = dirs, logs = [], engine_segment_size = max_size,
                engine_sync_batch = batch\<rparr>
      else Inl (Filesystem_error ''create_directories''))"

definition kDefaultSyncBatch :: u64 where
  "kDefaultSyncBatch = 64"

definition make_key :: "string \<Rightarrow> int32 \<Rightarrow> string" where
  "make_key t p = t @ ''-'' @ to_string_int p"

text \<open>The \<^verbatim>\<open>/\<close> of \<^verbatim>\<open>std::filesystem::path\<close>: an absolute right operand replaces the left one.\<close>

definition log_directory_for_key :: "string \<Rightarrow> string \<Rightarrow> string" where
  "log_directory_for_key path key =
     (if key \<noteq> [] \<and> hd key = CHR ''/'' then key
      else if path = [] \<or> last path = CHR ''/'' then path @ key
      else path @ ''/'' @ key)"

definition key_dir :: "storage \<Rightarrow> string \<Rightarrow> dir" where
  "key_dir S key =
     (case map_of (disk S) (log_directory_for_key (data_directory S) key) of Some d \<Rightarrow> d | None \<Rightarrow> [])"

text \<open>A log that cannot be opened is not entered into the map, but its files stay as they are then.\<close>

definition get_or_create_log :: "os \<Rightarrow> string \<Rightarrow> (storage, unit) prog" where
  "get_or_create_log e key S =
     (if map_of (logs S) key \<noteq> None then (Inr (), S)
      else (case log_open e (key_dir S key) (engine_segment_size S) (engine_sync_batch S) of
              (Inr _, L) \<Rightarrow> (Inr (), S\<lparr>logs := AList.update key L (logs S)\<rparr>)
            | (Inl x, L) \<Rightarrow>
                (Inl x, S\<lparr>disk := AList.update (log_directory_for_key (data_directory S) key) (log_dir L) (disk S)\<rparr>)))"

definition on_log :: "string \<Rightarrow> (log, 'a) prog \<Rightarrow> (storage, 'a) prog" where
  "on_log key f S =
     (case map_of (logs S) key of
        None \<Rightarrow> (Inl (Invalid_argument ''KEY NOT FOUND''), S)
      | Some L \<Rightarrow> (case f L of (r, L') \<Rightarrow> (r, S\<lparr>logs := AList.update key L' (logs S)\<rparr>)))"

definition storage_append :: "os \<Rightarrow> string \<Rightarrow> int32 \<Rightarrow> string \<Rightarrow> (storage, u64) prog" where
  "storage_append e t p msg =
     (let key = make_key t p
      in seq (get_or_create_log e key) (\<lambda>_. on_log key (log_append e msg)))"

definition storage_fetch :: "string \<Rightarrow> int32 \<Rightarrow> u64 \<Rightarrow> storage \<Rightarrow> failure + string" where
  "storage_fetch t p offset S =
     (case map_of (logs S) (make_key t p) of
        None \<Rightarrow> Inl (Invalid_argument ''KEY NOT FOUND'')
      | Some L \<Rightarrow> log_fetch offset L)"

definition storage_flush :: "os \<Rightarrow> string \<Rightarrow> int32 \<Rightarrow> (storage, unit) prog" where
  "storage_flush e t p S =
     (if map_of (logs S) (make_key t p) = None then ret () S
      else on_log (make_key t p) (log_flush e) S)"

definition flush_all :: "os \<Rightarrow> (storage, unit) prog" where
  "flush_all e S = for_each (\<lambda>key. on_log key (log_flush e)) (map fst (logs S)) S"

definition has_log :: "string \<Rightarrow> int32 \<Rightarrow> storage \<Rightarrow> bool" where
  "has_log t p S \<longleftrightarrow> map_of (logs S) (make_key t p) \<noteq> None"

definition key_partition :: "string \<Rightarrow> string \<Rightarrow> int32 list" where
  "key_partition t key =
     (let pre = t @ ''-''
      in if take (length pre) key = pre
         then (case stoi (drop (length pre) key) of Inr i \<Rightarrow> [i] | Inl _ \<Rightarrow> [])
         else [])"

definition partitions_for_topic :: "string \<Rightarrow> storage \<Rightarrow> int32 list" where
  "partitions_for_topic t S = sort (concat (map (\<lambda>entry. key_partition t (fst entry)) (logs S)))"

section \<open>Keys\<close>

lemma make_key_inject:
  assumes "0 \<le> val32 p" and "0 \<le> val32 q"
  shows "make_key t p = make_key u q \<longleftrightarrow> t = u \<and> p = q"
proof
  assume "make_key t p = make_key u q"
  then have "t @ CHR ''-'' # to_string_int p = u @ CHR ''-'' # to_string_int q"
    by (simp add: make_key_def)
  from split_at_last [OF this] show "t = u \<and> p = q"
    using assms to_string_int_no_dash to_string_int_inject by auto
qed simp

section \<open>The abstract view\<close>

text \<open>The records of a partition: those of its open log, or those its directory opens to.\<close>

definition stored :: "storage \<Rightarrow> string \<Rightarrow> int32 \<Rightarrow> string list" where
  "stored S t p =
     (case map_of (logs S) (make_key t p) of
        Some L \<Rightarrow> log_records L
      | None \<Rightarrow> log_records (snd (log_open healthy_os (key_dir S (make_key t p)) (engine_segment_size S) (engine_sync_batch S))))"

definition opens :: "u64 \<Rightarrow> u64 \<Rightarrow> dir \<Rightarrow> bool" where
  "opens mx bt d \<longleftrightarrow> fst (log_open healthy_os d mx bt) = Inr () \<and> wf_log (snd (log_open healthy_os d mx bt))"

definition wf_storage :: "storage \<Rightarrow> bool" where
  "wf_storage S \<longleftrightarrow> distinct (map fst (logs S)) \<and>
     (\<forall>key L. map_of (logs S) key = Some L \<longrightarrow> wf_log L) \<and>
     (\<forall>key. map_of (logs S) key = None \<longrightarrow> opens (engine_segment_size S) (engine_sync_batch S) (key_dir S key))"

lemma opens_fresh: "opens mx bt []"
proof -
  have "tidy []" "segment_files 0 []" by (simp_all add: tidy_def segment_files_def)
  from wf_log_open_fresh [OF healthy_healthy_os this, of mx bt] show ?thesis
    by (auto simp: opens_def)
qed

lemma opens_reopened:
  "wf_log L \<Longrightarrow> length (segments L) \<le> 10 \<Longrightarrow> list_all replayable (log_records L) \<Longrightarrow> opens mx bt (log_dir L)"
  using wf_log_reopen [of L healthy_os mx bt] by (auto simp: opens_def)

lemma wf_storage_open:
  assumes wf: "wf_storage S" and e: "healthy e"
  shows "\<exists>S' L. get_or_create_log e (make_key t p) S = (Inr (), S') \<and> wf_storage S' \<and>
    map_of (logs S') (make_key t p) = Some L \<and> wf_log L \<and> log_records L = stored S t p \<and>
    (\<forall>u q. stored S' u q = stored S u q) \<and>
    S' = S\<lparr>logs := logs S'\<rparr> \<and> (\<forall>key. key \<noteq> make_key t p \<longrightarrow> map_of (logs S') key = map_of (logs S) key)"
proof (cases "map_of (logs S) (make_key t p)")
  case (Some L)
  then show ?thesis
    using wf by (intro exI [of _ S] exI [of _ L]) (auto simp: get_or_create_log_def wf_storage_def stored_def)
next
  case None
  let ?key = "make_key t p"
  let ?open = "log_open healthy_os (key_dir S ?key) (engine_segment_size S) (engine_sync_batch S)"
  have o: "fst ?open = Inr ()" "wf_log (snd ?open)"
    using wf None by (auto simp: wf_storage_def opens_def)
  define S' where "S' = S\<lparr>logs := AList.update ?key (snd ?open) (logs S)\<rparr>"
  have run: "get_or_create_log e ?key S = (Inr (), S')"
    using None o(1) healthy_unique [OF e] by (auto simp: get_or_create_log_def S'_def split: prod.splits)
  have "wf_storage S'"
    using wf o(2) by (auto simp: wf_storage_def S'_def key_dir_def distinct_update split: if_splits)
  moreover have "stored S' u q = stored S u q" for u q
    using None by (auto simp: stored_def S'_def key_dir_def split: option.splits)
  ultimately show ?thesis
    using run o(2) None
    by (intro exI [of _ S'] exI [of _ "snd ?open"]) (auto simp: S'_def stored_def)
qed

lemma wf_storage_append:
  assumes wf: "wf_storage S" and e: "healthy e" and room: "roomy (stored S t p @ [m])"
  shows "\<exists>S'. storage_append e t p m S = (Inr (of_nat (length (stored S t p))), S') \<and> wf_storage S' \<and>
    stored S' t p = stored S t p @ [m] \<and> has_log t p S' \<and>
    (\<forall>u q. make_key u q \<noteq> make_key t p \<longrightarrow> stored S' u q = stored S u q \<and> has_log u q S' = has_log u q S)"
proof -
  let ?key = "make_key t p"
  obtain S1 L where S1: "get_or_create_log e ?key S = (Inr (), S1)" "wf_storage S1"
    "map_of (logs S1) ?key = Some L" "wf_log L" "log_records L = stored S t p"
    "\<forall>u q. stored S1 u q = stored S u q"
    "\<forall>key. key \<noteq> ?key \<longrightarrow> map_of (logs S1) key = map_of (logs S) key"
    using wf_storage_open [OF wf e] by blast
  obtain L' where L': "log_append e m L = (Inr (of_nat (length (stored S t p))), L')" "wf_log L'"
    "log_records L' = stored S t p @ [m]"
    using wf_log_append [OF S1(4) e] room S1(5) by metis
  define S' where "S' = S1\<lparr>logs := AList.update ?key L' (logs S1)\<rparr>"
  have run: "storage_append e t p m S = (Inr (of_nat (length (stored S t p))), S')"
    using S1(1,3) L'(1) by (simp add: storage_append_def Let_def seq_def on_log_def S'_def)
  have "wf_storage S'"
    using S1(2,3) L'(2) by (auto simp: wf_storage_def S'_def key_dir_def distinct_update split: if_splits)
  moreover have "stored S' t p = stored S t p @ [m]" "has_log t p S'"
    using L'(3) by (simp_all add: stored_def has_log_def S'_def)
  moreover have "stored S' u q = stored S u q \<and> has_log u q S' = has_log u q S" if "make_key u q \<noteq> ?key" for u q
  proof -
    have "stored S' u q = stored S1 u q"
      using that by (simp add: stored_def S'_def key_dir_def split: option.split)
    then show ?thesis using S1(6,7) that by (simp add: has_log_def S'_def)
  qed
  ultimately show ?thesis using run by blast
qed

lemma wf_storage_fetch:
  "wf_storage S \<Longrightarrow> has_log t p S \<Longrightarrow> storage_fetch t p off S = fetch_spec (stored S t p) off"
  by (auto simp: storage_fetch_def has_log_def stored_def wf_storage_def wf_log_fetch)

definition open_partition :: "string \<Rightarrow> int32 \<Rightarrow> storage \<Rightarrow> bool" where
  "open_partition t p S \<longleftrightarrow> wf_storage S \<and> has_log t p S"

text \<open>Every open partition of the engine is an append-only log.\<close>

interpretation part: append_only_log "open_partition t p" "\<lambda>S. stored S t p" "storage_append healthy_os t p" "storage_fetch t p"
  for t p
proof
  fix S m assume "open_partition t p S" "roomy (stored S t p @ [m])"
  then show "\<exists>S'. storage_append healthy_os t p m S = (Inr (of_nat (length (stored S t p))), S') \<and>
      open_partition t p S' \<and> stored S' t p = stored S t p @ [m]"
    using wf_storage_append [of S healthy_os t p m] by (auto simp: open_partition_def)
qed (simp add: open_partition_def wf_storage_fetch)


section \<open>Listing the partitions of a topic\<close>

definition named_keys :: "storage \<Rightarrow> bool" where
  "named_keys S \<longleftrightarrow> (\<forall>key\<in>set (map fst (logs S)). \<exists>u q. 0 \<le> val32 q \<and> key = make_key u q)"

lemma key_partition_own:
  assumes "0 \<le> val32 q"
  shows "key_partition t (make_key t q) = [q]"
  using stoi_to_string_int [OF assms, of "[]"] by (simp add: key_partition_def make_key_def Let_def)

lemma key_partition_other:
  assumes q: "0 \<le> val32 q" and u: "u \<noteq> t" "take (Suc (length t)) u \<noteq> t @ ''-''"
  shows "key_partition t (make_key u q) = []"
proof -
  have "take (Suc (length t)) (make_key u q) \<noteq> t @ ''-''"
  proof
    assume pre: "take (Suc (length t)) (make_key u q) = t @ ''-''"
    then have lt: "length t < length u"
    proof (rule_tac ccontr)
      assume "\<not> length t < length u"
      then have le: "length u \<le> length t" by simp
      have eq: "t @ CHR ''-'' # drop (Suc (length t)) (make_key u q) = u @ CHR ''-'' # to_string_int q"
        using pre append_take_drop_id [of "Suc (length t)" "make_key u q"] by (simp add: make_key_def)
      then obtain v where v: "t = u @ v" using le by (auto simp: append_eq_append_conv2)
      have "v \<noteq> []" using v u(1) by auto
      with eq v have "CHR ''-'' \<in> set (to_string_int q)"
        by (cases v) (auto, metis in_set_conv_decomp)
      with to_string_int_no_dash [OF q] show False by simp
    qed
    with pre u(2) show False by (simp add: make_key_def)
  qed
  then show ?thesis by (simp add: key_partition_def)
qed

text \<open>No other topic whose name continues this one with a dash.\<close>

definition unambiguous :: "string \<Rightarrow> storage \<Rightarrow> bool" where
  "unambiguous t S \<longleftrightarrow> (\<forall>u q. 0 \<le> val32 q \<longrightarrow> has_log u q S \<longrightarrow> u \<noteq> t \<longrightarrow> take (Suc (length t)) u \<noteq> t @ ''-'')"

lemma key_partition_named:
  assumes "key \<in> set (map fst (logs S))" and "named_keys S" and "unambiguous t S"
  obtains u q where "0 \<le> val32 q" "key = make_key u q" "key_partition t key = (if u = t then [q] else [])"
proof -
  obtain u q where q: "0 \<le> val32 q" "key = make_key u q"
    using assms(1,2) unfolding named_keys_def by blast
  have "has_log u q S" using assms(1) q(2) by (auto simp: has_log_def map_of_eq_None_iff)
  then have "key_partition t key = (if u = t then [q] else [])"
    using q assms(3) key_partition_own key_partition_other by (auto simp: unambiguous_def)
  with q that show thesis by blast
qed

lemma key_partitions_distinct:
  assumes "named_keys S" and "unambiguous t S"
  shows "set ks \<subseteq> set (map fst (logs S)) \<Longrightarrow> distinct ks \<Longrightarrow> distinct (concat (map (key_partition t) ks))"
proof (induction ks)
  case (Cons k ks)
  have "k \<in> set (map fst (logs S))" using Cons.prems(1) by simp
  then obtain u q where q: "k = make_key u q" "key_partition t k = (if u = t then [q] else [])"
    using assms by (rule key_partition_named)
  have "q \<notin> set (key_partition t k')" if k': "k' \<in> set ks" "u = t" for k'
  proof
    assume in': "q \<in> set (key_partition t k')"
    have "k' \<in> set (map fst (logs S))" using Cons.prems(1) k'(1) by auto
    then obtain u' q' where "k' = make_key u' q'" "key_partition t k' = (if u' = t then [q'] else [])"
      using assms by (rule key_partition_named)
    then have "k' = k" using in' q(1) k'(2) by (auto split: if_splits)
    then show False using k'(1) Cons.prems(2) by simp
  qed
  then show ?case using Cons q(2) by auto
qed simp

lemma partitions_exact:
  assumes wf: "distinct (map fst (logs S))" and nk: "named_keys S" and un: "unambiguous t S"
  shows "set (partitions_for_topic t S) = {p. 0 \<le> val32 p \<and> has_log t p S}"
    and "distinct (partitions_for_topic t S)" and "sorted (partitions_for_topic t S)"
proof -
  let ?ks = "map fst (logs S)"
  have parts: "partitions_for_topic t S = sort (concat (map (key_partition t) ?ks))"
    by (simp add: partitions_for_topic_def comp_def)
  have has: "has_log u q S \<longleftrightarrow> make_key u q \<in> set ?ks" for u q
    by (auto simp: has_log_def map_of_eq_None_iff)
  have "p \<in> set (partitions_for_topic t S) \<longleftrightarrow> 0 \<le> val32 p \<and> has_log t p S" for p
  proof
    assume "p \<in> set (partitions_for_topic t S)"
    then obtain k where k: "k \<in> set ?ks" "p \<in> set (key_partition t k)" unfolding parts by auto
    from k(1) nk un obtain u q where "0 \<le> val32 q" "k = make_key u q" "key_partition t k = (if u = t then [q] else [])"
      by (rule key_partition_named)
    then show "0 \<le> val32 p \<and> has_log t p S" using k by (auto simp: has split: if_splits)
  next
    assume "0 \<le> val32 p \<and> has_log t p S"
    then have "make_key t p \<in> set ?ks" "p \<in> set (key_partition t (make_key t p))"
      by (simp_all only: has key_partition_own list.set insert_iff simp_thms)
    then show "p \<in> set (partitions_for_topic t S)" unfolding parts by force
  qed
  then show "set (partitions_for_topic t S) = {p. 0 \<le> val32 p \<and> has_log t p S}" by blast
  show "distinct (partitions_for_topic t S)"
    using key_partitions_distinct [OF nk un order_refl wf] by (simp add: parts)
  show "sorted (partitions_for_topic t S)" by (simp add: partitions_for_topic_def)
qed

section \<open>Flushing and restarting\<close>

lemma wf_storage_on_log:
  assumes "wf_storage S" and "map_of (logs S) key = Some L" and "f L = (r, L')" and "wf_log L'"
    and "log_records L' = log_records L"
  shows "\<exists>S'. on_log key f S = (r, S') \<and> wf_storage S' \<and> (\<forall>t p. stored S' t p = stored S t p) \<and>
    map_of (logs S') = (map_of (logs S))(key \<mapsto> L') \<and> map fst (logs S') = map fst (logs S)"
proof -
  define S' where "S' = S\<lparr>logs := AList.update key L' (logs S)\<rparr>"
  have "map fst (logs S') = map fst (logs S)"
    using assms(2) by (simp add: S'_def update_keys) (metis domI domIff map_of_eq_None_iff)
  moreover have "wf_storage S'"
    using assms(1,4) by (auto simp: wf_storage_def S'_def key_dir_def distinct_update split: if_splits)
  moreover have "stored S' t p = stored S t p" for t p
    using assms(2,5) by (simp add: stored_def S'_def key_dir_def split: option.split)
  ultimately show ?thesis using assms(2,3) by (auto simp: on_log_def S'_def)
qed

lemma flush_each:
  assumes e: "healthy e"
  shows "wf_storage S \<Longrightarrow> set keys \<subseteq> set (map fst (logs S)) \<Longrightarrow>
    \<exists>S'. for_each (\<lambda>key. on_log key (log_flush e)) keys S = (Inr (), S') \<and> wf_storage S' \<and>
      (\<forall>t p. stored S' t p = stored S t p) \<and> map fst (logs S') = map fst (logs S) \<and>
      (\<forall>key L. map_of (logs S') key = Some L \<longrightarrow>
         (if key \<in> set keys then pending_appends L = 0 else map_of (logs S) key = Some L))"
proof (induction keys arbitrary: S)
  case Nil
  then show ?case by (simp add: ret_def)
next
  case (Cons key keys)
  then obtain L where L: "map_of (logs S) key = Some L"
    by (metis insertI1 list.set(2) map_of_eq_None_iff not_None_eq set_map subsetD)
  then have "wf_log L" using Cons.prems(1) by (auto simp: wf_storage_def)
  then obtain L' where L': "log_flush e L = (Inr (), L')" "wf_log L'" "log_records L' = log_records L" "pending_appends L' = 0"
    using wf_log_flush [OF _ e] by blast
  obtain S1 where S1: "on_log key (log_flush e) S = (Inr (), S1)" "wf_storage S1"
    "\<forall>t p. stored S1 t p = stored S t p" "map_of (logs S1) = (map_of (logs S))(key \<mapsto> L')"
    "map fst (logs S1) = map fst (logs S)"
    using wf_storage_on_log [where f = "log_flush e", OF Cons.prems(1) L L'(1-3)] by blast
  obtain S' where S': "for_each (\<lambda>key. on_log key (log_flush e)) keys S1 = (Inr (), S')" "wf_storage S'"
    "\<forall>t p. stored S' t p = stored S1 t p" "map fst (logs S') = map fst (logs S1)"
    "\<forall>k L. map_of (logs S') k = Some L \<longrightarrow> (if k \<in> set keys then pending_appends L = 0 else map_of (logs S1) k = Some L)"
    using Cons.IH [OF S1(2)] Cons.prems(2) S1(5) by auto
  have run: "for_each (\<lambda>key. on_log key (log_flush e)) (key # keys) S = (Inr (), S')"
    using S1(1) S'(1) by (simp add: seq_def)
  have "if k \<in> set (key # keys) then pending_appends K = 0 else map_of (logs S) k = Some K"
    if "map_of (logs S') k = Some K" for k K
    using S'(5) that S1(4) L'(4) by (auto split: if_splits)
  then show ?case
    using run S'(2,3,4) S1(3,5) by (intro exI [of _ S']) auto
qed


text \<open>What is on disk when the process has gone: the directories of the open logs as they are.\<close>

definition disk_after :: "storage \<Rightarrow> (string \<times> dir) list" where
  "disk_after S =
     foldr (\<lambda>(key, L). AList.update (log_directory_for_key (data_directory S) key) (log_dir L)) (logs S) (disk S)"

definition relative_key :: "string \<Rightarrow> bool" where
  "relative_key key \<longleftrightarrow> key = [] \<or> hd key \<noteq> CHR ''/''"

lemma log_directory_inject:
  "relative_key a \<Longrightarrow> relative_key b \<Longrightarrow> log_directory_for_key path a = log_directory_for_key path b \<longleftrightarrow> a = b"
  by (auto simp: relative_key_def log_directory_for_key_def split: if_splits)

lemma overlay_lookup:
  assumes "relative_key key"
  shows "\<forall>k\<in>set (map fst ls). relative_key k \<Longrightarrow>
    map_of (foldr (\<lambda>(k, L). AList.update (log_directory_for_key path k) (log_dir L)) ls d) (log_directory_for_key path key) =
      (case map_of ls key of Some L \<Rightarrow> Some (log_dir L) | None \<Rightarrow> map_of d (log_directory_for_key path key))"
  using assms by (induction ls) (auto simp: log_directory_inject)

lemma overlay_cases:
  "(\<exists>k L. (k, L) \<in> set ls \<and>
      map_of (foldr (\<lambda>(k, L). AList.update (log_directory_for_key path k) (log_dir L)) ls d) x = Some (log_dir L)) \<or>
   (\<forall>k\<in>set (map fst ls). log_directory_for_key path k \<noteq> x) \<and>
      map_of (foldr (\<lambda>(k, L). AList.update (log_directory_for_key path k) (log_dir L)) ls d) x = map_of d x"
proof (induction ls)
  case (Cons a ls)
  obtain k L where a: "a = (k, L)" by fastforce
  show ?case
  proof (cases "log_directory_for_key path k = x")
    case True
    then show ?thesis by (intro disjI1 exI [of _ k] exI [of _ L]) (simp add: a)
  next
    case False
    then show ?thesis using Cons.IH by (auto simp: a)
  qed
qed simp

lemma storage_restart:
  assumes wf: "wf_storage S" and rel: "\<forall>key\<in>set (map fst (logs S)). relative_key key"
    and few: "\<forall>L\<in>set (map snd (logs S)). length (segments L) \<le> 10 \<and> list_all replayable (log_records L)"
    and e: "mkdir_ok e"
  shows "\<exists>S'. new_storage e (disk_after S) (data_directory S) (engine_segment_size S) (engine_sync_batch S) = Inr S' \<and>
    wf_storage S' \<and> (\<forall>t p. relative_key (make_key t p) \<longrightarrow> stored S' t p = stored S t p)"
proof -
  define S' where "S' = \<lparr>data_directory = data_directory S, disk = disk_after S, logs = [],
     engine_segment_size = engine_segment_size S, engine_sync_batch = engine_sync_batch S\<rparr>"
  have dist: "distinct (map fst (logs S))" using wf by (simp add: wf_storage_def)
  have opens: "opens mx bt (log_dir L)" "wf_log L" if "(key, L) \<in> set (logs S)" for key L mx bt
  proof -
    show "wf_log L" using wf that dist by (auto simp: wf_storage_def map_of_eq_Some_iff)
    then show "opens mx bt (log_dir L)" using few that by (intro opens_reopened) force+
  qed
  have "opens (engine_segment_size S) (engine_sync_batch S) (key_dir S' key)" for key
  proof -
    let ?x = "log_directory_for_key (data_directory S) key"
    consider (live) k L where "(k, L) \<in> set (logs S)" "map_of (disk_after S) ?x = Some (log_dir L)"
      | (idle) "\<forall>k\<in>set (map fst (logs S)). log_directory_for_key (data_directory S) k \<noteq> ?x"
          "map_of (disk_after S) ?x = map_of (disk S) ?x"
      using overlay_cases [of "logs S" "data_directory S" "disk S" ?x] unfolding disk_after_def by blast
    then show ?thesis
    proof cases
      case live
      then show ?thesis using opens(1) by (simp add: key_dir_def S'_def)
    next
      case idle
      then have "map_of (logs S) key = None" by (auto simp: map_of_eq_None_iff)
      then show ?thesis using wf idle(2) by (auto simp: wf_storage_def key_dir_def S'_def)
    qed
  qed
  then have "wf_storage S'" by (simp add: wf_storage_def S'_def)
  moreover have "stored S' t p = stored S t p" if r: "relative_key (make_key t p)" for t p
  proof (cases "map_of (logs S) (make_key t p)")
    case None
    then have "key_dir S' (make_key t p) = key_dir S (make_key t p)"
      using overlay_lookup [OF r rel, of "data_directory S" "disk S"] by (simp add: key_dir_def S'_def disk_after_def)
    then show ?thesis using None by (simp add: stored_def S'_def)
  next
    case (Some L)
    then have kd: "key_dir S' (make_key t p) = log_dir L"
      using overlay_lookup [OF r rel, of "data_directory S" "disk S"] by (simp add: key_dir_def S'_def disk_after_def)
    have L: "wf_log L" "length (segments L) \<le> 10" "list_all replayable (log_records L)"
      using Some opens(2) few map_of_SomeD by force+
    have "log_records (snd (log_open healthy_os (log_dir L) (engine_segment_size S) (engine_sync_batch S))) = log_records L"
      using wf_log_reopen [OF L(1) healthy_healthy_os L(2,3), of "engine_segment_size S" "engine_sync_batch S"] by auto
    then show ?thesis using Some kd by (simp add: stored_def S'_def)
  qed
  ultimately show ?thesis using e by (simp add: new_storage_def S'_def)
qed

lemma wf_new_storage:
  assumes "new_storage e [] path mx bt = Inr S"
  shows "wf_storage S" "stored S t p = []" "logs S = []"
proof -
  have S: "S = \<lparr>data_directory = path, disk = [], logs = [], engine_segment_size = mx, engine_sync_batch = bt\<rparr>"
    using assms by (simp add: new_storage_def split: if_splits)
  have "tidy []" "segment_files 0 []" by (simp_all add: tidy_def segment_files_def)
  from wf_log_open_fresh [OF healthy_healthy_os this, of mx bt]
  show "stored S t p = []" by (auto simp: S stored_def key_dir_def)
  show "wf_storage S" "logs S = []" using opens_fresh by (simp_all add: S wf_storage_def key_dir_def)
qed

section \<open>Properties\<close>

text \<open>A fresh engine, and the same engine with one record in partition 0 of one topic.\<close>

definition sample_storage :: storage where
  "sample_storage = projr (new_storage healthy_os [] ''data'' 100 64)"

definition sample_storage_1 :: storage where
  "sample_storage_1 = snd (storage_append healthy_os ''t'' (int32_of 0) ''m'' sample_storage)"

lemma sample_storage_wf: "wf_storage sample_storage" "stored sample_storage t p = []" "logs sample_storage = []"
proof -
  have "new_storage healthy_os [] ''data'' 100 64 = Inr sample_storage"
    by (simp add: sample_storage_def new_storage_def healthy_os_def)
  from wf_new_storage [OF this]
  show "wf_storage sample_storage" "stored sample_storage t p = []" "logs sample_storage = []" .
qed

lemma sample_storage_1_wf:
  "wf_storage sample_storage_1" "stored sample_storage_1 ''t'' (int32_of 0) = [''m'']"
  "has_log ''t'' (int32_of 0) sample_storage_1"
  using wf_storage_append [OF sample_storage_wf(1) healthy_healthy_os, of "''t''" "int32_of 0" "''m''"]
  by (auto simp: sample_storage_wf roomy_def sample_storage_1_def)

lemma val32_small [simp]: "val32 (int32_of 0) = 0" "val32 (int32_of 1) = 1"
  by (simp_all add: val32_int32_of)

lemma sample_storage_1_keys: "map fst (logs sample_storage_1) = [''t-0'']"
  by code_simp

lemma sample_storage_1_logs:
  "map (length \<circ> segments \<circ> snd) (logs sample_storage_1) = [1]"
  by code_simp



text \<open>
  In an open partition a run of appends can be read back at the offsets it returned, and
  every offset readable before reads the same message afterwards.
\<close>
theorem storage_append_all_readable:
  assumes "wf_storage S" and "has_log t p S" and "roomy (stored S t p @ ms)"
  shows "\<exists>offs S'. append_all (storage_append healthy_os t p) ms S = (Inr offs, S') \<and> length offs = length ms \<and>
    (\<forall>i<length ms. storage_fetch t p (offs ! i) S' = Inr (ms ! i)) \<and>
    (\<forall>off x. storage_fetch t p off S = Inr x \<longrightarrow> storage_fetch t p off S' = Inr x)"
  using assms by (intro part.append_all_then_fetch) (simp_all add: open_partition_def)

theorem storage_append_all_readable_witness:
  "has_log ''t'' (int32_of 0) sample_storage_1 \<and>
   (\<exists>offs S'. append_all (storage_append healthy_os ''t'' (int32_of 0)) [''n''] sample_storage_1 = (Inr offs, S') \<and>
      storage_fetch ''t'' (int32_of 0) (offs ! 0) S' = Inr ''n'' \<and> storage_fetch ''t'' (int32_of 0) 0 S' = Inr ''m'')"
proof -
  have "storage_fetch ''t'' (int32_of 0) 0 sample_storage_1 = Inr ''m''"
    by (simp add: wf_storage_fetch sample_storage_1_wf fetch_spec_def)
  then show ?thesis
    using storage_append_all_readable [of sample_storage_1 "''t''" "int32_of 0" "[''n'']"]
    by (fastforce simp: sample_storage_1_wf roomy_def)
qed

text \<open>
  C18. Listing the partitions of a topic gives exactly the partitions that have an open log, each
  once and in ascending order, provided no open topic continues the name with a dash.
\<close>
theorem partitions_for_topic_exact:
  assumes "wf_storage S" and "named_keys S" and "unambiguous t S"
  shows "set (partitions_for_topic t S) = {p. 0 \<le> val32 p \<and> has_log t p S} \<and>
    distinct (partitions_for_topic t S) \<and> sorted (partitions_for_topic t S)"
  using assms partitions_exact [of S t] by (auto simp: wf_storage_def)

theorem partitions_for_topic_exact_witness:
  "named_keys sample_storage_1 \<and> unambiguous ''t'' sample_storage_1 \<and>
   int32_of 0 \<in> set (partitions_for_topic ''t'' sample_storage_1)"
proof -
  have key: "''t-0'' = make_key ''t'' (int32_of 0)" by code_simp
  have nk: "named_keys sample_storage_1"
    unfolding named_keys_def sample_storage_1_keys by (auto simp: key intro!: exI [of _ "''t''"] exI [of _ "int32_of 0"])
  have "has_log u q sample_storage_1 \<Longrightarrow> make_key u q \<in> set (map fst (logs sample_storage_1))" for u q
    by (auto simp: has_log_def map_of_eq_None_iff)
  then have "u = ''t''" if "has_log u q sample_storage_1" "0 \<le> val32 q" for u q
    using that make_key_inject [OF that(2), of "int32_of 0" u "''t''"] unfolding sample_storage_1_keys by (auto simp: key)
  then have un: "unambiguous ''t'' sample_storage_1" by (auto simp: unambiguous_def)
  show ?thesis
    using partitions_for_topic_exact [OF sample_storage_1_wf(1) nk un] nk un sample_storage_1_wf(3) by auto
qed



text \<open>
  Flushing all logs on a working disk succeeds, keeps the records of every partition and
  leaves no append pending in any log.
\<close>
theorem flush_all_settles:
  assumes "wf_storage S" and "healthy e"
  shows "\<exists>S'. flush_all e S = (Inr (), S') \<and> wf_storage S' \<and> (\<forall>t p. stored S' t p = stored S t p) \<and>
    (\<forall>L\<in>set (map snd (logs S')). pending_appends L = 0)"
proof -
  obtain S' where S': "flush_all e S = (Inr (), S')" "wf_storage S'" "\<forall>t p. stored S' t p = stored S t p"
    "map fst (logs S') = map fst (logs S)"
    "\<forall>key L. map_of (logs S') key = Some L \<longrightarrow>
       (if key \<in> set (map fst (logs S)) then pending_appends L = 0 else map_of (logs S) key = Some L)"
    using flush_each [OF assms(2,1) order_refl] unfolding flush_all_def by blast
  have "pending_appends L = 0" if "(key, L) \<in> set (logs S')" for key L
  proof -
    have "map_of (logs S') key = Some L" using that S'(2) by (simp add: wf_storage_def)
    moreover have "key \<in> set (map fst (logs S))" using that unfolding S'(4) [symmetric] by force
    ultimately show ?thesis using S'(5) by presburger
  qed
  then show ?thesis using S'(1-3) by auto
qed

theorem flush_all_settles_witness:
  "\<exists>S'. flush_all healthy_os sample_storage_1 = (Inr (), S') \<and> stored S' ''t'' (int32_of 0) = [''m''] \<and>
     (\<forall>L\<in>set (map snd (logs S')). pending_appends L = 0)"
  using flush_all_settles [OF sample_storage_1_wf(1) healthy_healthy_os] sample_storage_1_wf(2) by auto


end
