(* ===== verification/ConsumerGroups.thy ===== *)
theory ConsumerGroups
  imports Prelude
begin

text \<open>
  Consumer groups (\<^verbatim>\<open>include/core/consumer_group_manager.h\<close>,
  \<^verbatim>\<open>src/core/consumer_group_manager.cpp\<close>): membership, round-robin assignment of partitions and
  committed offsets. The manager is a state machine whose steps are its methods; its invariant
  is that a partition has at most one owner in a group, and offsets only grow.
\<close>

section \<open>State and operations\<close>

text \<open>The members are a \<^verbatim>\<open>std::set\<close>: an ascending list without duplicates.\<close>

record group =
  group_topic :: string
  members :: "string list"
  assignments :: "(string \<times> int32 list) list"
  offsets :: "(int32 \<times> u64) list"

type_synonym groups = "(string \<times> group) list"

definition empty_group :: group where
  "empty_group = \<lparr>group_topic = [], members = [], assignments = [], offsets = []\<rparr>"

definition assigned :: "group \<Rightarrow> string \<Rightarrow> int32 list" where
  "assigned g m = (case map_of (assignments g) m of Some ps \<Rightarrow> ps | None \<Rightarrow> [])"

text \<open>The loop that deals the partitions out, the \<open>i\<close>-th to the member at position \<open>i mod n\<close>.\<close>

fun deal :: "string list \<Rightarrow> nat \<Rightarrow> int32 list \<Rightarrow> (string \<times> int32 list) list \<Rightarrow> (string \<times> int32 list) list" where
  "deal ms i [] a = a"
| "deal ms i (p # ps) a =
     (let m = ms ! (i mod length ms)
      in deal ms (i + 1) ps (AList.update m ((case map_of a m of Some l \<Rightarrow> l | None \<Rightarrow> []) @ [p]) a))"

definition rebalance :: "int32 list \<Rightarrow> group \<Rightarrow> group" where
  "rebalance ps g =
     (let a = map (\<lambda>m. (m, [])) (members g)
      in if members g = [] then g\<lparr>assignments := a\<rparr>
         else g\<lparr>assignments := deal (members g) 0 (sort ps) a\<rparr>)"

definition join :: "string \<Rightarrow> string \<Rightarrow> string \<Rightarrow> int32 list \<Rightarrow> groups \<Rightarrow> int32 list \<times> groups" where
  "join name m t ps gs =
     (let g = (case map_of gs name of Some g \<Rightarrow> g | None \<Rightarrow> empty_group);
          g = (if group_topic g = [] then g\<lparr>group_topic := t\<rparr> else g)
      in if group_topic g \<noteq> t then ([], AList.update name g gs)
         else (let g = rebalance ps (g\<lparr>members := insort_insert m (members g)\<rparr>)
               in (assigned g m, AList.update name g gs)))"

definition leave :: "string \<Rightarrow> string \<Rightarrow> int32 list \<Rightarrow> groups \<Rightarrow> groups" where
  "leave name m ps gs =
     (case map_of gs name of
        None \<Rightarrow> gs
      | Some g \<Rightarrow>
          (let g = g\<lparr>members := removeAll m (members g)\<rparr>
           in if members g = [] then AList.delete name gs
              else AList.update name (rebalance ps g) gs))"

definition is_assigned :: "string \<Rightarrow> string \<Rightarrow> string \<Rightarrow> int32 \<Rightarrow> groups \<Rightarrow> bool" where
  "is_assigned name m t p gs =
     (case map_of gs name of
        None \<Rightarrow> False
      | Some g \<Rightarrow>
          if group_topic g \<noteq> t then False
          else (case map_of (assignments g) m of None \<Rightarrow> False | Some ps \<Rightarrow> p \<in> set ps))"

definition group_next_offset :: "string \<Rightarrow> string \<Rightarrow> int32 \<Rightarrow> groups \<Rightarrow> u64" where
  "group_next_offset name t p gs =
     (case map_of gs name of
        None \<Rightarrow> 0
      | Some g \<Rightarrow>
          if group_topic g \<noteq> t then 0
          else (case map_of (offsets g) p of None \<Rightarrow> 0 | Some off \<Rightarrow> off))"

definition commit :: "string \<Rightarrow> string \<Rightarrow> string \<Rightarrow> int32 \<Rightarrow> u64 \<Rightarrow> groups \<Rightarrow> bool \<times> groups" where
  "commit name m t p off gs =
     (case map_of gs name of
        None \<Rightarrow> (False, gs)
      | Some g \<Rightarrow>
          if group_topic g \<noteq> t then (False, gs)
          else (case map_of (assignments g) m of
                  None \<Rightarrow> (False, gs)
                | Some ps \<Rightarrow>
                    if p \<notin> set ps then (False, gs)
                    else (let nxt = (case map_of (offsets g) p of None \<Rightarrow> 0 | Some o' \<Rightarrow> o')
                          in (True, AList.update name (g\<lparr>offsets := AList.update p (max nxt (off + 1)) (offsets g)\<rparr>) gs))))"

definition refresh_topic :: "string \<Rightarrow> int32 list \<Rightarrow> groups \<Rightarrow> groups" where
  "refresh_topic t ps gs =
     map (\<lambda>(name, g). (name, if group_topic g = t then rebalance ps g else g)) gs"

section \<open>Dealing partitions out\<close>

lemma keys_deal: "set ms \<subseteq> fst ` set a \<Longrightarrow> ms \<noteq> [] \<Longrightarrow> map fst (deal ms i ps a) = map fst a"
proof (induction ms i ps a rule: deal.induct)
  case (2 ms i p ps a)
  let ?m = "ms ! (i mod length ms)"
  have "?m \<in> set ms" using 2(3) by simp
  then have m: "?m \<in> fst ` set a" using 2(2) by blast
  then have keys: "map fst (AList.update ?m v a) = map fst a" for v
    by (simp add: update_keys)
  then have "fst ` set (AList.update ?m v a) = fst ` set a" for v
    by (metis set_map)
  then show ?case using 2 keys by (simp add: Let_def)
qed simp

text \<open>The member at position \<open>k\<close> gets the partitions at the positions that are \<open>k\<close> modulo the number of members.\<close>

lemma deal_nths:
  assumes "distinct ms" and "k < length ms"
  shows "map_of a (ms ! k) = Some l \<Longrightarrow>
    map_of (deal ms i ps a) (ms ! k) = Some (l @ nths ps {j. (i + j) mod length ms = k})"
proof (induction ps arbitrary: i a l)
  case (Cons p ps)
  let ?m = "ms ! (i mod length ms)"
  have lt: "i mod length ms < length ms" by (rule mod_less_divisor) (use assms(2) in linarith)
  then have eq: "?m = ms ! k \<longleftrightarrow> i mod length ms = k"
    using assms by (simp add: nth_eq_iff_index_eq)
  show ?case
  proof (cases "i mod length ms = k")
    case True
    then have "map_of (AList.update ?m (l @ [p]) a) (ms ! k) = Some (l @ [p])" by simp
    from Cons.IH [OF this, of "i + 1"] show ?thesis
      using Cons.prems True by (simp add: Let_def nths_Cons)
  next
    case False
    then have "map_of (AList.update ?m v a) (ms ! k) = Some l" for v
      using Cons.prems eq by simp
    from Cons.IH [OF this, of "i + 1"] show ?thesis
      using False by (simp add: Let_def nths_Cons)
  qed
qed simp

lemma assigned_rebalance:
  assumes "distinct (members g)" and "k < length (members g)"
  shows "assigned (rebalance ps g) (members g ! k) = nths (sort ps) {i. i mod length (members g) = k}"
proof -
  have "map_of (map (\<lambda>m. (m, [])) (members g)) (members g ! k) = Some ([] :: int32 list)"
    using assms(2) by (auto simp: map_of_map_restrict)
  from deal_nths [OF assms this, of 0 "sort ps"] show ?thesis
    using assms(2) by (auto simp: assigned_def rebalance_def Let_def)
qed

lemma rebalance_frame [simp]:
  "members (rebalance ps g) = members g" "group_topic (rebalance ps g) = group_topic g"
  "offsets (rebalance ps g) = offsets g"
  by (simp_all add: rebalance_def Let_def)

lemma keys_rebalance: "map fst (assignments (rebalance ps g)) = members g"
  using keys_deal [of "members g" "map (\<lambda>m. (m, [])) (members g)"]
  by (auto simp: rebalance_def Let_def image_image comp_def)

section \<open>Ownership\<close>

text \<open>
  The invariant of a group: the members are ascending and distinct, exactly the members have an
  assignment, and no partition is assigned to two members.
\<close>

definition group_ok :: "group \<Rightarrow> bool" where
  "group_ok g \<longleftrightarrow> sorted (members g) \<and> distinct (members g) \<and> map fst (assignments g) = members g \<and>
     (\<forall>m m' p. p \<in> set (assigned g m) \<longrightarrow> p \<in> set (assigned g m') \<longrightarrow> m = m')"

lemma assigned_outside: "m \<notin> set (map fst (assignments g)) \<Longrightarrow> assigned g m = []"
proof -
  assume "m \<notin> set (map fst (assignments g))"
  then have "map_of (assignments g) m = None" by (simp add: map_of_eq_None_iff)
  then show "assigned g m = []" by (simp add: assigned_def)
qed

lemma rebalance_exclusive:
  assumes d: "distinct (members g)" and ps: "distinct ps"
    and p: "p \<in> set (assigned (rebalance ps g) m)" "p \<in> set (assigned (rebalance ps g) m')"
  shows "m = m'"
proof -
  have own: "\<exists>i. i < length ps \<and> sort ps ! i = p \<and> m = members g ! (i mod length (members g))"
    if "p \<in> set (assigned (rebalance ps g) m)" for m
  proof -
    have "m \<in> set (members g)"
      using that assigned_outside [of m "rebalance ps g"] unfolding keys_rebalance by fastforce
    then obtain k where k: "k < length (members g)" "m = members g ! k" by (auto simp: in_set_conv_nth)
    then show ?thesis
      using that assigned_rebalance [OF d k(1), of ps] by (auto simp: set_nths)
  qed
  obtain i j where "i < length ps" "sort ps ! i = p" "m = members g ! (i mod length (members g))"
    "j < length ps" "sort ps ! j = p" "m' = members g ! (j mod length (members g))"
    using own p by blast
  moreover have "distinct (sort ps)" using ps by simp
  ultimately show ?thesis by (metis length_sort nth_eq_iff_index_eq)
qed

lemma rebalance_ok: "sorted (members g) \<Longrightarrow> distinct (members g) \<Longrightarrow> distinct ps \<Longrightarrow> group_ok (rebalance ps g)"
  using rebalance_exclusive [of g ps] by (auto simp: group_ok_def keys_rebalance)

lemma rebalance_covers:
  assumes "distinct (members g)" and "members g \<noteq> []" and "p \<in> set ps"
  shows "\<exists>m\<in>set (members g). p \<in> set (assigned (rebalance ps g) m)"
proof -
  obtain i where i: "i < length ps" "sort ps ! i = p"
    using assms(3) by (metis in_set_conv_nth length_sort set_sort)
  let ?k = "i mod length (members g)"
  have k: "?k < length (members g)" using assms(2) by simp
  have "p \<in> set (assigned (rebalance ps g) (members g ! ?k))"
    using i by (auto simp: assigned_rebalance [OF assms(1) k] set_nths)
  then show ?thesis using k by (meson nth_mem)
qed

text \<open>Shares differ by at most one.\<close>

lemma card_residue:
  assumes "k < n"
  shows "card {i. i < N \<and> i mod n = k} = N div n + (if k < N mod n then 1 else 0)"
proof (induction N)
  case (Suc N)
  have "{i. i < Suc N \<and> i mod n = k} = {i. i < N \<and> i mod n = k} \<union> (if N mod n = k then {N} else {})"
    by (auto simp: less_Suc_eq)
  then have "card {i. i < Suc N \<and> i mod n = k} = card {i. i < N \<and> i mod n = k} + (if N mod n = k then 1 else 0)"
    by simp
  then show ?case
    using Suc assms by (auto simp: div_Suc mod_Suc)
qed (use assms in simp)

lemma share_size:
  assumes "distinct (members g)" and "k < length (members g)"
  shows "length (assigned (rebalance ps g) (members g ! k)) =
    length ps div length (members g) + (if k < length ps mod length (members g) then 1 else 0)"
  using card_residue [OF assms(2), of "length ps"]
  by (simp add: assigned_rebalance [OF assms] length_nths)


section \<open>The manager as a state machine\<close>

text \<open>
  One step is one call of a method; the partition lists the broker passes come from the storage
  engine and hold each partition once.
\<close>

inductive group_step :: "groups \<Rightarrow> groups \<Rightarrow> bool" where
  join: "distinct ps \<Longrightarrow> group_step gs (snd (join name m t ps gs))"
| leave: "distinct ps \<Longrightarrow> group_step gs (leave name m ps gs)"
| commit: "group_step gs (snd (commit name m t p off gs))"
| refresh: "distinct ps \<Longrightarrow> group_step gs (refresh_topic t ps gs)"

inductive reachable_groups :: "groups \<Rightarrow> bool" where
  start: "reachable_groups []"
| step: "reachable_groups gs \<Longrightarrow> group_step gs gs' \<Longrightarrow> reachable_groups gs'"

inductive_cases group_stepE: "group_step gs gs'"

definition groups_ok :: "groups \<Rightarrow> bool" where
  "groups_ok gs \<longleftrightarrow> distinct (map fst gs) \<and> (\<forall>name g. map_of gs name = Some g \<longrightarrow> group_ok g)"

lemma groups_ok_update: "groups_ok gs \<Longrightarrow> group_ok g \<Longrightarrow> groups_ok (AList.update name g gs)"
  by (auto simp: groups_ok_def distinct_update split: if_splits)

lemma group_ok_empty [simp]: "group_ok empty_group" "group_ok (empty_group\<lparr>group_topic := t\<rparr>)"
  by (simp_all add: group_ok_def empty_group_def assigned_def)

lemma group_ok_topic [simp]: "group_ok (g\<lparr>group_topic := t\<rparr>) = group_ok g"
  by (simp add: group_ok_def assigned_def)

lemma group_ok_offsets [simp]: "group_ok (g\<lparr>offsets := os\<rparr>) = group_ok g"
  by (simp add: group_ok_def assigned_def)

lemma group_ok_members: "group_ok g \<Longrightarrow> sorted (members g) \<and> distinct (members g)"
  by (simp add: group_ok_def)

lemma join_ok:
  assumes "groups_ok gs" and "distinct ps"
  shows "groups_ok (snd (join name m t ps gs))"
proof -
  define g where "g = (case map_of gs name of Some g \<Rightarrow> g | None \<Rightarrow> empty_group)"
  define h where "h = (if group_topic g = [] then g\<lparr>group_topic := t\<rparr> else g)"
  have "group_ok g" using assms(1) by (auto simp: g_def groups_ok_def split: option.splits)
  then have h: "group_ok h" by (simp add: h_def)
  have "group_ok (rebalance ps (h\<lparr>members := insort_insert m (members h)\<rparr>))"
    using group_ok_members [OF h] assms(2)
    by (intro rebalance_ok) (simp_all add: sorted_insort_insert distinct_insort_insert)
  moreover have "snd (join name m t ps gs) =
      AList.update name (if group_topic h \<noteq> t then h else rebalance ps (h\<lparr>members := insort_insert m (members h)\<rparr>)) gs"
    unfolding join_def g_def h_def by (simp add: Let_def)
  ultimately show ?thesis
    using assms(1) h by (simp only: groups_ok_update split: if_split) simp
qed

lemma leave_ok:
  assumes "groups_ok gs" and "distinct ps"
  shows "groups_ok (leave name m ps gs)"
proof (cases "map_of gs name")
  case (Some g)
  then have "group_ok g" using assms(1) by (simp add: groups_ok_def)
  then have "group_ok (rebalance ps (g\<lparr>members := removeAll m (members g)\<rparr>))"
    using assms(2) group_ok_members by (intro rebalance_ok) (auto simp: distinct_removeAll sorted_wrt_filter removeAll_filter_not_eq)
  then show ?thesis
    using assms(1) Some by (auto simp: leave_def Let_def groups_ok_update) (auto simp: groups_ok_def distinct_delete split: if_splits)
qed (use assms in \<open>simp add: leave_def\<close>)

lemma commit_shape:
  "snd (commit name m t p off gs) = gs \<or>
   (\<exists>g os. map_of gs name = Some g \<and> snd (commit name m t p off gs) = AList.update name (g\<lparr>offsets := os\<rparr>) gs)"
  by (auto simp: commit_def Let_def split: option.splits)

lemma commit_ok: "groups_ok gs \<Longrightarrow> groups_ok (snd (commit name m t p off gs))"
proof -
  assume ok: "groups_ok gs"
  then have "group_ok (g\<lparr>offsets := os\<rparr>)" if "map_of gs name = Some g" for g os
    using that by (simp add: groups_ok_def)
  then show ?thesis
    using commit_shape [of name m t p off gs] groups_ok_update [OF ok] ok by metis
qed

lemma map_of_refresh: "map_of (refresh_topic t ps gs) name =
    map_option (\<lambda>g. if group_topic g = t then rebalance ps g else g) (map_of gs name)"
  unfolding refresh_topic_def by (induction gs) (simp_all add: case_prod_beta)

lemma refresh_ok: "groups_ok gs \<Longrightarrow> distinct ps \<Longrightarrow> groups_ok (refresh_topic t ps gs)"
proof -
  assume "groups_ok gs" "distinct ps"
  moreover have "map fst (refresh_topic t ps gs) = map fst gs"
    by (simp add: refresh_topic_def case_prod_beta comp_def)
  ultimately show ?thesis
    using group_ok_members rebalance_ok by (auto simp: groups_ok_def map_of_refresh)
qed

lemma reachable_groups_ok: "reachable_groups gs \<Longrightarrow> groups_ok gs"
proof (induction rule: reachable_groups.induct)
  case start
  then show ?case by (simp add: groups_ok_def)
next
  case (step gs gs')
  then show ?case
    by (auto elim!: group_stepE intro: join_ok leave_ok commit_ok refresh_ok)
qed


section \<open>Offsets\<close>

lemma commit_result:
  "fst (commit name m t p off gs) \<longleftrightarrow> is_assigned name m t p gs"
  by (auto simp: commit_def is_assigned_def Let_def split: option.splits)

lemma commit_refused: "\<not> is_assigned name m t p gs \<Longrightarrow> snd (commit name m t p off gs) = gs"
  by (auto simp: commit_def is_assigned_def Let_def split: option.splits)

lemma commit_next:
  assumes "is_assigned name m t p gs"
  shows "group_next_offset n u q (snd (commit name m t p off gs)) =
    (if (n, u, q) = (name, t, p) then max (group_next_offset name t p gs) (off + 1)
     else group_next_offset n u q gs)"
proof -
  obtain g ps where g: "map_of gs name = Some g" "group_topic g = t" "map_of (assignments g) m = Some ps" "p \<in> set ps"
    using assms by (auto simp: is_assigned_def split: option.splits if_splits)
  define nxt where "nxt = (case map_of (offsets g) p of None \<Rightarrow> 0 | Some off \<Rightarrow> off)"
  have "snd (commit name m t p off gs) =
      AList.update name (g\<lparr>offsets := AList.update p (max nxt (off + 1)) (offsets g)\<rparr>) gs"
    using g by (simp add: commit_def nxt_def Let_def)
  moreover have "group_next_offset name t p gs = nxt"
    using g by (simp add: group_next_offset_def nxt_def)
  ultimately show ?thesis
    using g(1,2) by (cases "n = name"; cases "u = t"; cases "q = p") (simp_all add: group_next_offset_def)
qed

lemma next_offset_monotone:
  assumes "group_step gs gs'" and t: "t \<noteq> []" and alive: "map_of gs name \<noteq> None \<longrightarrow> map_of gs' name \<noteq> None"
  shows "group_next_offset name t p gs \<le> group_next_offset name t p gs'"
  using assms(1)
proof cases
  case (join ps n m u)
  define g where "g = (case map_of gs n of Some g \<Rightarrow> g | None \<Rightarrow> empty_group)"
  define h where "h = (if group_topic g = [] then g\<lparr>group_topic := u\<rparr> else g)"
  have "gs' = AList.update n (if group_topic h \<noteq> u then h else rebalance ps (h\<lparr>members := insort_insert m (members h)\<rparr>)) gs"
    unfolding join join_def g_def h_def by (simp add: Let_def)
  moreover have "offsets h = offsets g" "group_topic g \<noteq> [] \<Longrightarrow> group_topic h = group_topic g"
    by (simp_all add: h_def)
  ultimately show ?thesis
    using t by (auto simp: group_next_offset_def g_def split: option.splits if_splits)
next
  case (leave ps n m)
  then show ?thesis
    using alive by (auto simp: leave_def group_next_offset_def Let_def split: option.splits if_splits)
next
  case (commit n m u q off)
  then show ?thesis
    using commit_next [of n m u q gs name t p off] commit_refused [of n m u q gs off]
    by (cases "is_assigned n m u q gs") auto
next
  case (refresh ps u)
  then show ?thesis by (auto simp: map_of_refresh group_next_offset_def split: option.splits)
qed

section \<open>Properties\<close>

text \<open>Two members of one group, with three partitions between them, and a committed offset.\<close>

definition sample_groups :: groups where
  "sample_groups =
     snd (commit ''g'' ''a'' ''t'' (int32_of 0) 4
       (snd (join ''g'' ''b'' ''t'' [int32_of 2, int32_of 0, int32_of 1]
         (snd (join ''g'' ''a'' ''t'' [int32_of 0] [])))))"

lemma sample_groups_reachable: "reachable_groups sample_groups"
proof -
  have "distinct [int32_of 2, int32_of 0, int32_of 1]" "distinct [int32_of 0]" by code_simp+
  then show ?thesis
    unfolding sample_groups_def
    by - (rule reachable_groups.step, rule reachable_groups.step, rule reachable_groups.step,
        rule reachable_groups.start, erule group_step.join, erule group_step.join, rule group_step.commit)
qed



text \<open>
  C26. Rebalancing is round-robin over the sorted partitions: the member at position \<open>k\<close> gets those
  at the positions that are \<open>k\<close> modulo the number of members, every partition has an owner, and
  any two shares differ by at most one.
\<close>
theorem rebalance_round_robin:
  assumes "distinct (members g)" and "k < length (members g)" and "l < length (members g)"
  shows "assigned (rebalance ps g) (members g ! k) = nths (sort ps) {i. i mod length (members g) = k} \<and>
    (\<forall>p\<in>set ps. \<exists>m\<in>set (members g). p \<in> set (assigned (rebalance ps g) m)) \<and>
    length (assigned (rebalance ps g) (members g ! k)) \<le> length (assigned (rebalance ps g) (members g ! l)) + 1"
proof -
  have "members g \<noteq> []" using assms(2) by auto
  then show ?thesis
    using assigned_rebalance [OF assms(1,2)] rebalance_covers [OF assms(1)]
      share_size [OF assms(1,2), of ps] share_size [OF assms(1,3), of ps] by auto
qed

theorem rebalance_round_robin_witness:
  "assigned (rebalance [int32_of 7, int32_of 3, int32_of 5] (empty_group\<lparr>members := [''a'', ''b'']\<rparr>)) ''a'' =
   [int32_of 3, int32_of 7]"
proof -
  let ?g = "empty_group\<lparr>members := [''a'', ''b'']\<rparr>" and ?ps = "[int32_of 7, int32_of 3, int32_of 5]"
  have s: "sort ?ps = [int32_of 3, int32_of 5, int32_of 7]" by code_simp
  have g: "members ?g = [''a'', ''b'']" by simp
  have "assigned (rebalance ?ps ?g) (members ?g ! 0) = nths (sort ?ps) {i. i mod length (members ?g) = 0}"
    by (rule conjunct1 [OF rebalance_round_robin [of ?g 0 1 ?ps]]) simp_all
  also have "\<dots> = [int32_of 3, int32_of 7]" unfolding s g by (simp add: nths_Cons)
  finally show ?thesis by simp
qed

text \<open>
  Committing succeeds exactly for the member that owns the partition; then the next offset of
  that group, topic and partition is the larger of the old one and the committed offset plus one
  (in 64-bit arithmetic), and no other next offset changes. A refused commit changes nothing.
\<close>
theorem commit_correct:
  "(fst (commit name m t p off gs) \<longleftrightarrow> is_assigned name m t p gs) \<and>
   (if is_assigned name m t p gs
    then \<forall>n u q. group_next_offset n u q (snd (commit name m t p off gs)) =
           (if (n, u, q) = (name, t, p) then max (group_next_offset name t p gs) (off + 1)
            else group_next_offset n u q gs)
    else snd (commit name m t p off gs) = gs)"
  using commit_result commit_refused commit_next by auto

text \<open>
  C27. No call makes a group read a partition from an earlier offset than before, as long as the
  group exists: joins, leaves, rebalances and commits never lower a next offset.
\<close>
theorem group_offsets_monotone:
  assumes "group_step gs gs'" and "t \<noteq> []" and "map_of gs name \<noteq> None \<longrightarrow> map_of gs' name \<noteq> None"
  shows "group_next_offset name t p gs \<le> group_next_offset name t p gs'"
  using assms by (rule next_offset_monotone)

theorem group_offsets_monotone_witness:
  "group_next_offset ''g'' ''t'' (int32_of 0) sample_groups = 5 \<and>
   5 \<le> group_next_offset ''g'' ''t'' (int32_of 0) (leave ''g'' ''b'' [int32_of 0] sample_groups)"
proof -
  have v: "group_next_offset ''g'' ''t'' (int32_of 0) sample_groups = 5" by code_simp
  have "map_of (leave ''g'' ''b'' [int32_of 0] sample_groups) ''g'' \<noteq> None" by code_simp
  then show ?thesis
    using group_offsets_monotone [OF group_step.leave [of "[int32_of 0]" sample_groups "''g''" "''b''"],
        of "''t''" "''g''" "int32_of 0"] v by simp
qed

text \<open>
  A group has one topic: joining an existing group under another topic is refused with an
  empty assignment and changes no group.
\<close>
theorem join_other_topic_refused:
  assumes "map_of gs name = Some g" and "group_topic g \<noteq> []" and "group_topic g \<noteq> t"
  shows "fst (join name m t ps gs) = [] \<and> map_of (snd (join name m t ps gs)) = map_of gs"
  using assms by (auto simp: join_def Let_def)

theorem join_other_topic_refused_witness:
  "fst (join ''g'' ''c'' ''u'' [int32_of 0] sample_groups) = [] \<and>
   map_of (snd (join ''g'' ''c'' ''u'' [int32_of 0] sample_groups)) = map_of sample_groups"
proof -
  have "map_option group_topic (map_of sample_groups ''g'') = Some ''t''" by code_simp
  then obtain g where "map_of sample_groups ''g'' = Some g" "group_topic g = ''t''" by auto
  then show ?thesis using join_other_topic_refused [of sample_groups "''g''" g "''u''"] by simp
qed


end
