(* ===== verification/Replication.thy ===== *)
theory Replication
  imports Config Frame Storage ConsumerGroups
begin

text \<open>
  The replication manager (\<^verbatim>\<open>include/replication/replication_manager.h\<close>,
  \<^verbatim>\<open>src/replication/replication_manager.cpp\<close>): sending records to the peers, counting their
  acknowledgements, commit indexes, heartbeats and the election of a leader. The methods hold one
  recursive mutex, so each is one step on the state of the broker.
\<close>

section \<open>The environment\<close>

text \<open>
  What a broker sees of the network, the clock and the disk. \<open>dial\<close> opens a connection and fixes
  the return values its \<^verbatim>\<open>writev\<close> calls will have, \<open>deliver\<close> hands the bytes that were written to the
  other side and gives the chunks that come back, \<open>now\<close> reads the steady clock in nanoseconds and
  \<open>disk_os\<close> says how the disk behaves for the next call. All of them move the world on.
\<close>

record 'w env =
  dial :: "string \<Rightarrow> u16 \<Rightarrow> 'w \<Rightarrow> (nat \<Rightarrow> int) option \<times> 'w"
  deliver :: "string \<Rightarrow> u16 \<Rightarrow> string \<Rightarrow> 'w \<Rightarrow> string list \<times> 'w"
  now :: "'w \<Rightarrow> int \<times> 'w"
  sleep_for :: "int \<Rightarrow> 'w \<Rightarrow> 'w"
  disk_os :: "'w \<Rightarrow> os \<times> 'w"

text \<open>A socket address holds the low sixteen bits of a port.\<close>

definition sin_port :: "int32 \<Rightarrow> u16" where
  "sin_port port = ucast (bits32 port)"

definition millis :: "int \<Rightarrow> int" where
  "millis n = n * 1000000"

section \<open>State\<close>

record replication =
  follower_ack_offsets :: "(int32 \<times> u64) list"
  ack_counts :: "(string \<times> nat) list"
  ack_followers :: "(string \<times> int32 list) list"
  commit_index_by_log :: "(string \<times> u64) list"
  last_heartbeat :: "(int32 \<times> int) list"
  failed_peers :: "int32 list"

text \<open>The objects of one broker process, which refer to each other, and the world around it.\<close>

record 'w broker =
  cfg :: BrokerConfig
  store :: storage
  repl :: replication
  groups :: groups
  world :: 'w

definition in_world :: "('w \<Rightarrow> 'a \<times> 'w) \<Rightarrow> ('w broker, 'a) prog" where
  "in_world f b = (case f (world b) of (x, w) \<Rightarrow> (Inr x, b\<lparr>world := w\<rparr>))"

definition on_repl :: "(replication \<Rightarrow> replication) \<Rightarrow> ('w broker, unit) prog" where
  "on_repl f = modify (\<lambda>b. b\<lparr>repl := f (repl b)\<rparr>)"

definition in_store :: "'w env \<Rightarrow> (os \<Rightarrow> (storage, 'a) prog) \<Rightarrow> ('w broker, 'a) prog" where
  "in_store env f =
     seq (in_world (disk_os env)) (\<lambda>e b. case f e (store b) of (r, S) \<Rightarrow> (r, b\<lparr>store := S\<rparr>))"

definition kHeartbeatTimeout :: int where
  "kHeartbeatTimeout = millis 750"

section \<open>Talking to a peer\<close>

definition send_one_shot_to_peer :: "'w env \<Rightarrow> ClusterPeer \<Rightarrow> string \<Rightarrow> bool \<Rightarrow> 'w \<Rightarrow> (bool \<times> string) \<times> 'w" where
  "send_one_shot_to_peer env peer payload want w =
     (case dial env (peer_host peer) (sin_port (peer_port peer)) w of
        (None, w1) \<Rightarrow> ((False, []), w1)
      | (Some answers, w1) \<Rightarrow>
          (case write_frame answers payload of
             (sent, out) \<Rightarrow>
               (case deliver env (peer_host peer) (sin_port (peer_port peer)) out w1 of
                  (rx, w2) \<Rightarrow>
                    if \<not> sent then ((False, []), w2)
                    else if want then
                      (case fst (read_frame rx) of
                         None \<Rightarrow> ((False, []), w2)
                       | Some answer \<Rightarrow> ((True, answer), w2))
                    else ((True, []), w2))))"

definition make_log_key :: "string \<Rightarrow> int32 \<Rightarrow> string" where
  "make_log_key t p = t @ ''-'' @ to_string_int p"

definition make_ack_key :: "string \<Rightarrow> int32 \<Rightarrow> u64 \<Rightarrow> string" where
  "make_ack_key t p off = make_log_key t p @ '':'' @ to_string_u64 off"

definition build_replication_request :: "string \<Rightarrow> int32 \<Rightarrow> u64 \<Rightarrow> string \<Rightarrow> string" where
  "build_replication_request t p off msg =
     encode_request ((blank_request REPLICATE)\<lparr>topic := t, partition := p, message := msg, fetch_offset := off\<rparr>)"

definition build_commit_request :: "string \<Rightarrow> int32 \<Rightarrow> u64 \<Rightarrow> string" where
  "build_commit_request t p off =
     encode_request ((blank_request COMMIT)\<lparr>topic := t, partition := p, fetch_offset := off\<rparr>)"

section \<open>Acknowledgements, quorum and commit\<close>

definition new_replication :: "BrokerConfig \<Rightarrow> int \<Rightarrow> replication" where
  "new_replication c t =
     \<lparr>follower_ack_offsets = [], ack_counts = [], ack_followers = [], commit_index_by_log = [],
      last_heartbeat =
        foldl (\<lambda>hb peer. if peer_id peer = cfg_id c then hb else AList.update (peer_id peer) t hb) [] (cfg_peers c),
      failed_peers = []\<rparr>"

definition is_leader :: "'w broker \<Rightarrow> bool" where
  "is_leader b \<longleftrightarrow> cfg_is_leader (cfg b)"

definition is_peer_available :: "int32 \<Rightarrow> 'w broker \<Rightarrow> bool" where
  "is_peer_available i b \<longleftrightarrow> i \<notin> set (failed_peers (repl b))"

definition find_peer :: "int32 \<Rightarrow> 'w broker \<Rightarrow> ClusterPeer option" where
  "find_peer i b =
     (case filter (\<lambda>peer. peer_id peer = i) (cfg_peers (cfg b)) of [] \<Rightarrow> None | peer # _ \<Rightarrow> Some peer)"

definition lookup :: "'v \<Rightarrow> ('k \<times> 'v) list \<Rightarrow> 'k \<Rightarrow> 'v" where
  "lookup d m k = (case map_of m k of Some v \<Rightarrow> v | None \<Rightarrow> d)"

definition note_ack :: "int32 \<Rightarrow> string \<Rightarrow> u64 \<Rightarrow> replication \<Rightarrow> replication" where
  "note_ack follower key off r =
     (let followers = lookup [] (ack_followers r) key
      in if follower \<in> set followers then r
         else r\<lparr>ack_followers := AList.update key (follower # followers) (ack_followers r),
                follower_ack_offsets :=
                  AList.update follower (max (lookup 0 (follower_ack_offsets r) follower) off) (follower_ack_offsets r),
                ack_counts := AList.update key (lookup 0 (ack_counts r) key + 1) (ack_counts r)\<rparr>)"

definition handle_ack :: "int32 \<Rightarrow> string \<Rightarrow> int32 \<Rightarrow> u64 \<Rightarrow> ('w broker, unit) prog" where
  "handle_ack follower t p off b =
     (if \<not> is_leader b then ret () b else on_repl (note_ack follower (make_ack_key t p off) off) b)"

definition quorum :: "'w broker \<Rightarrow> nat" where
  "quorum b = (1 + length (cfg_peers (cfg b))) div 2 + 1"

definition quorum_reached :: "string \<Rightarrow> int32 \<Rightarrow> u64 \<Rightarrow> 'w broker \<Rightarrow> bool" where
  "quorum_reached t p off b =
     (case map_of (ack_counts (repl b)) (make_ack_key t p off) of
        None \<Rightarrow> False
      | Some n \<Rightarrow> quorum b \<le> n)"

definition mark_committed :: "string \<Rightarrow> int32 \<Rightarrow> u64 \<Rightarrow> ('w broker, unit) prog" where
  "mark_committed t p off =
     on_repl (\<lambda>r. let key = make_log_key t p; committed = lookup 0 (commit_index_by_log r) key
       in r\<lparr>commit_index_by_log := AList.update key (if committed < off then off else committed) (commit_index_by_log r)\<rparr>)"

definition is_committed :: "string \<Rightarrow> int32 \<Rightarrow> u64 \<Rightarrow> 'w broker \<Rightarrow> bool" where
  "is_committed t p off b =
     (case map_of (commit_index_by_log (repl b)) (make_log_key t p) of None \<Rightarrow> False | Some c \<Rightarrow> off \<le> c)"

definition get_commit_index :: "string \<Rightarrow> int32 \<Rightarrow> 'w broker \<Rightarrow> u64" where
  "get_commit_index t p b =
     (case map_of (commit_index_by_log (repl b)) (make_log_key t p) of None \<Rightarrow> - 1 | Some c \<Rightarrow> c)"

definition mark_follower_failed :: "int32 \<Rightarrow> ('w broker, unit) prog" where
  "mark_follower_failed i =
     on_repl (\<lambda>r. r\<lparr>failed_peers := List.insert i (failed_peers r),
                    follower_ack_offsets := AList.delete i (follower_ack_offsets r)\<rparr>)"

definition mark_alive :: "'w env \<Rightarrow> int32 \<Rightarrow> ('w broker, unit) prog" where
  "mark_alive env i =
     seq (in_world (now env)) (\<lambda>t.
     on_repl (\<lambda>r. r\<lparr>last_heartbeat := AList.update i t (last_heartbeat r),
                    failed_peers := removeAll i (failed_peers r)\<rparr>))"

section \<open>Replicating\<close>

definition replicate_to_peer ::
  "'w env \<Rightarrow> ClusterPeer \<Rightarrow> string \<Rightarrow> string \<Rightarrow> int32 \<Rightarrow> u64 \<Rightarrow> ('w broker, bool) prog" where
  "replicate_to_peer env peer payload t p off =
     seq (in_world (send_one_shot_to_peer env peer payload True)) (\<lambda>(ok, answer).
       if \<not> ok \<or> answer = [] then ret False
       else (let ack = parse_request answer
             in if kind ack \<noteq> ACK then ret False
                else seq (handle_ack (broker_id ack) (if topic ack = [] then t else topic ack)
                           (if topic ack = [] then p else partition ack) (fetch_offset ack))
                       (\<lambda>_. ret (off \<le> fetch_offset ack))))"

definition start_acks :: "string \<Rightarrow> ('w broker, unit) prog" where
  "start_acks key b =
     on_repl (\<lambda>r. r\<lparr>ack_counts := AList.update key 1 (ack_counts r),
        ack_followers := AList.update key (List.insert (cfg_id (cfg b)) (lookup [] (ack_followers r) key)) (ack_followers r)\<rparr>) b"

definition replicate_step ::
  "'w env \<Rightarrow> string \<Rightarrow> string \<Rightarrow> int32 \<Rightarrow> u64 \<Rightarrow> ClusterPeer \<Rightarrow> ('w broker, unit) prog" where
  "replicate_step env payload t p off peer b =
     (if peer_id peer = cfg_id (cfg b) \<or> \<not> is_peer_available (peer_id peer) b then ret () b
      else seq (replicate_to_peer env peer payload t p off) (\<lambda>ok.
             if \<not> ok then mark_follower_failed (peer_id peer) else mark_alive env (peer_id peer)) b)"

definition replicate_message :: "'w env \<Rightarrow> string \<Rightarrow> int32 \<Rightarrow> u64 \<Rightarrow> string \<Rightarrow> ('w broker, bool) prog" where
  "replicate_message env t p off msg b =
     (if \<not> is_leader b then ret False b
      else seq (start_acks (make_ack_key t p off)) (\<lambda>_.
           seq (for_each (replicate_step env (build_replication_request t p off msg) t p off) (cfg_peers (cfg b))) (\<lambda>_.
           gets (quorum_reached t p off))) b)"

definition batch_step ::
  "'w env \<Rightarrow> string \<Rightarrow> string \<Rightarrow> int32 \<Rightarrow> u64 \<Rightarrow> ClusterPeer \<Rightarrow> ('w broker, unit) prog" where
  "batch_step env payload t p last_off peer b =
     (if peer_id peer = cfg_id (cfg b) \<or> \<not> is_peer_available (peer_id peer) b then ret () b
      else seq (in_world (send_one_shot_to_peer env peer payload True)) (\<lambda>(ok, answer).
             if \<not> ok then mark_follower_failed (peer_id peer)
             else (let ack = parse_request answer
                   in if kind ack = ACK \<and> last_off \<le> fetch_offset ack
                      then handle_ack (broker_id ack) t p (fetch_offset ack)
                      else mark_follower_failed (peer_id peer))) b)"

definition replicate_batch :: "'w env \<Rightarrow> string \<Rightarrow> int32 \<Rightarrow> u64 \<Rightarrow> string list \<Rightarrow> ('w broker, bool) prog" where
  "replicate_batch env t p first msgs b =
     (if \<not> is_leader b \<or> msgs = [] then ret False b
      else (let last_off = first + of_nat (length msgs) - 1;
                payload = encode_request ((blank_request BATCH_REPLICATE)\<lparr>topic := t, partition := p,
                            fetch_offset := first, messages := msgs\<rparr>)
            in seq (start_acks (make_ack_key t p last_off)) (\<lambda>_.
               seq (for_each (batch_step env payload t p last_off) (cfg_peers (cfg b))) (\<lambda>_.
               gets (quorum_reached t p last_off))) b))"

text \<open>The acknowledgement goes out on the socket the request came in on.\<close>

definition send_ack :: "int \<Rightarrow> u64 \<Rightarrow> string \<Rightarrow> int32 \<Rightarrow> 'w broker \<Rightarrow> string list" where
  "send_ack socket_fd off t p b =
     (if socket_fd < 0 then []
      else [encode_request ((blank_request ACK)\<lparr>topic := t, partition := p, fetch_offset := off, broker_id := cfg_id (cfg b)\<rparr>)])"

text \<open>
  The loop over a batch: it stops at the first message whose offset is not the expected one, after
  appending it. The result says whether the whole batch went in.
\<close>

fun append_batch :: "'w env \<Rightarrow> string \<Rightarrow> int32 \<Rightarrow> u64 \<Rightarrow> string list \<Rightarrow> ('w broker, bool) prog" where
  "append_batch env t p expected [] = ret True"
| "append_batch env t p expected (m # msgs) =
     seq (in_store env (\<lambda>e. storage_append e t p m)) (\<lambda>off.
       if off \<noteq> expected then ret False else append_batch env t p (expected + 1) msgs)"

definition handle_replication_request :: "'w env \<Rightarrow> Request \<Rightarrow> int \<Rightarrow> ('w broker, string list) prog" where
  "handle_replication_request env req source_socket b =
     (if is_leader b \<or> kind req \<noteq> REPLICATE \<and> kind req \<noteq> BATCH_REPLICATE then ret [] b
      else if topic req = [] \<or> val32 (partition req) < 0 \<or> kind req = REPLICATE \<and> message req = [] \<or>
              kind req = BATCH_REPLICATE \<and> messages req = [] then ret [] b
      else seq (append_batch env (topic req) (partition req) (fetch_offset req)
                  (if kind req = REPLICATE then [message req] else messages req)) (\<lambda>ok.
             if \<not> ok then ret []
             else gets (send_ack source_socket
                    (fetch_offset req + (if kind req = BATCH_REPLICATE then of_nat (length (messages req)) - 1 else 0))
                    (topic req) (partition req))) b)"

section \<open>Waiting\<close>

text \<open>
  The loop asks again every ten milliseconds. Acknowledgements are counted by the thread that
  replicates, before it waits, so \<open>reached\<close> is the answer each time; the loop ends only if the
  clock does its part, and \<^const>\<open>None\<close> is waiting for ever.
\<close>

partial_function (option) wait_loop :: "'w env \<Rightarrow> bool \<Rightarrow> int \<Rightarrow> 'w \<Rightarrow> (bool \<times> 'w) option" where
  "wait_loop env reached deadline w =
     (case now env w of
        (t, w1) \<Rightarrow>
          if t < deadline then
            (if reached then Some (True, w1) else wait_loop env reached deadline (sleep_for env (millis 10) w1))
          else Some (reached, w1))"

declare wait_loop.simps [code]

definition wait_for_quorum :: "'w env \<Rightarrow> string \<Rightarrow> int32 \<Rightarrow> u64 \<Rightarrow> int \<Rightarrow> ('w broker, bool) prog" where
  "wait_for_quorum env t p off timeout b =
     (case now env (world b) of
        (start, w) \<Rightarrow>
          (case wait_loop env (quorum_reached t p off b) (start + timeout) w of
             None \<Rightarrow> (Inl No_return, b\<lparr>world := w\<rparr>)
           | Some (ok, w1) \<Rightarrow> (Inr ok, b\<lparr>world := w1\<rparr>)))"

section \<open>Commits, heartbeats and elections\<close>

definition one_way_step :: "'w env \<Rightarrow> string \<Rightarrow> ClusterPeer \<Rightarrow> ('w broker, unit) prog" where
  "one_way_step env payload peer =
     seq (in_world (send_one_shot_to_peer env peer payload False)) (\<lambda>(ok, _).
       if \<not> ok then mark_follower_failed (peer_id peer) else mark_alive env (peer_id peer))"

definition broadcast_commit :: "'w env \<Rightarrow> string \<Rightarrow> int32 \<Rightarrow> u64 \<Rightarrow> ('w broker, unit) prog" where
  "broadcast_commit env t p off b =
     (if \<not> is_leader b then ret () b
      else for_each (\<lambda>peer b.
             if peer_id peer = cfg_id (cfg b) \<or> \<not> is_peer_available (peer_id peer) b then ret () b
             else one_way_step env (build_commit_request t p off) peer b) (cfg_peers (cfg b)) b)"

definition handle_commit_request :: "Request \<Rightarrow> ('w broker, unit) prog" where
  "handle_commit_request req =
     (if kind req \<noteq> COMMIT \<or> topic req = [] \<or> val32 (partition req) < 0 then ret ()
      else mark_committed (topic req) (partition req) (fetch_offset req))"

definition handle_heartbeat :: "'w env \<Rightarrow> int32 \<Rightarrow> ('w broker, unit) prog" where
  "handle_heartbeat env i = mark_alive env i"

definition stale :: "int \<Rightarrow> replication \<Rightarrow> int32 list" where
  "stale t r = map fst (filter (\<lambda>(i, seen). kHeartbeatTimeout < t - seen) (last_heartbeat r))"

definition elected :: "'w broker \<Rightarrow> int32" where
  "elected b =
     foldl (\<lambda>best peer.
        if peer_id peer \<noteq> cfg_id (cfg b) \<and> is_peer_available (peer_id peer) b then min best (peer_id peer) else best)
       (cfg_id (cfg b)) (cfg_peers (cfg b))"

definition maybe_elect_leader :: "'w env \<Rightarrow> ('w broker, unit) prog" where
  "maybe_elect_leader env =
     seq (in_world (now env)) (\<lambda>t.
     seq (on_repl (\<lambda>r. r\<lparr>failed_peers := fold List.insert (stale t r) (failed_peers r)\<rparr>)) (\<lambda>_.
     (\<lambda>b. let leader = leader_broker_id (cfg b)
          in if leader \<noteq> cfg_id (cfg b) \<and> is_peer_available leader b then ret () b
             else modify (\<lambda>b. b\<lparr>cfg := set_leader (elected b) (cfg b)\<rparr>) b)))"

definition broadcast_heartbeat :: "'w env \<Rightarrow> ('w broker, unit) prog" where
  "broadcast_heartbeat env =
     seq (maybe_elect_leader env) (\<lambda>_.
     seq (in_world (now env)) (\<lambda>t.
     seq (\<lambda>b. for_each mark_follower_failed (stale t (repl b)) b) (\<lambda>_ b.
       for_each (\<lambda>peer.
         if peer_id peer = cfg_id (cfg b) then ret ()
         else one_way_step env (encode_request ((blank_request HEARTBEAT)\<lparr>broker_id := cfg_id (cfg b)\<rparr>)) peer)
        (cfg_peers (cfg b)) b)))"

end
