(* ===== verification/Broker.thy ===== *)
theory Broker
  imports Replication
begin

text \<open>
  The broker (\<^verbatim>\<open>include/core/broker.h\<close>, \<^verbatim>\<open>src/core/broker.cpp\<close>): one handler per request of a
  client or of another broker, over the storage engine, the replication manager and the consumer
  groups.
\<close>

section \<open>Responses\<close>

definition refusal :: "string \<Rightarrow> u64 \<Rightarrow> Response" where
  "refusal s off = \<lparr>success = False, reply = s, appended_offset = off, appended_offsets = []\<rparr>"

definition accepted :: "string \<Rightarrow> u64 \<Rightarrow> Response" where
  "accepted s off = \<lparr>success = True, reply = s, appended_offset = off, appended_offsets = []\<rparr>"

definition kQuorumTimeout :: int where
  "kQuorumTimeout = millis 5000"

definition kHeartbeatInterval :: int where
  "kHeartbeatInterval = millis 100"

section \<open>The leader's address\<close>

definition format_endpoint :: "LeaderEndpoint \<Rightarrow> string" where
  "format_endpoint ep =
     to_string_int (leader_id ep) @ '':'' @ leader_host ep @ '':'' @ to_string_int (leader_port ep)"

definition format_leader_redirect :: "'w broker \<Rightarrow> string" where
  "format_leader_redirect b =
     (case get_leader_endpoint (cfg b) of
        None \<Rightarrow> ''not_leader:leader_unknown''
      | Some ep \<Rightarrow> ''not_leader:'' @ format_endpoint ep)"

definition handle_metadata :: "('w broker, Response) prog" where
  "handle_metadata =
     gets (\<lambda>b. case get_leader_endpoint (cfg b) of
        None \<Rightarrow> refusal ''leader_unknown'' (- 1)
      | Some ep \<Rightarrow>
          accepted (format_endpoint ep @ '' role:'' @
                    (if cfg_id (cfg b) = leader_id ep then ''leader'' else ''follower'') @
                    '' self:'' @ to_string_int (cfg_id (cfg b))) 0)"

text \<open>The calls that make a socket, read the address and connect are one call of the environment.\<close>

definition connect_to_host :: "'w env \<Rightarrow> string \<Rightarrow> int32 \<Rightarrow> 'w \<Rightarrow> (nat \<Rightarrow> int) option \<times> 'w" where
  "connect_to_host env host port w = dial env host (sin_port port) w"

definition forward_to_leader :: "'w env \<Rightarrow> Request \<Rightarrow> ('w broker, Response) prog" where
  "forward_to_leader env req b =
     (case get_leader_endpoint (cfg b) of
        None \<Rightarrow> ret (refusal ''leader_unknown'' (- 1)) b
      | Some ep \<Rightarrow>
          in_world (\<lambda>w.
            case connect_to_host env (leader_host ep) (leader_port ep) w of
              (None, w1) \<Rightarrow> (refusal ''leader_unreachable'' (- 1), w1)
            | (Some answers, w1) \<Rightarrow>
                (case write_frame answers (encode_request req) of
                   (sent, out) \<Rightarrow>
                     (case deliver env (leader_host ep) (sin_port (leader_port ep)) out w1 of
                        (rx, w2) \<Rightarrow>
                          (if \<not> sent then refusal ''leader_write_failed'' (- 1)
                           else (case fst (read_frame rx) of
                                   None \<Rightarrow> refusal ''leader_read_failed'' (- 1)
                                 | Some payload \<Rightarrow> parse_response payload), w2)))) b)"

definition forward_produce_to_leader :: "'w env \<Rightarrow> Request \<Rightarrow> ('w broker, Response) prog" where
  "forward_produce_to_leader env req = forward_to_leader env req"

section \<open>Consumer groups\<close>

definition topic_partitions :: "string \<Rightarrow> 'w broker \<Rightarrow> int32 list" where
  "topic_partitions t b = partitions_for_topic t (store b)"

fun format_partitions :: "int32 list \<Rightarrow> string" where
  "format_partitions [] = []"
| "format_partitions [p] = to_string_int p"
| "format_partitions (p # ps) = to_string_int p @ '','' @ format_partitions ps"

definition on_groups :: "(groups \<Rightarrow> 'a \<times> groups) \<Rightarrow> ('w broker, 'a) prog" where
  "on_groups f b = (case f (groups b) of (x, gs) \<Rightarrow> (Inr x, b\<lparr>groups := gs\<rparr>))"

definition no_member :: "Request \<Rightarrow> bool" where
  "no_member req \<longleftrightarrow> group_id req = [] \<or> member_id req = [] \<or> topic req = []"

definition handle_join_group :: "'w env \<Rightarrow> Request \<Rightarrow> ('w broker, Response) prog" where
  "handle_join_group env req b =
     (if \<not> is_leader b then forward_to_leader env req b
      else if no_member req then ret (refusal ''invalid_group_request'' (- 1)) b
      else if topic_partitions (topic req) b = [] then ret (refusal ''topic_not_found'' (- 1)) b
      else seq (on_groups (join (group_id req) (member_id req) (topic req) (topic_partitions (topic req) b)))
             (\<lambda>ps. ret (accepted (''assignment:'' @ format_partitions ps) 0)) b)"

definition handle_leave_group :: "'w env \<Rightarrow> Request \<Rightarrow> ('w broker, Response) prog" where
  "handle_leave_group env req b =
     (if \<not> is_leader b then forward_to_leader env req b
      else if no_member req then ret (refusal ''invalid_group_request'' (- 1)) b
      else seq (on_groups (\<lambda>gs. ((), leave (group_id req) (member_id req) (topic_partitions (topic req) b) gs)))
             (\<lambda>_. ret (accepted [] 0)) b)"

definition handle_group_assignment :: "'w env \<Rightarrow> Request \<Rightarrow> ('w broker, Response) prog" where
  "handle_group_assignment env req b =
     (if \<not> is_leader b then forward_to_leader env req b
      else if no_member req then ret (refusal ''invalid_group_request'' (- 1)) b
      else ret (accepted (''assignment:'' @ format_partitions
                  (filter (\<lambda>p. is_assigned (group_id req) (member_id req) (topic req) p (groups b))
                    (topic_partitions (topic req) b))) 0) b)"

definition handle_commit_offset :: "'w env \<Rightarrow> Request \<Rightarrow> ('w broker, Response) prog" where
  "handle_commit_offset env req b =
     (if \<not> is_leader b then forward_to_leader env req b
      else if no_member req \<or> val32 (partition req) < 0 then ret (refusal ''invalid_group_request'' (- 1)) b
      else seq (on_groups (commit (group_id req) (member_id req) (topic req) (partition req) (fetch_offset req)))
             (\<lambda>ok. ret (if ok then accepted [] (fetch_offset req) else refusal ''partition_not_assigned'' (- 1))) b)"

section \<open>Fetching\<close>

definition handle_fetch :: "Request \<Rightarrow> ('w broker, Response) prog" where
  "handle_fetch req =
     gets (\<lambda>b.
       if topic req = [] then refusal ''empty_topic'' (- 1)
       else if val32 (partition req) < 0 then refusal ''invalid_partition'' (- 1)
       else if \<not> is_committed (topic req) (partition req) (fetch_offset req) b
            then refusal ''offset_not_committed'' (- 1)
       else (case storage_fetch (topic req) (partition req) (fetch_offset req) (store b) of
               Inl _ \<Rightarrow> refusal ''offset_not_found'' (- 1)
             | Inr msg \<Rightarrow> if msg = [] then refusal ''offset_not_found'' (- 1) else accepted msg (fetch_offset req)))"

definition handle_group_fetch :: "'w env \<Rightarrow> Request \<Rightarrow> ('w broker, Response) prog" where
  "handle_group_fetch env req b =
     (if \<not> is_leader b then forward_to_leader env req b
      else if no_member req \<or> val32 (partition req) < 0 then ret (refusal ''invalid_group_request'' (- 1)) b
      else if \<not> is_assigned (group_id req) (member_id req) (topic req) (partition req) (groups b)
           then ret (refusal ''partition_not_assigned'' (- 1)) b
      else handle_fetch (req\<lparr>kind := FETCH,
             fetch_offset := group_next_offset (group_id req) (topic req) (partition req) (groups b)\<rparr>) b)"

section \<open>Producing\<close>

definition refresh :: "string \<Rightarrow> ('w broker, unit) prog" where
  "refresh t b = on_groups (\<lambda>gs. ((), refresh_topic t (topic_partitions t b) gs)) b"

definition handle_produce :: "'w env \<Rightarrow> Request \<Rightarrow> ('w broker, Response) prog" where
  "handle_produce env req b =
     (let t = topic req; p = partition req; msg = message req
      in if \<not> is_leader b then forward_produce_to_leader env req b
         else if t = [] then ret (refusal ''empty_topic'' (- 1)) b
         else if val32 p < 0 then ret (refusal ''invalid_partition'' (- 1)) b
         else if msg = [] then ret (refusal ''empty_message'' (- 1)) b
         else seq (in_store env (\<lambda>e. storage_append e t p msg)) (\<lambda>off.
              seq (refresh t) (\<lambda>_.
              seq (replicate_message env t p off msg) (\<lambda>replicated.
                if \<not> replicated then ret (refusal ''replication_failed'' off)
                else seq (wait_for_quorum env t p off kQuorumTimeout) (\<lambda>reached.
                  if \<not> reached then ret (refusal ''quorum_timeout'' off)
                  else seq (mark_committed t p off) (\<lambda>_.
                       seq (broadcast_commit env t p off) (\<lambda>_.
                       ret (accepted [] off))))))) b)"

fun append_each :: "'w env \<Rightarrow> string \<Rightarrow> int32 \<Rightarrow> string list \<Rightarrow> ('w broker, u64 list) prog" where
  "append_each env t p [] = ret []"
| "append_each env t p (m # msgs) =
     seq (in_store env (\<lambda>e. storage_append e t p m)) (\<lambda>off.
     seq (append_each env t p msgs) (\<lambda>offs. ret (off # offs)))"

definition handle_batch_produce :: "'w env \<Rightarrow> Request \<Rightarrow> ('w broker, Response) prog" where
  "handle_batch_produce env req b =
     (let t = topic req; p = partition req
      in if messages req = [] then ret (refusal ''empty_batch'' (- 1)) b
         else if \<not> is_leader b then forward_to_leader env req b
         else if t = [] \<or> val32 p < 0 then ret (refusal ''invalid_batch'' (- 1)) b
         else seq (append_each env t p (messages req)) (\<lambda>offs.
              seq (refresh t) (\<lambda>_.
              seq (replicate_batch env t p (hd offs) (messages req)) (\<lambda>replicated.
              seq (if replicated then wait_for_quorum env t p (last offs) kQuorumTimeout else ret False) (\<lambda>reached.
                if \<not> reached then ret (refusal ''quorum_timeout'' (last offs))
                else seq (for_each (\<lambda>off. seq (mark_committed t p off) (\<lambda>_. broadcast_commit env t p off)) offs) (\<lambda>_.
                     ret \<lparr>success = True, reply = [], appended_offset = last offs, appended_offsets = offs\<rparr>))))) b)"

section \<open>Dispatch\<close>

definition handle_request :: "'w env \<Rightarrow> Request \<Rightarrow> ('w broker, Response) prog" where
  "handle_request env req =
     (case kind req of
        PRODUCE \<Rightarrow> handle_produce env req
      | BATCH_PRODUCE \<Rightarrow> handle_batch_produce env req
      | FETCH \<Rightarrow> handle_fetch req
      | METADATA \<Rightarrow> handle_metadata
      | JOIN_GROUP \<Rightarrow> handle_join_group env req
      | LEAVE_GROUP \<Rightarrow> handle_leave_group env req
      | GROUP_FETCH \<Rightarrow> handle_group_fetch env req
      | COMMIT_OFFSET \<Rightarrow> handle_commit_offset env req
      | GROUP_ASSIGNMENT \<Rightarrow> handle_group_assignment env req
      | _ \<Rightarrow> ret (refusal ''unknown_request_type'' (- 1)))"

text \<open>
  The result holds the frames a handler writes to the client's socket itself, and the response
  the server sends after them.
\<close>

definition handle_inter_broker_request :: "'w env \<Rightarrow> Request \<Rightarrow> int \<Rightarrow> ('w broker, string list \<times> string) prog" where
  "handle_inter_broker_request env req client_socket =
     (let response = serialize_response (accepted [] 0)
      in case kind req of
           REPLICATE \<Rightarrow> seq (handle_replication_request env req client_socket) (\<lambda>acks. ret (acks, response))
         | BATCH_REPLICATE \<Rightarrow> seq (handle_replication_request env req client_socket) (\<lambda>acks. ret (acks, response))
         | ACK \<Rightarrow> seq (handle_ack (broker_id req) (topic req) (partition req) (fetch_offset req)) (\<lambda>_. ret ([], response))
         | HEARTBEAT \<Rightarrow> seq (handle_heartbeat env (broker_id req)) (\<lambda>_. ret ([], response))
         | COMMIT \<Rightarrow> seq (handle_commit_request req) (\<lambda>_. ret ([], response))
         | _ \<Rightarrow> ret ([], serialize_response (refusal ''unknown_inter_broker_request'' (- 1))))"

text \<open>
  The heartbeat thread runs until \<^verbatim>\<open>running_\<close> is cleared; \<open>rounds\<close> is the number of times it
  finds the flag set.
\<close>

fun heartbeat_loop :: "'w env \<Rightarrow> nat \<Rightarrow> ('w broker, unit) prog" where
  "heartbeat_loop env 0 = ret ()"
| "heartbeat_loop env (Suc rounds) =
     seq (broadcast_heartbeat env) (\<lambda>_.
     seq (in_world (\<lambda>w. ((), sleep_for env kHeartbeatInterval w))) (\<lambda>_.
     heartbeat_loop env rounds))"

section \<open>Starting and stopping\<close>

text \<open>
  The flag \<^verbatim>\<open>running_\<close> and the heartbeat threads there are. Joining waits for the thread to find the
  flag cleared; a thread object that still has a thread must not be assigned to.
\<close>

record lifecycle =
  broker_running :: bool
  heartbeat_threads :: nat

definition new_lifecycle :: lifecycle where
  "new_lifecycle = \<lparr>broker_running = False, heartbeat_threads = 0\<rparr>"

definition broker_start :: "lifecycle \<Rightarrow> lifecycle" where
  "broker_start l =
     (if broker_running l then l else l\<lparr>broker_running := True, heartbeat_threads := heartbeat_threads l + 1\<rparr>)"

definition broker_stop :: "lifecycle \<Rightarrow> lifecycle" where
  "broker_stop l =
     (if \<not> broker_running l then l
      else l\<lparr>broker_running := False, heartbeat_threads := heartbeat_threads l - 1\<rparr>)"

lemma one_heartbeat_thread:
  assumes "set calls \<subseteq> {broker_start, broker_stop}"
  shows "heartbeat_threads (fold (\<lambda>f. f) calls new_lifecycle) =
    (if broker_running (fold (\<lambda>f. f) calls new_lifecycle) then 1 else 0)"
proof -
  have "heartbeat_threads (fold (\<lambda>f. f) calls l) = (if broker_running (fold (\<lambda>f. f) calls l) then 1 else 0)"
    if "heartbeat_threads l = (if broker_running l then 1 else 0)" for l
    using assms that by (induction calls arbitrary: l) (auto simp: broker_start_def broker_stop_def)
  then show ?thesis by (simp add: new_lifecycle_def)
qed

end
