(* ===== verification/BrokerRun.thy ===== *)
theory BrokerRun
  imports Broker
begin

text \<open>
  What a broker does to its state, seen as a run of atomic steps. The locales say once and for
  all that a relation kept by the single updates is kept by every handler of
  \<^verbatim>\<open>src/core/broker.cpp\<close> and every method of \<^verbatim>\<open>src/replication/replication_manager.cpp\<close>; the
  interpretation on \<open>atomic_step\<close> shows that each of them is a run of atomic steps, so that
  invariants need only be checked step by step.
\<close>

section \<open>Relations kept by programs\<close>

locale run_relation =
  fixes R :: "'s \<Rightarrow> 's \<Rightarrow> bool"
  assumes stay: "R s s"
    and go: "R s t \<Longrightarrow> R t u \<Longrightarrow> R s u"
begin

lemma run_ret: "R s (snd (ret x s))"
  by (simp add: ret_def stay)

lemma run_gets: "R s (snd (gets f s))"
  by (simp add: gets_def stay)

lemma run_seq:
  assumes "R s (snd (m s))" and "\<And>x t. m s = (Inr x, t) \<Longrightarrow> R t (snd (f x t))"
  shows "R s (snd (seq m f s))"
proof -
  obtain r t where m: "m s = (r, t)" by fastforce
  with assms show ?thesis by (cases r) (auto simp: seq_def intro: go)
qed

lemma run_for_each: "(\<And>x t. R t (snd (f x t))) \<Longrightarrow> R s (snd (for_each f xs s))"
  by (induction xs arbitrary: s) (auto intro: run_ret run_seq)

end

section \<open>Relations kept by the replication manager\<close>

locale liveness_run = run_relation R
  for R :: "'w broker \<Rightarrow> 'w broker \<Rightarrow> bool" +
  fixes env :: "'w env"
  assumes world_moves: "R b (b\<lparr>world := w\<rparr>)"
    and liveness_noted: "R b (b\<lparr>repl := (repl b)\<lparr>follower_ack_offsets := fo, last_heartbeat := hb, failed_peers := fp\<rparr>\<rparr>)"
begin

lemma run_world: "R b (snd (in_world f b))"
  by (auto simp: in_world_def world_moves split: prod.split)

lemma run_failed: "R b (snd (mark_follower_failed i b))"
  using liveness_noted [where b = b and fo = "AList.delete i (follower_ack_offsets (repl b))" and
      hb = "last_heartbeat (repl b)" and fp = "List.insert i (failed_peers (repl b))"]
  by (cases "repl b") (simp add: mark_follower_failed_def on_repl_def modify_def)

lemma run_alive: "R b (snd (mark_alive env i b))"
  unfolding mark_alive_def
proof (rule run_seq [OF run_world])
  fix t b'
  show "R b' (snd (on_repl (\<lambda>r. r\<lparr>last_heartbeat := AList.update i t (last_heartbeat r),
      failed_peers := removeAll i (failed_peers r)\<rparr>) b'))"
    using liveness_noted [where b = b' and fo = "follower_ack_offsets (repl b')" and
        hb = "AList.update i t (last_heartbeat (repl b'))" and fp = "removeAll i (failed_peers (repl b'))"]
    by (simp add: on_repl_def modify_def)
qed

lemma run_wait_for_quorum: "R b (snd (wait_for_quorum env t p off timeout b))"
  by (auto simp: wait_for_quorum_def world_moves split: prod.split option.split)

lemma run_one_way_step: "R b (snd (one_way_step env payload peer b))"
  unfolding one_way_step_def by (rule run_seq [OF run_world]) (auto intro!: run_failed run_alive)

lemma run_broadcast_commit: "R b (snd (broadcast_commit env t p off b))"
  unfolding broadcast_commit_def by (auto intro!: run_ret run_for_each run_one_way_step)

end

locale ack_run = liveness_run R env
  for R :: "'w broker \<Rightarrow> 'w broker \<Rightarrow> bool" and env +
  assumes ack_noted: "is_leader b \<Longrightarrow> R b (b\<lparr>repl := note_ack i (make_ack_key t p off) off (repl b)\<rparr>)"
    and acks_started: "is_leader b \<Longrightarrow> R b (snd (start_acks (make_ack_key t p off) b))"
begin

lemma run_handle_ack: "R b (snd (handle_ack i t p off b))"
  by (simp add: handle_ack_def ret_def on_repl_def modify_def stay ack_noted)

lemma run_replicate_to_peer: "R b (snd (replicate_to_peer env peer payload t p off b))"
  unfolding replicate_to_peer_def
  by (rule run_seq [OF run_world]) (auto simp: Let_def intro!: run_ret run_seq run_handle_ack)

lemma run_replicate_step: "R b (snd (replicate_step env payload t p off peer b))"
  unfolding replicate_step_def
  by (auto intro!: run_ret run_seq [OF run_replicate_to_peer] run_failed run_alive)

lemma run_replicate_message: "R b (snd (replicate_message env t p off msg b))"
proof (cases "is_leader b")
  case True
  then show ?thesis
    by (auto simp: replicate_message_def intro!: run_seq run_for_each run_gets acks_started run_replicate_step)
qed (simp add: replicate_message_def run_ret)

lemma run_batch_step: "R b (snd (batch_step env payload t p off peer b))"
  unfolding batch_step_def
  by (auto simp: Let_def intro!: run_ret run_seq [OF run_world] run_handle_ack run_failed)

lemma run_replicate_batch: "R b (snd (replicate_batch env t p first msgs b))"
proof (cases "is_leader b")
  case True
  then show ?thesis
    by (auto simp: replicate_batch_def Let_def intro!: run_ret run_seq run_for_each run_gets acks_started run_batch_step)
qed (simp add: replicate_batch_def run_ret)

end

locale election_run = liveness_run R env
  for R :: "'w broker \<Rightarrow> 'w broker \<Rightarrow> bool" and env +
  assumes leader_set: "R b (b\<lparr>cfg := set_leader i (cfg b)\<rparr>)"
begin

lemma run_elect: "R b (snd (maybe_elect_leader env b))"
  unfolding maybe_elect_leader_def
proof (intro run_seq [OF run_world] run_seq)
  fix t b'
  show "R b' (snd (on_repl (\<lambda>r. r\<lparr>failed_peers := fold List.insert (stale t r) (failed_peers r)\<rparr>) b'))"
    using liveness_noted [where b = b' and fo = "follower_ack_offsets (repl b')" and hb = "last_heartbeat (repl b')"]
    by (simp add: on_repl_def modify_def)
qed (simp add: Let_def ret_def modify_def stay leader_set)

lemma run_broadcast_heartbeat: "R b (snd (broadcast_heartbeat env b))"
  unfolding broadcast_heartbeat_def
  by (intro run_seq run_elect run_world run_for_each run_failed) (simp add: run_ret run_one_way_step)

lemma run_heartbeat_loop: "R b (snd (heartbeat_loop env n b))"
  by (induction n arbitrary: b) (auto intro!: run_ret run_seq run_broadcast_heartbeat run_world)

end

locale replication_run = ack_run R env + election_run R env
  for R :: "'w broker \<Rightarrow> 'w broker \<Rightarrow> bool" and env +
  assumes commit_marked: "R b (snd (mark_committed t p off b))"
begin

lemma run_handle_commit: "R b (snd (handle_commit_request req b))"
  by (simp add: handle_commit_request_def run_ret commit_marked)

end

section \<open>Relations kept by the whole broker\<close>

text \<open>The records a request may add to a partition fit in it, by a criterion given as a parameter.\<close>

type_synonym room = "storage \<Rightarrow> string \<Rightarrow> int32 \<Rightarrow> string list \<Rightarrow> bool"

definition request_fits :: "room \<Rightarrow> Request \<Rightarrow> 'w broker \<Rightarrow> bool" where
  "request_fits cap req b \<longleftrightarrow> cap (store b) (topic req) (partition req) [message req] \<and>
     cap (store b) (topic req) (partition req) (messages req)"

locale broker_run = replication_run R env
  for R :: "'w broker \<Rightarrow> 'w broker \<Rightarrow> bool" and env +
  fixes cap :: room
  assumes groups_set: "R b (b\<lparr>groups := gs\<rparr>)"
    and record_stored: "cap (store b) t p (m # ms) \<Longrightarrow> R b (snd (in_store env (\<lambda>e. storage_append e t p m) b))"
    and fits_rest: "cap (store b) t p (m # ms) \<Longrightarrow> in_store env (\<lambda>e. storage_append e t p m) b = (Inr off, b') \<Longrightarrow>
      cap (store b') t p ms"
begin

lemma run_groups: "R b (snd (on_groups f b))"
  by (auto simp: on_groups_def groups_set split: prod.split)

lemma run_refresh: "R b (snd (refresh t b))"
  by (simp add: refresh_def run_groups)

lemma run_forward: "R b (snd (forward_to_leader env req b))"
  by (auto simp: forward_to_leader_def intro: run_ret run_world split: option.split)

lemma run_append_each: "cap (store b) t p ms \<Longrightarrow> R b (snd (append_each env t p ms b))"
proof (induction ms arbitrary: b)
  case (Cons m ms)
  show ?case
    unfolding append_each.simps
    by (intro run_seq record_stored [OF Cons.prems] Cons.IH) (auto intro: fits_rest [OF Cons.prems] run_ret)
qed (simp add: run_ret)

lemma run_append_batch: "cap (store b) t p ms \<Longrightarrow> R b (snd (append_batch env t p off ms b))"
proof (induction ms arbitrary: b off)
  case (Cons m ms)
  show ?case
    unfolding append_batch.simps
  proof (rule run_seq)
    show "R b (snd (in_store env (\<lambda>e. storage_append e t p m) b))" using Cons.prems by (rule record_stored)
  next
    fix off' b'
    assume "in_store env (\<lambda>e. storage_append e t p m) b = (Inr off', b')"
    then show "R b' (snd ((if off' \<noteq> off then ret False else append_batch env t p (off + 1) ms) b'))"
      using Cons.IH fits_rest [OF Cons.prems] by (simp add: run_ret)
  qed
qed (simp add: run_ret)

lemma run_handle_produce:
  "cap (store b) (topic req) (partition req) [message req] \<Longrightarrow> R b (snd (handle_produce env req b))"
  by (auto simp: handle_produce_def Let_def forward_produce_to_leader_def
    intro!: run_ret run_forward run_seq record_stored run_refresh run_replicate_message run_wait_for_quorum
      commit_marked run_broadcast_commit)

lemma run_handle_batch_produce:
  "cap (store b) (topic req) (partition req) (messages req) \<Longrightarrow> R b (snd (handle_batch_produce env req b))"
  by (auto simp: handle_batch_produce_def Let_def
    intro!: run_ret run_forward run_seq run_append_each run_refresh run_replicate_batch run_wait_for_quorum
      run_for_each commit_marked run_broadcast_commit)

lemma run_handle_replication:
  assumes "cap (store b) (topic req) (partition req) (if kind req = REPLICATE then [message req] else messages req)"
  shows "R b (snd (handle_replication_request env req fd b))"
  using assms
  by (auto simp: handle_replication_request_def simp del: append_batch.simps
    intro!: run_ret run_seq run_append_batch run_gets)

lemma run_handle_request:
  assumes "request_fits cap req b"
  shows "R b (snd (handle_request env req b))"
  using assms
  by (auto simp: handle_request_def request_fits_def handle_metadata_def handle_fetch_def handle_join_group_def
      handle_leave_group_def handle_group_fetch_def handle_group_assignment_def handle_commit_offset_def
    intro!: run_handle_produce run_handle_batch_produce run_gets run_ret run_forward run_seq run_groups
    split: RequestType.split)

lemma run_handle_inter_broker:
  assumes "request_fits cap req b"
  shows "R b (snd (handle_inter_broker_request env req fd b))"
  using assms
  by (auto simp: handle_inter_broker_request_def request_fits_def handle_heartbeat_def Let_def
    intro!: run_ret run_seq run_handle_replication run_handle_ack run_alive run_handle_commit
    split: RequestType.split)

end

section \<open>Atomic steps\<close>

text \<open>
  The updates of shared state a broker makes one at a time. Between two of them any other thread
  may run, so what holds along every sequence of atomic steps holds for every interleaving of
  the handlers.
\<close>

inductive atomic_step :: "'w env \<Rightarrow> room \<Rightarrow> 'w broker \<Rightarrow> 'w broker \<Rightarrow> bool" for env cap where
  world: "atomic_step env cap b (b\<lparr>world := w\<rparr>)"
| ack: "is_leader b \<Longrightarrow> atomic_step env cap b (b\<lparr>repl := note_ack i (make_ack_key t p off) off (repl b)\<rparr>)"
| start: "is_leader b \<Longrightarrow> atomic_step env cap b (snd (start_acks (make_ack_key t p off) b))"
| mark: "atomic_step env cap b (snd (mark_committed t p off b))"
| liveness: "atomic_step env cap b
    (b\<lparr>repl := (repl b)\<lparr>follower_ack_offsets := fo, last_heartbeat := hb, failed_peers := fp\<rparr>\<rparr>)"
| lead: "atomic_step env cap b (b\<lparr>cfg := set_leader i (cfg b)\<rparr>)"
| regroup: "atomic_step env cap b (b\<lparr>groups := gs\<rparr>)"
| append: "cap (store b) t p (m # ms) \<Longrightarrow> atomic_step env cap b (snd (in_store env (\<lambda>e. storage_append e t p m) b))"

definition broker_runs :: "'w env \<Rightarrow> room \<Rightarrow> 'w broker \<Rightarrow> 'w broker \<Rightarrow> bool" where
  "broker_runs env cap = (atomic_step env cap)\<^sup>*\<^sup>*"

lemma broker_runs_refl [intro]: "broker_runs env cap b b"
  by (simp add: broker_runs_def)

lemma broker_runs_trans: "broker_runs env cap a b \<Longrightarrow> broker_runs env cap b c \<Longrightarrow> broker_runs env cap a c"
  unfolding broker_runs_def by (rule rtranclp_trans)

lemma broker_runs_step: "atomic_step env cap b c \<Longrightarrow> broker_runs env cap b c"
  by (simp add: broker_runs_def r_into_rtranclp)

definition always_fits :: room where
  "always_fits S t p ms \<longleftrightarrow> True"

lemma always_appends: "broker_runs env always_fits b (snd (in_store env (\<lambda>e. storage_append e t p m) b))"
  by (rule broker_runs_step, rule atomic_step.append [where ms = "[]"]) (simp add: always_fits_def)

interpretation atomic: broker_run "broker_runs env always_fits" env always_fits for env
  by unfold_locales
    (auto simp: always_fits_def intro: broker_runs_trans broker_runs_step always_appends atomic_step.intros)

text \<open>A partition has room for more records when all its bytes stay within 64-bit positions.\<close>

definition room_left :: room where
  "room_left S t p ms \<longleftrightarrow> wf_storage S \<and> roomy (stored S t p @ ms)"

definition healthy_disk :: "'w env \<Rightarrow> bool" where
  "healthy_disk env \<longleftrightarrow> (\<forall>w. healthy (fst (disk_os env w)))"

lemma in_store_append:
  assumes "healthy_disk env" and "room_left (store b) t p (m # ms)"
  shows "\<exists>S w. in_store env (\<lambda>e. storage_append e t p m) b =
      (Inr (of_nat (length (stored (store b) t p))), b\<lparr>store := S, world := w\<rparr>) \<and> wf_storage S \<and>
    stored S t p = stored (store b) t p @ [m] \<and> has_log t p S \<and>
    (\<forall>u q. make_key u q \<noteq> make_key t p \<longrightarrow> stored S u q = stored (store b) u q \<and> has_log u q S = has_log u q (store b))"
proof -
  obtain e w where e: "disk_os env (world b) = (e, w)" by fastforce
  then have h: "healthy e" using assms(1) by (metis fst_conv healthy_disk_def)
  have "roomy (stored (store b) t p @ [m])"
    using assms(2) roomy_prefix [of "stored (store b) t p @ [m]" ms] by (simp add: room_left_def)
  then obtain S where S: "storage_append e t p m (store b) = (Inr (of_nat (length (stored (store b) t p))), S)"
    and rest: "wf_storage S" "stored S t p = stored (store b) t p @ [m]" "has_log t p S"
      "\<forall>u q. make_key u q \<noteq> make_key t p \<longrightarrow> stored S u q = stored (store b) u q \<and> has_log u q S = has_log u q (store b)"
    using wf_storage_append [OF _ h] assms(2) unfolding room_left_def by blast
  have "in_store env (\<lambda>e. storage_append e t p m) b =
      (Inr (of_nat (length (stored (store b) t p))), b\<lparr>store := S, world := w\<rparr>)"
    using e S by (simp add: in_store_def seq_def in_world_def)
  then show ?thesis using rest by blast
qed

lemma room_left_rest:
  assumes "healthy_disk env" and "room_left (store b) t p (m # ms)"
    and "in_store env (\<lambda>e. storage_append e t p m) b = (Inr off, b')"
  shows "room_left (store b') t p ms"
  using in_store_append [OF assms(1,2)] assms(2,3) by (auto simp: room_left_def)

lemma broker_runs_roomy: "healthy_disk env \<Longrightarrow> broker_run (broker_runs env room_left) env room_left"
  by unfold_locales (auto intro: broker_runs_trans broker_runs_step atomic_step.intros room_left_rest)

end
