(* ===== verification/BrokerInvariants.thy ===== *)
theory BrokerInvariants
  imports BrokerRun "HOL-Library.Sublist"
begin

text \<open>
  Invariants of a broker along every run of atomic steps: what is committed stays committed, the
  acknowledgement counts never exceed the number of brokers that acknowledged, the role agrees
  with the leader's id, and the logs only grow.
\<close>

lemma on_repl_simps [prog]: "on_repl f b = (Inr (), b\<lparr>repl := f (repl b)\<rparr>)"
  by (simp add: on_repl_def modify_def)

section \<open>Committed offsets\<close>

lemma is_committed_mark:
  "is_committed t p off b \<Longrightarrow> is_committed t p off (snd (mark_committed u q off' b))"
  by (auto simp: is_committed_def mark_committed_def prog Let_def lookup_def split: option.splits if_splits)

lemma commit_index_note_ack [simp]: "commit_index_by_log (note_ack i key off r) = commit_index_by_log r"
  by (simp add: note_ack_def Let_def)

lemma in_store_frame:
  assumes "in_store env f b = (r, c)"
  shows "repl c = repl b \<and> cfg c = cfg b \<and> groups c = groups b"
  using assms by (auto simp: in_store_def seq_def in_world_def split: prod.splits sum.splits)

lemma in_store_frame_snd [simp]:
  "repl (snd (in_store env f b)) = repl b" "cfg (snd (in_store env f b)) = cfg b"
  "groups (snd (in_store env f b)) = groups b"
  using in_store_frame by (metis prod.collapse)+

lemma start_acks_frame [simp]:
  "commit_index_by_log (repl (snd (start_acks key b))) = commit_index_by_log (repl b)"
  "cfg (snd (start_acks key b)) = cfg b" "store (snd (start_acks key b)) = store b"
  by (simp_all add: start_acks_def prog)

lemma mark_committed_frame [simp]:
  "cfg (snd (mark_committed t p off b)) = cfg b" "store (snd (mark_committed t p off b)) = store b"
  by (simp_all add: mark_committed_def prog)

lemma atomic_step_committed:
  "atomic_step env cap b c \<Longrightarrow> is_committed t p off b \<Longrightarrow> is_committed t p off c"
  by (induction rule: atomic_step.induct) ((rule is_committed_mark | simp add: is_committed_def)+)

lemma broker_runs_committed:
  "broker_runs env cap b c \<Longrightarrow> is_committed t p off b \<Longrightarrow> is_committed t p off c"
  unfolding broker_runs_def by (induction rule: rtranclp_induct) (auto intro: atomic_step_committed)

section \<open>Acknowledgements\<close>

definition acks_ok :: "replication \<Rightarrow> bool" where
  "acks_ok r \<longleftrightarrow> (\<forall>key n. map_of (ack_counts r) key = Some n \<longrightarrow> n \<le> card (set (lookup [] (ack_followers r) key)))"

lemma lookup_update [simp]: "lookup d (AList.update k v m) k' = (if k' = k then v else lookup d m k')"
  by (simp add: lookup_def)

lemma acks_ok_note: "acks_ok r \<Longrightarrow> acks_ok (note_ack i key off r)"
proof (cases "i \<in> set (lookup [] (ack_followers r) key)")
  case False
  assume ok: "acks_ok r"
  then have "lookup 0 (ack_counts r) key \<le> card (set (lookup [] (ack_followers r) key))"
    by (cases "map_of (ack_counts r) key") (simp_all add: acks_ok_def lookup_def [of 0])
  then show ?thesis using False ok by (simp add: acks_ok_def note_ack_def Let_def)
qed (simp add: note_ack_def)

lemma acks_ok_start: "acks_ok (repl b) \<Longrightarrow> acks_ok (repl (snd (start_acks key b)))"
  by (auto simp: acks_ok_def start_acks_def prog card_insert_if Suc_le_eq card_gt_0_iff)

lemma acks_ok_new [simp]: "acks_ok (new_replication c t)"
  by (simp add: acks_ok_def new_replication_def)

lemma atomic_step_acks: "atomic_step env cap b c \<Longrightarrow> acks_ok (repl b) \<Longrightarrow> acks_ok (repl c)"
  by (induction rule: atomic_step.induct)
    (simp_all add: acks_ok_note acks_ok_start, simp_all add: acks_ok_def mark_committed_def prog Let_def)

lemma broker_runs_acks: "broker_runs env cap b c \<Longrightarrow> acks_ok (repl b) \<Longrightarrow> acks_ok (repl c)"
  unfolding broker_runs_def by (induction rule: rtranclp_induct) (auto intro: atomic_step_acks)

definition acked_by :: "string \<Rightarrow> int32 \<Rightarrow> u64 \<Rightarrow> 'w broker \<Rightarrow> int32 set" where
  "acked_by t p off b = set (lookup [] (ack_followers (repl b)) (make_ack_key t p off))"

lemma quorum_majority:
  assumes "acks_ok (repl b)" and "quorum_reached t p off b"
  shows "1 + length (cfg_peers (cfg b)) < 2 * card (acked_by t p off b)"
proof -
  obtain n where "map_of (ack_counts (repl b)) (make_ack_key t p off) = Some n" "quorum b \<le> n"
    using assms(2) by (auto simp: quorum_reached_def split: option.splits)
  then have "quorum b \<le> card (acked_by t p off b)"
    using assms(1) unfolding acks_ok_def acked_by_def by fastforce
  then show ?thesis by (simp add: quorum_def)
qed

section \<open>Configuration\<close>

lemma atomic_step_config:
  "atomic_step env cap b c \<Longrightarrow> cfg_id (cfg c) = cfg_id (cfg b) \<and> cfg_peers (cfg c) = cfg_peers (cfg b) \<and>
     (config_ok (cfg b) \<longrightarrow> config_ok (cfg c))"
  by (induction rule: atomic_step.induct) auto

lemma broker_runs_config:
  "broker_runs env cap b c \<Longrightarrow> cfg_id (cfg c) = cfg_id (cfg b) \<and> cfg_peers (cfg c) = cfg_peers (cfg b) \<and>
     (config_ok (cfg b) \<longrightarrow> config_ok (cfg c))"
  unfolding broker_runs_def by (induction rule: rtranclp_induct) (auto dest: atomic_step_config)

section \<open>Logs only grow\<close>

definition grown :: "storage \<Rightarrow> storage \<Rightarrow> bool" where
  "grown S T \<longleftrightarrow> wf_storage T \<and> (\<forall>u q. prefix (stored S u q) (stored T u q) \<and> (has_log u q S \<longrightarrow> has_log u q T))"

lemma grown_refl: "wf_storage S \<Longrightarrow> grown S S"
  by (simp add: grown_def)

lemma grown_trans: "grown S T \<Longrightarrow> grown T U \<Longrightarrow> grown S U"
  unfolding grown_def by (meson prefix_order.order_trans)

lemma append_grown:
  assumes "healthy_disk env" and "room_left (store b) t p (m # xs)"
  shows "grown (store b) (store (snd (in_store env (\<lambda>e. storage_append e t p m) b)))"
proof -
  obtain S w where S: "in_store env (\<lambda>e. storage_append e t p m) b =
      (Inr (of_nat (length (stored (store b) t p))), b\<lparr>store := S, world := w\<rparr>)" "wf_storage S"
    "stored S t p = stored (store b) t p @ [m]" "has_log t p S"
    "\<forall>u q. make_key u q \<noteq> make_key t p \<longrightarrow> stored S u q = stored (store b) u q \<and> has_log u q S = has_log u q (store b)"
    using in_store_append [OF assms] by blast
  have "prefix (stored (store b) u q) (stored S u q) \<and> (has_log u q (store b) \<longrightarrow> has_log u q S)" for u q
  proof (cases "make_key u q = make_key t p")
    case True
    then have "stored S u q = stored S t p" "stored (store b) u q = stored (store b) t p" "has_log u q S"
      using S(4) unfolding stored_def has_log_def True by simp_all
    then show ?thesis using S(3) by simp
  qed (use S(5) in simp)
  then show ?thesis using S(1,2) by (simp add: grown_def)
qed

lemma atomic_step_grown:
  "atomic_step env room_left b c \<Longrightarrow> healthy_disk env \<Longrightarrow> wf_storage (store b) \<Longrightarrow> grown (store b) (store c)"
  by (induction rule: atomic_step.induct) (simp_all add: grown_refl append_grown)

lemma broker_runs_grown:
  "broker_runs env room_left b c \<Longrightarrow> healthy_disk env \<Longrightarrow> wf_storage (store b) \<Longrightarrow> grown (store b) (store c)"
  unfolding broker_runs_def
proof (induction rule: rtranclp_induct)
  case (step c d)
  then have "grown (store b) (store c)" by blast
  with step show ?case using atomic_step_grown [of env c d] grown_trans grown_def by blast
qed (simp add: grown_refl)

section \<open>Reads\<close>

lemma fetch_success:
  assumes "wf_storage (store b)" and "handle_fetch req b = (Inr r, c)" and "success r"
  shows "c = b \<and> r = accepted (stored (store b) (topic req) (partition req) ! unat (fetch_offset req)) (fetch_offset req) \<and>
    unat (fetch_offset req) < length (stored (store b) (topic req) (partition req)) \<and>
    has_log (topic req) (partition req) (store b) \<and>
    is_committed (topic req) (partition req) (fetch_offset req) b \<and> topic req \<noteq> [] \<and> 0 \<le> val32 (partition req) \<and>
    stored (store b) (topic req) (partition req) ! unat (fetch_offset req) \<noteq> []"
proof -
  have has: "has_log (topic req) (partition req) (store b)"
    using assms(2,3) by (auto simp: handle_fetch_def prog refusal_def storage_fetch_def has_log_def split: if_splits option.splits)
  show ?thesis
    using assms(2,3) wf_storage_fetch [OF assms(1) has, of "fetch_offset req"] has
    by (auto simp: handle_fetch_def prog refusal_def fetch_spec_def split: if_splits)
qed

lemma fetch_stable:
  assumes "grown (store b) (store c)" and "wf_storage (store b)"
    and "is_committed (topic req) (partition req) (fetch_offset req) c"
    and "handle_fetch req b = (Inr r, b')" and "success r"
  shows "fst (handle_fetch req c) = Inr r"
proof -
  let ?ms = "stored (store b) (topic req) (partition req)"
  let ?ns = "stored (store c) (topic req) (partition req)"
  note b = fetch_success [OF assms(2,4,5)]
  obtain zs where zs: "?ns = ?ms @ zs" "wf_storage (store c)" "has_log (topic req) (partition req) (store c)"
    using assms(1) b unfolding grown_def prefix_def by blast
  then have "storage_fetch (topic req) (partition req) (fetch_offset req) (store c) = Inr (?ms ! unat (fetch_offset req))"
    using b by (simp add: wf_storage_fetch fetch_spec_def nth_append)
  then show ?thesis using b assms(3) by (simp add: handle_fetch_def prog)
qed

end
