(* ===== verification/Produce.thy ===== *)
theory Produce
  imports BrokerInvariants
begin

text \<open>
  The write path of the leader, \<^verbatim>\<open>handle_produce\<close> and \<^verbatim>\<open>handle_batch_produce\<close> of
  \<^verbatim>\<open>src/core/broker.cpp\<close>, from the local append over replication and quorum to the commit,
  against any network and any clock.
\<close>

section \<open>What waiting, broadcasting and replicating leave alone\<close>

definition same_log_state :: "'w broker \<Rightarrow> 'w broker \<Rightarrow> bool" where
  "same_log_state b c \<longleftrightarrow> cfg c = cfg b \<and> store c = store b \<and> groups c = groups b \<and>
     ack_counts (repl c) = ack_counts (repl b) \<and> ack_followers (repl c) = ack_followers (repl b) \<and>
     commit_index_by_log (repl c) = commit_index_by_log (repl b)"

interpretation quiet: liveness_run same_log_state env for env
  by unfold_locales (auto simp: same_log_state_def)

lemma acks_ok_frame [simp]:
  "acks_ok (r\<lparr>follower_ack_offsets := fo\<rparr>) = acks_ok r" "acks_ok (r\<lparr>last_heartbeat := hb\<rparr>) = acks_ok r"
  "acks_ok (r\<lparr>failed_peers := fp\<rparr>) = acks_ok r"
  by (simp_all add: acks_ok_def)

definition same_records :: "'w broker \<Rightarrow> 'w broker \<Rightarrow> bool" where
  "same_records b c \<longleftrightarrow> cfg c = cfg b \<and> store c = store b \<and> groups c = groups b \<and>
     commit_index_by_log (repl c) = commit_index_by_log (repl b) \<and> (acks_ok (repl b) \<longrightarrow> acks_ok (repl c))"

interpretation replicating: ack_run same_records env for env
  by unfold_locales (auto simp: same_records_def start_acks_def prog acks_ok_note acks_ok_start [unfolded start_acks_def prog, simplified])

lemma same_log_state_views:
  assumes "same_log_state b c"
  shows "quorum_reached t p off c = quorum_reached t p off b" "acked_by t p off c = acked_by t p off b"
    "is_committed t p off c = is_committed t p off b"
proof -
  have "quorum c = quorum b" using assms by (simp add: same_log_state_def quorum_def)
  then show "quorum_reached t p off c = quorum_reached t p off b"
    using assms by (simp add: same_log_state_def quorum_reached_def split: option.split)
qed (use assms in \<open>simp_all add: same_log_state_def acked_by_def is_committed_def\<close>)

lemma wait_loop_result: "wait_loop env reached deadline w = Some r \<Longrightarrow> fst r = reached"
  by (rule wait_loop.raw_induct [where P = "\<lambda>env reached deadline w r. fst r = reached"])
    (auto split: prod.splits if_splits)

lemma wait_for_quorum_result:
  assumes "wait_for_quorum env t p off timeout b = (Inr ok, c)"
  shows "ok = quorum_reached t p off b" and "same_log_state b c"
  using assms quiet.run_wait_for_quorum [of b env t p off timeout]
  by (auto simp: wait_for_quorum_def dest!: wait_loop_result split: prod.splits option.splits)

lemma replicate_message_result:
  assumes "replicate_message env t p off msg b = (Inr ok, c)"
  shows "ok \<longleftrightarrow> is_leader b \<and> quorum_reached t p off c"
  using assms by (auto simp: replicate_message_def prog elim!: seq_InrE split: if_splits)

section \<open>Producing\<close>

lemma is_committed_after_mark: "is_committed t p off (snd (mark_committed t p off b))"
  by (auto simp: is_committed_def mark_committed_def prog Let_def)

lemma mark_committed_eq: "mark_committed t p off b = (Inr (), snd (mark_committed t p off b))"
  by (simp add: mark_committed_def prog)

lemma mark_committed_acks [simp]:
  "acked_by u q o' (snd (mark_committed t p off b)) = acked_by u q o' b"
  by (simp add: acked_by_def mark_committed_def prog Let_def)

lemma refresh_frame:
  assumes "refresh t b = (r, c)"
  shows "repl c = repl b" "cfg c = cfg b" "store c = store b" "r = Inr ()"
  using assms by (auto simp: refresh_def on_groups_def)

text \<open>The part of the produce handler after the local append.\<close>

definition after_append :: "'w env \<Rightarrow> string \<Rightarrow> int32 \<Rightarrow> string \<Rightarrow> u64 \<Rightarrow> ('w broker, Response) prog" where
  "after_append env t p msg off =
     seq (refresh t) (\<lambda>_.
     seq (replicate_message env t p off msg) (\<lambda>replicated.
       if \<not> replicated then ret (refusal ''replication_failed'' off)
       else seq (wait_for_quorum env t p off kQuorumTimeout) (\<lambda>reached.
         if \<not> reached then ret (refusal ''quorum_timeout'' off)
         else seq (mark_committed t p off) (\<lambda>_.
              seq (broadcast_commit env t p off) (\<lambda>_.
              ret (accepted [] off))))))"

lemma handle_produce_leader:
  assumes "is_leader b" and "topic req \<noteq> []" and "0 \<le> val32 (partition req)" and "message req \<noteq> []"
  shows "handle_produce env req b =
    seq (in_store env (\<lambda>e. storage_append e (topic req) (partition req) (message req)))
      (after_append env (topic req) (partition req) (message req)) b"
  using assms by (simp add: handle_produce_def Let_def after_append_def [abs_def])

lemma after_append_outcome:
  assumes "after_append env t p msg off b = (Inr r, c)" and "is_leader b" and "acks_ok (repl b)"
  shows "store c = store b \<and>
    (if success r then r = accepted [] off \<and> is_committed t p off c \<and>
        1 + length (cfg_peers (cfg c)) < 2 * card (acked_by t p off c)
     else commit_index_by_log (repl c) = commit_index_by_log (repl b))"
proof -
  obtain b1 where b1: "refresh t b = (Inr (), b1)" "repl b1 = repl b" "cfg b1 = cfg b" "store b1 = store b"
    using refresh_frame by (metis surj_pair)
  obtain ok b2 where b2: "replicate_message env t p off msg b1 = (Inr ok, b2)"
    using assms(1) b1(1) by (auto simp: after_append_def elim!: seq_InrE)
  then have same: "same_records b1 b2"
    using replicating.run_replicate_message [of b1 env t p off msg] by simp
  show ?thesis
  proof (cases ok)
    case False
    then have "r = refusal ''replication_failed'' off \<and> c = b2"
      using assms(1) b1(1) b2 by (simp add: after_append_def prog)
    then show ?thesis using same b1 by (simp add: refusal_def same_records_def)
  next
    case True
    obtain reached b3 where b3: "wait_for_quorum env t p off kQuorumTimeout b2 = (Inr reached, b3)"
      using assms(1) b1(1) b2 True by (auto simp: after_append_def prog elim!: seq_InrE)
    have q: "quorum_reached t p off b2" using replicate_message_result [OF b2] True by simp
    note w = wait_for_quorum_result [OF b3]
    let ?b4 = "snd (mark_committed t p off b3)"
    have "seq (broadcast_commit env t p off) (\<lambda>_. ret (accepted [] off)) ?b4 = (Inr r, c)"
      using assms(1) b1(1) b2 True b3 w(1) q
      by (simp add: after_append_def prog seq_Inr [OF mark_committed_eq])
    then have r: "r = accepted [] off" and bc: "same_log_state ?b4 c"
      using quiet.run_broadcast_commit [of ?b4 env t p off] by (auto simp: ret_def elim!: seq_InrE)
    have "acks_ok (repl b2)" using same b1(2) assms(3) by (simp add: same_records_def)
    then have "1 + length (cfg_peers (cfg b2)) < 2 * card (acked_by t p off b2)"
      using q by (rule quorum_majority)
    then have "1 + length (cfg_peers (cfg c)) < 2 * card (acked_by t p off c)"
      using same_log_state_views [OF bc] same_log_state_views [OF w(2)] bc w(2) by (simp add: same_log_state_def)
    moreover have "is_committed t p off c"
      using same_log_state_views(3) [OF bc] is_committed_after_mark by simp
    ultimately show ?thesis
      using r bc w(2) same b1(4) by (simp add: accepted_def same_log_state_def same_records_def)
  qed
qed

section \<open>Producing a batch\<close>

lemma append_each_offsets:
  assumes "healthy_disk env"
  shows "room_left (store b) t p ms \<Longrightarrow>
    \<exists>S w. append_each env t p ms b =
        (Inr (offsets_from (length (stored (store b) t p)) (length ms)), b\<lparr>store := S, world := w\<rparr>) \<and> wf_storage S \<and>
      stored S t p = stored (store b) t p @ ms \<and> (ms \<noteq> [] \<longrightarrow> has_log t p S)"
proof (induction ms arbitrary: b)
  case Nil
  then show ?case
    by (intro exI [of _ "store b"] exI [of _ "world b"]) (simp add: ret_def room_left_def offsets_from_def)
next
  case (Cons m ms)
  let ?n = "length (stored (store b) t p)"
  obtain S w where S: "in_store env (\<lambda>e. storage_append e t p m) b = (Inr (of_nat ?n), b\<lparr>store := S, world := w\<rparr>)"
    "wf_storage S" "stored S t p = stored (store b) t p @ [m]" "has_log t p S"
    using in_store_append [OF assms Cons.prems(1)] by blast
  let ?b = "b\<lparr>store := S, world := w\<rparr>"
  have room: "room_left (store ?b) t p ms" by (rule room_left_rest [OF assms Cons.prems(1) S(1)])
  then obtain T v where T: "append_each env t p ms ?b =
      (Inr (offsets_from (length (stored S t p)) (length ms)), b\<lparr>store := T, world := v\<rparr>)" "wf_storage T"
    "stored T t p = stored S t p @ ms" "ms \<noteq> [] \<longrightarrow> has_log t p T"
    using Cons.IH [of ?b] by auto
  moreover have "has_log t p T"
    using T(1,4) S(4) by (cases "ms = []") (auto simp: ret_def dest: arg_cong [where f = store])
  ultimately show ?case using S by (auto simp: prog offsets_from_Suc)
qed

definition after_batch :: "'w env \<Rightarrow> string \<Rightarrow> int32 \<Rightarrow> string list \<Rightarrow> u64 list \<Rightarrow> ('w broker, Response) prog" where
  "after_batch env t p msgs offs =
     seq (refresh t) (\<lambda>_.
     seq (replicate_batch env t p (hd offs) msgs) (\<lambda>replicated.
     seq (if replicated then wait_for_quorum env t p (last offs) kQuorumTimeout else ret False) (\<lambda>reached.
       if \<not> reached then ret (refusal ''quorum_timeout'' (last offs))
       else seq (for_each (\<lambda>off. seq (mark_committed t p off) (\<lambda>_. broadcast_commit env t p off)) offs) (\<lambda>_.
            ret \<lparr>success = True, reply = [], appended_offset = last offs, appended_offsets = offs\<rparr>))))"

lemma handle_batch_produce_leader:
  assumes "is_leader b" and "topic req \<noteq> []" and "0 \<le> val32 (partition req)" and "messages req \<noteq> []"
  shows "handle_batch_produce env req b =
    seq (append_each env (topic req) (partition req) (messages req))
      (after_batch env (topic req) (partition req) (messages req)) b"
  using assms by (simp add: handle_batch_produce_def Let_def after_batch_def [abs_def])

text \<open>What committing a run of offsets changes: the commit index and nothing else of the records.\<close>

definition same_acks :: "'w broker \<Rightarrow> 'w broker \<Rightarrow> bool" where
  "same_acks b c \<longleftrightarrow> cfg c = cfg b \<and> store c = store b \<and> ack_followers (repl c) = ack_followers (repl b) \<and>
     (\<forall>t p off. is_committed t p off b \<longrightarrow> is_committed t p off c)"

lemma same_acks_trans: "same_acks a b \<Longrightarrow> same_acks b c \<Longrightarrow> same_acks a c"
  by (simp add: same_acks_def)

lemma commit_one:
  assumes "seq (mark_committed t p off) (\<lambda>_. broadcast_commit env t p off) b = (Inr x, c)"
  shows "same_acks b c \<and> is_committed t p off c"
proof -
  let ?b = "snd (mark_committed t p off b)"
  have "broadcast_commit env t p off ?b = (Inr x, c)" using assms by (simp add: seq_Inr [OF mark_committed_eq])
  then have "same_log_state ?b c" using quiet.run_broadcast_commit [of ?b env t p off] by simp
  moreover have "ack_followers (repl ?b) = ack_followers (repl b)"
    by (simp add: mark_committed_def prog Let_def)
  ultimately show ?thesis
    using same_log_state_views(3) [of ?b c] is_committed_after_mark is_committed_mark
    by (auto simp: same_log_state_def same_acks_def)
qed

lemma commit_all:
  "for_each (\<lambda>off. seq (mark_committed t p off) (\<lambda>_. broadcast_commit env t p off)) offs b = (Inr x, c) \<Longrightarrow>
   same_acks b c \<and> (\<forall>off \<in> set offs. is_committed t p off c)"
proof (induction offs arbitrary: b)
  case Nil
  then show ?case by (simp add: ret_def same_acks_def)
next
  case (Cons off offs)
  then obtain y d where d: "seq (mark_committed t p off) (\<lambda>_. broadcast_commit env t p off) b = (Inr y, d)"
    and rest: "for_each (\<lambda>off. seq (mark_committed t p off) (\<lambda>_. broadcast_commit env t p off)) offs d = (Inr x, c)"
    by (auto elim: seq_InrE)
  have "same_acks d c" using Cons.IH [OF rest] by simp
  with commit_one [OF d] Cons.IH [OF rest] show ?case by (auto simp: same_acks_def)
qed

lemma replicate_batch_result:
  assumes "replicate_batch env t p first msgs b = (Inr ok, c)"
  shows "ok \<longleftrightarrow> is_leader b \<and> msgs \<noteq> [] \<and> quorum_reached t p (first + of_nat (length msgs) - 1) c"
  using assms by (auto simp: replicate_batch_def Let_def prog elim!: seq_InrE split: if_splits)

lemma after_batch_outcome:
  assumes "after_batch env t p msgs offs b = (Inr r, c)" and "is_leader b" and "acks_ok (repl b)"
    and "last offs = hd offs + of_nat (length msgs) - 1"
  shows "store c = store b \<and>
    (if success r
     then r = \<lparr>success = True, reply = [], appended_offset = last offs, appended_offsets = offs\<rparr> \<and>
       (\<forall>off \<in> set offs. is_committed t p off c) \<and>
       1 + length (cfg_peers (cfg c)) < 2 * card (acked_by t p (last offs) c)
     else commit_index_by_log (repl c) = commit_index_by_log (repl b))"
proof -
  obtain b1 where b1: "refresh t b = (Inr (), b1)" "repl b1 = repl b" "cfg b1 = cfg b" "store b1 = store b"
    using refresh_frame by (metis surj_pair)
  obtain ok b2 where b2: "replicate_batch env t p (hd offs) msgs b1 = (Inr ok, b2)"
    using assms(1) b1(1) by (auto simp: after_batch_def elim!: seq_InrE)
  then have same: "same_records b1 b2"
    using replicating.run_replicate_batch [of b1 env t p "hd offs" msgs] by simp
  show ?thesis
  proof (cases ok)
    case False
    then have "r = refusal ''quorum_timeout'' (last offs) \<and> c = b2"
      using assms(1) b1(1) b2 by (simp add: after_batch_def prog)
    then show ?thesis using same b1 by (simp add: refusal_def same_records_def)
  next
    case True
    obtain reached b3 where b3: "wait_for_quorum env t p (last offs) kQuorumTimeout b2 = (Inr reached, b3)"
      using assms(1) b1(1) b2 True by (auto simp: after_batch_def prog elim!: seq_InrE)
    have q: "quorum_reached t p (last offs) b2" using replicate_batch_result [OF b2] True assms(4) by simp
    note w = wait_for_quorum_result [OF b3]
    obtain x where x: "for_each (\<lambda>off. seq (mark_committed t p off) (\<lambda>_. broadcast_commit env t p off)) offs b3 = (Inr x, c)"
      and r: "r = \<lparr>success = True, reply = [], appended_offset = last offs, appended_offsets = offs\<rparr>"
      using assms(1) b1(1) b2 True b3 w(1) q by (auto simp: after_batch_def prog elim!: seq_InrE)
    note com = commit_all [OF x]
    have "acks_ok (repl b2)" using same b1(2) assms(3) by (simp add: same_records_def)
    then have "1 + length (cfg_peers (cfg b2)) < 2 * card (acked_by t p (last offs) b2)"
      using q by (rule quorum_majority)
    moreover have "cfg c = cfg b2" "acked_by t p (last offs) c = acked_by t p (last offs) b2" "store c = store b2"
      using com w(2) by (simp_all add: same_acks_def same_log_state_def acked_by_def)
    ultimately show ?thesis
      using r com same b1(4) by (simp add: same_records_def)
  qed
qed

section \<open>A broker on its own\<close>

definition steady :: "'w env \<Rightarrow> ('w \<Rightarrow> int) \<Rightarrow> bool" where
  "steady env clock \<longleftrightarrow> (\<forall>w. fst (now env w) = clock w \<and> clock w \<le> clock (snd (now env w))) \<and>
     (\<forall>d w. clock w + d \<le> clock (sleep_for env d w))"

definition ticking_env :: "int env" where
  "ticking_env = \<lparr>dial = \<lambda>h p w. (None, w), deliver = \<lambda>h p out w. ([], w), now = \<lambda>w. (w, w + 1),
     sleep_for = \<lambda>d w. w + d, disk_os = \<lambda>w. (healthy_os, w)\<rparr>"

definition solo_config :: BrokerConfig where
  "solo_config = new_config (int32_of 9092) (int32_of 1) ''127.0.0.1'' [] ''data'' LEADER (int32_of 1)"

definition solo :: "int broker" where
  "solo = \<lparr>cfg = solo_config, store = sample_storage, repl = new_replication solo_config 0, groups = [], world = 0\<rparr>"

definition produce_of :: "string \<Rightarrow> int32 \<Rightarrow> string \<Rightarrow> Request" where
  "produce_of t p m = (blank_request PRODUCE)\<lparr>topic := t, partition := p, message := m\<rparr>"

definition solo_1 :: "int broker" where
  "solo_1 = snd (handle_produce ticking_env (produce_of ''t'' (int32_of 0) ''m'') solo)"

lemma ticking_facts: "steady ticking_env (\<lambda>w. w)" "healthy_disk ticking_env"
  by (simp_all add: steady_def ticking_env_def healthy_disk_def healthy_healthy_os)

lemma solo_facts: "is_leader solo" "acks_ok (repl solo)" "wf_storage (store solo)" "stored (store solo) t p = []"
  by (simp_all add: solo_def sample_storage_wf is_leader_def cfg_is_leader_def solo_config_def new_config_def)

lemma solo_produce: "fst (handle_produce ticking_env (produce_of ''t'' (int32_of 0) ''m'') solo) = Inr (accepted [] 0)"
  by code_simp

lemma solo_1_run:
  "handle_produce ticking_env (produce_of ''t'' (int32_of 0) ''m'') solo = (Inr (accepted [] 0), solo_1)"
  using solo_produce by (simp add: solo_1_def prod_eq_iff)

lemma produce_of_simps [simp]: "topic (produce_of t p m) = t" "partition (produce_of t p m) = p" "message (produce_of t p m) = m"
  "messages (produce_of t p m) = []" "kind (produce_of t p m) = PRODUCE"
  by (simp_all add: produce_of_def blank_request_def)

lemma solo_room: "room_left (store solo) t p [''m'']"
  by (simp add: room_left_def solo_facts roomy_def)

section \<open>Properties\<close>

text \<open>
  C3. Producing on the leader: a success means that the message is the next record of its
  partition, at the offset the response names, that more than half of the brokers acknowledged it,
  and that fetching the offset returns the message. A produce that does not succeed leaves the
  commit index as it was.
\<close>
theorem produce_outcome:
  assumes "healthy_disk env" and "room_left (store b) (topic req) (partition req) [message req]"
    and "acks_ok (repl b)" and "is_leader b" and "handle_produce env req b = (Inr r, c)"
  shows "if success r
    then stored (store c) (topic req) (partition req) = stored (store b) (topic req) (partition req) @ [message req] \<and>
      r = accepted [] (of_nat (length (stored (store b) (topic req) (partition req)))) \<and>
      1 + length (cfg_peers (cfg c)) < 2 * card (acked_by (topic req) (partition req) (appended_offset r) c) \<and>
      fst (handle_fetch (req\<lparr>kind := FETCH, fetch_offset := appended_offset r\<rparr>) c) =
        Inr (accepted (message req) (appended_offset r))
    else commit_index_by_log (repl c) = commit_index_by_log (repl b)"
proof (cases "topic req \<noteq> [] \<and> 0 \<le> val32 (partition req) \<and> message req \<noteq> []")
  case True
  let ?t = "topic req" and ?p = "partition req" and ?m = "message req"
  let ?n = "length (stored (store b) ?t ?p)"
  obtain S w where S: "in_store env (\<lambda>e. storage_append e ?t ?p ?m) b = (Inr (of_nat ?n), b\<lparr>store := S, world := w\<rparr>)"
    "wf_storage S" "stored S ?t ?p = stored (store b) ?t ?p @ [?m]" "has_log ?t ?p S"
    using in_store_append [OF assms(1,2)] by blast
  have "after_append env ?t ?p ?m (of_nat ?n) (b\<lparr>store := S, world := w\<rparr>) = (Inr r, c)"
    using assms(4,5) True S(1) by (simp add: handle_produce_leader prog)
  from after_append_outcome [OF this] have out: "store c = S \<and>
    (if success r then r = accepted [] (of_nat ?n) \<and> is_committed ?t ?p (of_nat ?n) c \<and>
        1 + length (cfg_peers (cfg c)) < 2 * card (acked_by ?t ?p (of_nat ?n) c)
     else commit_index_by_log (repl c) = commit_index_by_log (repl b))"
    using assms(3,4) by (auto simp: is_leader_def split: if_splits)
  have "storage_fetch ?t ?p (of_nat ?n) S = Inr ?m"
    using S(2-4) assms(2) unat_offset [of "stored S ?t ?p" ?n]
    by (simp add: wf_storage_fetch fetch_spec_def room_left_def)
  then have read: "is_committed ?t ?p (of_nat ?n) c \<Longrightarrow>
      fst (handle_fetch (req\<lparr>kind := FETCH, fetch_offset := of_nat ?n\<rparr>) c) = Inr (accepted ?m (of_nat ?n))"
    using out True by (simp add: handle_fetch_def prog)
  show ?thesis
  proof (cases "success r")
    case True
    with out have "r = accepted [] (of_nat ?n)" by simp
    then have "appended_offset r = of_nat ?n" by (simp add: accepted_def)
    with True out read S(3) show ?thesis by simp
  qed (use out in simp)
next
  case False
  then show ?thesis
    using assms(4,5) by (auto simp: handle_produce_def Let_def prog refusal_def split: if_splits)
qed

theorem produce_outcome_witness:
  "stored (store solo_1) ''t'' (int32_of 0) = [''m''] \<and> 1 < 2 * card (acked_by ''t'' (int32_of 0) 0 solo_1) \<and>
   fst (handle_fetch ((produce_of ''t'' (int32_of 0) ''m'')\<lparr>kind := FETCH, fetch_offset := 0\<rparr>) solo_1) = Inr (accepted ''m'' 0)"
  using produce_outcome [OF ticking_facts(2) _ solo_facts(2,1) solo_1_run]
  by (simp add: solo_room solo_facts accepted_def)

text \<open>
  C4. Producing a batch on the leader: a success means that every record is in the log in the
  order sent, at consecutive offsets that the response lists, that all these offsets are
  committed and that more than half of the brokers acknowledged the last one. A batch that does
  not succeed leaves the commit index as it was.
\<close>
theorem batch_produce_outcome:
  assumes "healthy_disk env" and "room_left (store b) (topic req) (partition req) (messages req)"
    and "acks_ok (repl b)" and "is_leader b" and "handle_batch_produce env req b = (Inr r, c)"
  shows "if success r
    then stored (store c) (topic req) (partition req) = stored (store b) (topic req) (partition req) @ messages req \<and>
      appended_offsets r = offsets_from (length (stored (store b) (topic req) (partition req))) (length (messages req)) \<and>
      (\<forall>off \<in> set (appended_offsets r). is_committed (topic req) (partition req) off c) \<and>
      1 + length (cfg_peers (cfg c)) < 2 * card (acked_by (topic req) (partition req) (appended_offset r) c)
    else commit_index_by_log (repl c) = commit_index_by_log (repl b)"
proof (cases "topic req \<noteq> [] \<and> 0 \<le> val32 (partition req) \<and> messages req \<noteq> []")
  case True
  let ?t = "topic req" and ?p = "partition req" and ?ms = "messages req"
  define offs where "offs = offsets_from (length (stored (store b) ?t ?p)) (length ?ms)"
  obtain S w where S: "append_each env ?t ?p ?ms b = (Inr offs, b\<lparr>store := S, world := w\<rparr>)"
    "stored S ?t ?p = stored (store b) ?t ?p @ ?ms"
    using append_each_offsets [OF assms(1,2)] offs_def by blast
  have "hd offs = of_nat (length (stored (store b) ?t ?p))"
    using True by (cases ?ms) (simp_all add: offs_def offsets_from_Suc)
  then have last: "last offs = hd offs + of_nat (length ?ms) - 1"
    using True by (cases ?ms) (auto simp: offs_def offsets_from_def last_map)
  have "after_batch env ?t ?p ?ms offs (b\<lparr>store := S, world := w\<rparr>) = (Inr r, c)"
    using assms(4,5) True S(1) by (simp add: handle_batch_produce_leader prog)
  from after_batch_outcome [OF this _ _ last] show ?thesis
    using assms(3,4) S(2) by (auto simp: is_leader_def offs_def split: if_splits)
next
  case False
  then show ?thesis
    using assms(4,5) by (auto simp: handle_batch_produce_def Let_def prog refusal_def split: if_splits)
qed

definition solo_batch :: Request where
  "solo_batch = (blank_request BATCH_PRODUCE)\<lparr>topic := ''t'', partition := int32_of 0, messages := [''a'', ''b'']\<rparr>"

lemma solo_batch_run:
  "fst (handle_batch_produce ticking_env solo_batch solo) =
     Inr \<lparr>success = True, reply = [], appended_offset = 1, appended_offsets = [0, 1]\<rparr>"
  by code_simp

theorem batch_produce_outcome_witness:
  "stored (store (snd (handle_batch_produce ticking_env solo_batch solo))) ''t'' (int32_of 0) = [''a'', ''b''] \<and>
   is_committed ''t'' (int32_of 0) 1 (snd (handle_batch_produce ticking_env solo_batch solo))"
proof -
  let ?c = "snd (handle_batch_produce ticking_env solo_batch solo)"
  have run: "handle_batch_produce ticking_env solo_batch solo =
      (Inr \<lparr>success = True, reply = [], appended_offset = 1, appended_offsets = [0, 1]\<rparr>, ?c)"
    using solo_batch_run by (simp add: prod_eq_iff)
  have "room_left (store solo) (topic solo_batch) (partition solo_batch) (messages solo_batch)"
    by (simp add: room_left_def solo_facts roomy_def solo_batch_def)
  from batch_produce_outcome [OF ticking_facts(2) this solo_facts(2,1) run] show ?thesis
    by (simp add: solo_facts solo_batch_def blank_request_def)
qed

end
