(* ===== verification/Election.thy ===== *)
theory Election
  imports Produce
begin

text \<open>
  Liveness of the replication manager: the election rule of \<^verbatim>\<open>maybe_elect_leader\<close> and the wait
  for a quorum of \<^verbatim>\<open>src/replication/replication_manager.cpp\<close>.
\<close>

section \<open>Election\<close>

lemma foldl_min:
  fixes f :: "'a \<Rightarrow> 'b::linorder"
  shows "foldl (\<lambda>best x. if P x then min best (f x) else best) a xs = Min (insert a (f ` {x \<in> set xs. P x}))"
proof -
  have "foldl (\<lambda>best x. if P x then min best (f x) else best) a xs = fold min (map f (filter P xs)) a"
    by (induction xs arbitrary: a) (simp_all add: min.commute)
  also have "\<dots> = Min (set (a # map f (filter P xs)))" by (rule Min.set_eq_fold [symmetric])
  finally show ?thesis by simp
qed

definition live_members :: "'w broker \<Rightarrow> int32 set" where
  "live_members b = insert (cfg_id (cfg b)) {i \<in> peer_id ` set (cfg_peers (cfg b)). is_peer_available i b}"

lemma elected_eq: "elected b = Min (live_members b)"
proof -
  have "live_members b = insert (cfg_id (cfg b)) (peer_id ` {peer \<in> set (cfg_peers (cfg b)).
      peer_id peer \<noteq> cfg_id (cfg b) \<and> is_peer_available (peer_id peer) b})"
    by (auto simp: live_members_def)
  then show ?thesis by (simp add: elected_def foldl_min)
qed

lemma set_fold_insert: "set (fold List.insert xs ys) = set xs \<union> set ys"
  by (induction xs arbitrary: ys) auto

text \<open>
  C8. An election never fails. It adds to the failed peers those not heard from for longer than
  the timeout; a leader that is another broker and still available stays, and otherwise the leader
  becomes the member with the lowest id among the broker itself and the peers it considers live.
  After such an election the broker leads exactly when it is that member.
\<close>
theorem election_lowest_live:
  "\<exists>c. maybe_elect_leader env b = (Inr (), c) \<and>
     set (failed_peers (repl c)) = set (failed_peers (repl b)) \<union>
       {i. \<exists>seen. (i, seen) \<in> set (last_heartbeat (repl b)) \<and> kHeartbeatTimeout < fst (now env (world b)) - seen} \<and>
     leader_broker_id (cfg c) =
       (if leader_broker_id (cfg b) \<noteq> cfg_id (cfg b) \<and> is_peer_available (leader_broker_id (cfg b)) c
        then leader_broker_id (cfg b) else Min (live_members c)) \<and>
     is_leader c =
       (if leader_broker_id (cfg b) \<noteq> cfg_id (cfg b) \<and> is_peer_available (leader_broker_id (cfg b)) c
        then is_leader b else leader_broker_id (cfg c) = cfg_id (cfg c))"
proof -
  obtain t w where t: "now env (world b) = (t, w)" by fastforce
  define b1 where "b1 = b\<lparr>world := w, repl := (repl b)\<lparr>failed_peers := fold List.insert (stale t (repl b)) (failed_peers (repl b))\<rparr>\<rparr>"
  define keep where "keep \<longleftrightarrow> leader_broker_id (cfg b) \<noteq> cfg_id (cfg b) \<and> is_peer_available (leader_broker_id (cfg b)) b1"
  define c where "c = (if keep then b1 else b1\<lparr>cfg := set_leader (elected b1) (cfg b1)\<rparr>)"
  have run: "maybe_elect_leader env b = (Inr (), c)"
    using t by (simp add: maybe_elect_leader_def seq_def in_world_def prog on_repl_def Let_def b1_def c_def keep_def)
  have same: "repl c = repl b1" "live_members c = live_members b1"
    by (simp_all add: c_def live_members_def is_peer_available_def)
  have "set (failed_peers (repl c)) = set (failed_peers (repl b)) \<union>
      {i. \<exists>seen. (i, seen) \<in> set (last_heartbeat (repl b)) \<and> kHeartbeatTimeout < t - seen}"
    by (auto simp: same b1_def set_fold_insert stale_def image_iff)
  moreover have "keep \<longleftrightarrow> leader_broker_id (cfg b) \<noteq> cfg_id (cfg b) \<and> is_peer_available (leader_broker_id (cfg b)) c"
    by (simp add: keep_def is_peer_available_def same)
  moreover have "leader_broker_id (cfg c) = (if keep then leader_broker_id (cfg b) else Min (live_members c))"
    unfolding same(2) elected_eq [symmetric] by (simp add: c_def) (simp add: b1_def)
  moreover have "is_leader c = (if keep then is_leader b else leader_broker_id (cfg c) = cfg_id (cfg c))"
    by (simp add: c_def b1_def is_leader_def)
  ultimately show ?thesis using run t by simp
qed

section \<open>Waiting ends\<close>

lemma wait_loop_returns:
  assumes "steady env clock"
  shows "\<exists>w'. wait_loop env reached deadline w = Some (reached, w')"
proof (induction "nat (deadline - clock w)" arbitrary: w rule: less_induct)
  case less
  obtain w1 where n: "now env w = (clock w, w1)" "clock w \<le> clock w1"
    using assms unfolding steady_def by (metis prod.collapse)
  show ?case
  proof (cases "clock w < deadline \<and> \<not> reached")
    case True
    let ?w = "sleep_for env (millis 10) w1"
    have "clock w1 + millis 10 \<le> clock ?w" using assms by (simp add: steady_def)
    then have "nat (deadline - clock ?w) < nat (deadline - clock w)"
      using n(2) True by (simp add: millis_def)
    from less [OF this] show ?thesis
      using True n(1) by (simp add: wait_loop.simps [of env False deadline w])
  qed (use n(1) in \<open>simp add: wait_loop.simps [of env reached deadline w]\<close>)
qed



end
