(* ===== verification/Follower.thy ===== *)
theory Follower
  imports Produce
begin

text \<open>
  What a follower does with records the leader sends
  (\<^verbatim>\<open>ReplicationManager::handle_replication_request\<close>): in step with the leader it extends its
  log by exactly these records and acknowledges the last one; out of step it keeps the first
  record all the same and stays silent.
\<close>

section \<open>The follower's side\<close>

lemma append_batch_agrees:
  assumes "healthy_disk env"
  shows "room_left (store b) t p ms \<Longrightarrow> off = of_nat (length (stored (store b) t p)) \<Longrightarrow>
    \<exists>S w. append_batch env t p off ms b = (Inr True, b\<lparr>store := S, world := w\<rparr>) \<and> wf_storage S \<and>
      stored S t p = stored (store b) t p @ ms \<and>
      (\<forall>u q. make_key u q \<noteq> make_key t p \<longrightarrow> stored S u q = stored (store b) u q)"
proof (induction ms arbitrary: b off)
  case Nil
  then show ?case
    by (intro exI [of _ "store b"] exI [of _ "world b"]) (simp add: ret_def room_left_def)
next
  case (Cons m ms)
  let ?n = "length (stored (store b) t p)"
  obtain S w where S: "in_store env (\<lambda>e. storage_append e t p m) b = (Inr (of_nat ?n), b\<lparr>store := S, world := w\<rparr>)"
    "wf_storage S" "stored S t p = stored (store b) t p @ [m]"
    "\<forall>u q. make_key u q \<noteq> make_key t p \<longrightarrow> stored S u q = stored (store b) u q"
    using in_store_append [OF assms Cons.prems(1)] by blast
  let ?b = "b\<lparr>store := S, world := w\<rparr>"
  have "room_left (store ?b) t p ms" by (rule room_left_rest [OF assms Cons.prems(1) S(1)])
  moreover have "off + 1 = of_nat (length (stored (store ?b) t p))" using Cons.prems(2) S(3) by simp
  ultimately obtain T v where "append_batch env t p (off + 1) ms ?b = (Inr True, b\<lparr>store := T, world := v\<rparr>)" "wf_storage T"
    "stored T t p = stored S t p @ ms" "\<forall>u q. make_key u q \<noteq> make_key t p \<longrightarrow> stored T u q = stored S u q"
    using Cons.IH [of ?b "off + 1"] by auto
  then show ?case using S Cons.prems(2) by (auto simp: prog)
qed

definition replicated_records :: "Request \<Rightarrow> string list" where
  "replicated_records req = (if kind req = REPLICATE then [message req] else messages req)"

definition replication_ok :: "Request \<Rightarrow> bool" where
  "replication_ok req \<longleftrightarrow> (kind req = REPLICATE \<and> message req \<noteq> [] \<or> kind req = BATCH_REPLICATE \<and> messages req \<noteq> []) \<and>
     topic req \<noteq> [] \<and> 0 \<le> val32 (partition req)"

lemma follower_replicates:
  assumes "healthy_disk env" and "replication_ok req" and "\<not> is_leader b"
    and "room_left (store b) (topic req) (partition req) (replicated_records req)"
    and "fetch_offset req = of_nat (length (stored (store b) (topic req) (partition req)))"
  shows "\<exists>S w. handle_replication_request env req fd b =
      (Inr (send_ack fd (of_nat (length (stored S (topic req) (partition req)) - 1)) (topic req) (partition req) b),
       b\<lparr>store := S, world := w\<rparr>) \<and> wf_storage S \<and>
    stored S (topic req) (partition req) = stored (store b) (topic req) (partition req) @ replicated_records req \<and>
    (\<forall>u q. make_key u q \<noteq> make_key (topic req) (partition req) \<longrightarrow> stored S u q = stored (store b) u q)"
proof -
  let ?t = "topic req" and ?p = "partition req" and ?ms = "replicated_records req"
  obtain S w where S: "append_batch env ?t ?p (fetch_offset req) ?ms b = (Inr True, b\<lparr>store := S, world := w\<rparr>)"
    "wf_storage S" "stored S ?t ?p = stored (store b) ?t ?p @ ?ms"
    "\<forall>u q. make_key u q \<noteq> make_key ?t ?p \<longrightarrow> stored S u q = stored (store b) u q"
    using append_batch_agrees [OF assms(1,4,5)] by blast
  have len: "fetch_offset req + (if kind req = BATCH_REPLICATE then of_nat (length (messages req)) - 1 else 0) =
      of_nat (length (stored S ?t ?p) - 1)"
    using assms(2,5) S(3) by (cases "messages req") (auto simp: replicated_records_def replication_ok_def)
  have "handle_replication_request env req fd b =
      (Inr (send_ack fd (of_nat (length (stored S ?t ?p) - 1)) ?t ?p b), b\<lparr>store := S, world := w\<rparr>)"
    using assms(2,3) S(1) unfolding len [symmetric]
    by (auto simp: handle_replication_request_def replication_ok_def replicated_records_def prog send_ack_def
      simp del: append_batch.simps)
  then show ?thesis using S(2-4) by blast
qed

lemma follower_out_of_step:
  assumes "healthy_disk env" and "replication_ok req" and "\<not> is_leader b"
    and "room_left (store b) (topic req) (partition req) (replicated_records req)"
    and "fetch_offset req \<noteq> of_nat (length (stored (store b) (topic req) (partition req)))"
  shows "\<exists>c. handle_replication_request env req fd b = (Inr [], c) \<and> cfg c = cfg b \<and> wf_storage (store c) \<and>
    stored (store c) (topic req) (partition req) =
      stored (store b) (topic req) (partition req) @ [hd (replicated_records req)]"
proof -
  let ?t = "topic req" and ?p = "partition req"
  obtain m ms where ms: "replicated_records req = m # ms"
    using assms(2) by (cases "replicated_records req") (auto simp: replicated_records_def replication_ok_def split: if_splits)
  have room: "room_left (store b) ?t ?p (m # ms)" using assms(4) ms by simp
  obtain S w where S: "in_store env (\<lambda>e. storage_append e ?t ?p m) b =
      (Inr (of_nat (length (stored (store b) ?t ?p))), b\<lparr>store := S, world := w\<rparr>)" "stored S ?t ?p = stored (store b) ?t ?p @ [m]" "wf_storage S"
    using in_store_append [OF assms(1) room] by blast
  have "append_batch env ?t ?p (fetch_offset req) (m # ms) b = (Inr False, b\<lparr>store := S, world := w\<rparr>)"
    using S(1) assms(5) by (simp add: prog)
  then have "handle_replication_request env req fd b = (Inr [], b\<lparr>store := S, world := w\<rparr>)"
    using assms(2,3) ms
    by (auto simp: handle_replication_request_def replication_ok_def replicated_records_def prog
      simp del: append_batch.simps split: if_splits)
  then show ?thesis using S(2,3) ms by auto
qed

text \<open>Records sent one by one, at consecutive offsets, and the frames that come back.\<close>

fun feed :: "'w env \<Rightarrow> int \<Rightarrow> string \<Rightarrow> int32 \<Rightarrow> u64 \<Rightarrow> string list \<Rightarrow> ('w broker, string list) prog" where
  "feed env fd t p off [] = ret []"
| "feed env fd t p off (m # ms) =
     seq (handle_replication_request env
            ((blank_request REPLICATE)\<lparr>topic := t, partition := p, message := m, fetch_offset := off\<rparr>) fd) (\<lambda>acks.
     seq (feed env fd t p (off + 1) ms) (\<lambda>more. ret (acks @ more)))"

definition lagging :: "int broker" where
  "lagging = solo\<lparr>cfg := new_config (int32_of 9093) (int32_of 2) ''127.0.0.1'' [] ''data'' FOLLOWER (int32_of 1)\<rparr>"

definition replicate_of :: "u64 \<Rightarrow> string \<Rightarrow> Request" where
  "replicate_of off m = (blank_request REPLICATE)\<lparr>topic := ''t'', partition := int32_of 0, message := m, fetch_offset := off\<rparr>"

section \<open>Properties\<close>

text \<open>
  C7. A follower whose log has as many records as the offset of the replication request says
  appends exactly the records of the request, leaves every other partition alone and acknowledges
  the offset of its last record, so that it stays a copy of the leader's log.
\<close>
theorem follower_in_step:
  assumes "healthy_disk env" and "replication_ok req" and "\<not> is_leader b"
    and "room_left (store b) (topic req) (partition req) (replicated_records req)"
    and "fetch_offset req = of_nat (length (stored (store b) (topic req) (partition req)))" and "0 \<le> fd"
  shows "\<exists>c. handle_replication_request env req fd b =
      (Inr [encode_request ((blank_request ACK)\<lparr>topic := topic req, partition := partition req,
              fetch_offset := of_nat (length (stored (store c) (topic req) (partition req)) - 1),
              broker_id := cfg_id (cfg b)\<rparr>)], c) \<and>
    wf_storage (store c) \<and>
    (\<forall>u q. 0 \<le> val32 q \<longrightarrow> stored (store c) u q =
       (if (u, q) = (topic req, partition req) then stored (store b) u q @ replicated_records req
        else stored (store b) u q))"
proof -
  have "0 \<le> val32 (partition req)" using assms(2) by (simp add: replication_ok_def)
  then have key: "make_key u q \<noteq> make_key (topic req) (partition req)" if "0 \<le> val32 q" "(u, q) \<noteq> (topic req, partition req)" for u q
    using make_key_inject [OF that(1)] that(2) by blast
  show ?thesis
    using follower_replicates [OF assms(1-5), of fd] assms(6) key by (fastforce simp: send_ack_def)
qed

theorem follower_in_step_witness:
  "\<exists>c. handle_replication_request ticking_env (replicate_of 0 ''a'') 4 lagging =
      (Inr [encode_request ((blank_request ACK)\<lparr>topic := ''t'', partition := int32_of 0, fetch_offset := 0,
              broker_id := int32_of 2\<rparr>)], c) \<and> stored (store c) ''t'' (int32_of 0) = [''a'']"
proof -
  have "replication_ok (replicate_of 0 ''a'')" "\<not> is_leader lagging"
    "room_left (store lagging) ''t'' (int32_of 0) [''a'']" "stored (store lagging) ''t'' (int32_of 0) = []"
    by (simp_all add: replication_ok_def replicate_of_def blank_request_def lagging_def is_leader_def cfg_is_leader_def
      new_config_def room_left_def solo_facts roomy_def)
  then show ?thesis
    using follower_in_step [OF ticking_facts(2), of "replicate_of 0 ''a''" lagging 4]
    by (fastforce simp: replicate_of_def blank_request_def replicated_records_def lagging_def new_config_def)
qed



end
