(* ===== verification/BrokerProperties.thy ===== *)
theory BrokerProperties
  imports Election Follower
begin

text \<open>
  Properties of the broker as a whole: its handlers as runs of atomic steps, quorums, reads and
  consumer groups, and two behaviours the code should not have.
\<close>

section \<open>Runs and quorums\<close>




section \<open>Groups\<close>

lemma commit_moves:
  assumes "commit name m t p off gs = (ok, gs')"
  shows "group_next_offset name t p gs' =
    (if ok then max (group_next_offset name t p gs) (off + 1) else group_next_offset name t p gs)"
  using commit_result [of name m t p off gs] commit_refused [of name m t p gs off]
    commit_next [of name m t p gs name t p off] assms by auto


definition member_of :: "RequestType \<Rightarrow> u64 \<Rightarrow> Request" where
  "member_of k off = (blank_request k)\<lparr>topic := ''t'', partition := int32_of 0, fetch_offset := off,
     group_id := ''g'', member_id := ''a''\<rparr>"

definition solo_2 :: "int broker" where
  "solo_2 = snd (handle_join_group ticking_env (member_of JOIN_GROUP 0) solo_1)"


section \<open>Reads\<close>

text \<open>
  C6. Once a record has been read it can be read for ever: after any run of atomic steps of the
  broker (produces, replication, commits, heartbeats, elections and group requests, in any
  interleaving) the same fetch gives the same response.
\<close>
theorem committed_reads_stable:
  assumes "healthy_disk env" and "wf_storage (store b)" and "broker_runs env room_left b c"
    and "handle_fetch req b = (Inr r, b')" and "success r"
  shows "fst (handle_fetch req c) = Inr r"
  using fetch_stable [OF broker_runs_grown [OF assms(3,1,2)] assms(2) _ assms(4,5)]
    broker_runs_committed [OF assms(3)] fetch_success [OF assms(2,4,5)] by blast

definition fetch_of :: "string \<Rightarrow> int32 \<Rightarrow> u64 \<Rightarrow> Request" where
  "fetch_of t p off = (blank_request FETCH)\<lparr>topic := t, partition := p, fetch_offset := off\<rparr>"

lemma solo_1_store: "wf_storage (store solo_1) \<and> stored (store solo_1) ''t'' (int32_of 0) = [''m'']"
proof -
  have "broker_runs ticking_env room_left solo solo_1"
    using broker_run.run_handle_produce [OF broker_runs_roomy [OF ticking_facts(2)], of solo "produce_of ''t'' (int32_of 0) ''m''"]
    by (simp add: solo_room solo_1_def)
  from broker_runs_grown [OF this ticking_facts(2) solo_facts(3)] have "wf_storage (store solo_1)"
    by (simp add: grown_def)
  moreover have "stored (store solo_1) ''t'' (int32_of 0) = [''m'']" by code_simp
  ultimately show ?thesis by simp
qed

theorem committed_reads_stable_witness:
  "fst (handle_fetch (fetch_of ''t'' (int32_of 0) 0)
     (snd (handle_produce ticking_env (produce_of ''t'' (int32_of 0) ''n'') solo_1))) = Inr (accepted ''m'' 0)"
proof -
  let ?req = "produce_of ''t'' (int32_of 0) ''n''" and ?get = "fetch_of ''t'' (int32_of 0) 0"
  have "room_left (store solo_1) ''t'' (int32_of 0) [''n'']"
    using solo_1_store by (simp add: room_left_def roomy_def)
  then have "broker_runs ticking_env room_left solo_1 (snd (handle_produce ticking_env ?req solo_1))"
    using broker_run.run_handle_produce [OF broker_runs_roomy [OF ticking_facts(2)], of solo_1 ?req] by simp
  moreover have "handle_fetch ?get solo_1 = (Inr (accepted ''m'' 0), snd (handle_fetch ?get solo_1))"
    by (simp add: prod_eq_iff) code_simp
  ultimately show ?thesis
    using committed_reads_stable [OF ticking_facts(2) solo_1_store [THEN conjunct1]] by (simp add: accepted_def)
qed

section \<open>Findings\<close>

definition hollow_batch :: Request where
  "hollow_batch = (blank_request BATCH_PRODUCE)\<lparr>topic := ''t'', partition := int32_of 0, messages := [[], ''x'']\<rparr>"

definition hollow :: "int broker" where
  "hollow = snd (handle_join_group ticking_env (member_of JOIN_GROUP 0) (snd (handle_batch_produce ticking_env hollow_batch solo)))"


definition lagging_2 :: "int broker" where
  "lagging_2 =
     snd (handle_commit_request ((blank_request COMMIT)\<lparr>topic := ''t'', partition := int32_of 0, fetch_offset := 2\<rparr>)
       (snd (handle_replication_request ticking_env (replicate_of 2 ''c'') 4
         (snd (handle_replication_request ticking_env (replicate_of 1 ''b'') 4 lagging)))))"


end
