(* ===== verification/Server.thy ===== *)
theory Server
  imports Produce "HOL-Library.Multiset"
begin

text \<open>
  The TCP server (\<^verbatim>\<open>include/network/tcp_server.h\<close>, \<^verbatim>\<open>src/network/tcp_server.cpp\<close>): the
  dispatch of a request frame, the loop over the requests of one connection, and the hand-over of
  sockets between the accepting thread and the workers.
\<close>

section \<open>One connection\<close>

definition inter_broker :: "RequestType \<Rightarrow> bool" where
  "inter_broker k \<longleftrightarrow> k = REPLICATE \<or> k = BATCH_REPLICATE \<or> k = ACK \<or> k = HEARTBEAT \<or> k = COMMIT"

text \<open>\<open>attached\<close> says whether the server's broker pointer is set.\<close>

definition process_request :: "'w env \<Rightarrow> bool \<Rightarrow> string \<Rightarrow> int \<Rightarrow> ('w broker, string list \<times> string) prog" where
  "process_request env attached payload client_socket =
     (if \<not> attached then ret ([], serialize_response (refusal ''broker_unavailable'' (- 1)))
      else if payload = [] then ret ([], serialize_response (refusal ''empty_request'' (- 1)))
      else (let parsed = parse_request payload
            in if inter_broker (kind parsed) then handle_inter_broker_request env parsed client_socket
               else seq (handle_request env parsed) (\<lambda>r. ret ([], serialize_response r))))"

definition read_request :: "string list \<Rightarrow> string \<times> string list" where
  "read_request rx = (case read_frame rx of (None, rx') \<Rightarrow> ([], rx') | (Some payload, rx') \<Rightarrow> (payload, rx'))"

text \<open>
  The loop over the requests of a connection. \<open>client_socket\<close> is the descriptor, \<open>rx\<close> what the
  client sends, and the result the payloads written to it, in order; \<open>running\<close> is the number of
  times the flag of that name is found set. Whether a write reaches the client is not looked at.
\<close>

fun handle_client :: "'w env \<Rightarrow> bool \<Rightarrow> nat \<Rightarrow> int \<Rightarrow> string list \<Rightarrow> ('w broker, string list) prog" where
  "handle_client env attached 0 client_socket rx = ret []"
| "handle_client env attached (Suc running) client_socket rx =
     (case read_request rx of
        (request, rx') \<Rightarrow>
          if request = [] then ret []
          else seq (process_request env attached request client_socket) (\<lambda>(frames, response).
                 if inter_broker (kind (parse_request request)) then ret (frames @ [response])
                 else seq (handle_client env attached running client_socket rx') (\<lambda>rest. ret (frames @ [response] @ rest))))"

section \<open>Requests are answered in order\<close>

text \<open>The reference: parse, handle and answer each payload in turn.\<close>

fun answer_all :: "'w env \<Rightarrow> string list \<Rightarrow> ('w broker, string list) prog" where
  "answer_all env [] = ret []"
| "answer_all env (payload # payloads) =
     seq (handle_request env (parse_request payload)) (\<lambda>r.
     seq (answer_all env payloads) (\<lambda>rest. ret (serialize_response r # rest)))"

lemma seq_assoc: "seq (seq m f) g = seq m (\<lambda>x. seq (f x) g)"
  by (rule ext) (auto simp: seq_def split: prod.split sum.split)

lemma seq_ret [simp]: "seq (ret x) f = f x"
  by (rule ext) (simp add: seq_def ret_def)

lemma read_request_end: "concat rx = [] \<Longrightarrow> fst (read_request rx) = []"
proof -
  assume "concat rx = []"
  then have "fst (read_exact 4 rx) = None" by (intro read_exact_short) (metis list.size(3) zero_less_numeral)
  then show ?thesis by (auto simp: read_request_def read_frame_def split: prod.split)
qed

lemma read_request_next:
  assumes "open_stream rx" and "concat rx = wrap_frame payload @ rest" and "length payload < 2 ^ 32"
  shows "\<exists>rx'. read_request rx = (payload, rx') \<and> concat rx' = rest \<and> open_stream rx'"
  using read_frame_stream [OF assms] by (auto simp: read_request_def)

definition client_payload :: "string \<Rightarrow> bool" where
  "client_payload payload \<longleftrightarrow> payload \<noteq> [] \<and> length payload < 2 ^ 32 \<and> \<not> inter_broker (kind (parse_request payload))"

lemma handle_client_answers:
  "open_stream rx \<Longrightarrow> concat rx = concat (map wrap_frame payloads) \<Longrightarrow> list_all client_payload payloads \<Longrightarrow>
   length payloads < running \<Longrightarrow> handle_client env True running fd rx = answer_all env payloads"
proof (induction payloads arbitrary: running rx)
  case Nil
  then obtain n where "running = Suc n" by (cases running) auto
  moreover have "fst (read_request rx) = []" using Nil.prems(2) by (intro read_request_end) simp
  ultimately show ?case by (auto split: prod.split)
next
  case (Cons payload payloads)
  then obtain n where n: "running = Suc n" "length payloads < n" by (cases running) auto
  have payload: "client_payload payload" using Cons.prems(3) by simp
  then obtain rx' where rx': "read_request rx = (payload, rx')" "concat rx' = concat (map wrap_frame payloads)" "open_stream rx'"
    using read_request_next [OF Cons.prems(1), of payload "concat (map wrap_frame payloads)"] Cons.prems(2)
    by (auto simp: client_payload_def)
  have rest: "handle_client env True n fd rx' = answer_all env payloads"
    using Cons.IH [OF rx'(3,2) _ n(2)] Cons.prems(3) by simp
  show ?case
    using payload rx'(1) rest n(1) by (simp add: process_request_def client_payload_def Let_def seq_assoc)
qed

section \<open>The worker pool\<close>

text \<open>
  The threads of the server: the accepting thread between its check of \<^verbatim>\<open>running\<close> and the next
  one, the workers, and the thread that calls \<^verbatim>\<open>stop\<close>. The last three fields record history:
  the sockets accepted, taken out of the queue, and closed.
\<close>

datatype acceptor = Checking | Polling | Accept_done

datatype worker = Waiting | Serving int | Worker_done

record server =
  server_running :: bool
  server_open :: bool
  acceptor :: acceptor
  workers :: "worker list"
  pending_clients :: "int list"
  accepted_sockets :: "int list"
  taken_sockets :: "int list"
  closed_sockets :: "int list"

definition worker_count :: "nat \<Rightarrow> nat \<Rightarrow> nat" where
  "worker_count hardware n = (if n = 0 then max 1 hardware else n)"

definition new_server :: server where
  "new_server = \<lparr>server_running = False, server_open = False, acceptor = Accept_done, workers = [],
     pending_clients = [], accepted_sockets = [], taken_sockets = [], closed_sockets = []\<rparr>"

text \<open>The parameters of \<open>server_start\<close> say which of the socket calls succeed.\<close>

definition server_start :: "bool \<Rightarrow> bool \<Rightarrow> bool \<Rightarrow> nat \<Rightarrow> (server, unit) prog" where
  "server_start socket_ok bind_ok listen_ok n s =
     (if \<not> socket_ok then throw (Runtime_error ''FAILED TO CREATE SOCKET'') s
      else if \<not> bind_ok then throw (Runtime_error ''BIND FAILED'') s
      else if \<not> listen_ok then throw (Runtime_error ''LISTEN FAILED'') s
      else modify (\<lambda>s. s\<lparr>server_open := True, server_running := True,
                          workers := replicate n Waiting, acceptor := Checking\<rparr>) s)"

text \<open>The accepting thread: \<open>client\<close> is what \<^verbatim>\<open>accept\<close> returns after a poll that reports a connection.\<close>

definition accept_check :: "server \<Rightarrow> server" where
  "accept_check s = s\<lparr>acceptor := (if server_running s then Polling else Accept_done)\<rparr>"

definition accept_client :: "int option \<Rightarrow> server \<Rightarrow> server" where
  "accept_client client s =
     (case client of
        None \<Rightarrow> s\<lparr>acceptor := Checking\<rparr>
      | Some fd \<Rightarrow>
          if fd < 0 then s\<lparr>acceptor := (if server_running s then Checking else Accept_done)\<rparr>
          else s\<lparr>pending_clients := pending_clients s @ [fd], accepted_sockets := accepted_sockets s @ [fd],
                 acceptor := Checking\<rparr>)"

text \<open>A worker that wakes up: it takes the first pending socket, leaves, or goes on waiting.\<close>

definition worker_wake :: "nat \<Rightarrow> server \<Rightarrow> server" where
  "worker_wake i s =
     (case pending_clients s of
        [] \<Rightarrow> if \<not> server_running s then s\<lparr>workers := (workers s)[i := Worker_done]\<rparr> else s
      | fd # rest \<Rightarrow> s\<lparr>pending_clients := rest, taken_sockets := taken_sockets s @ [fd],
                       workers := (workers s)[i := Serving fd]\<rparr>)"

definition worker_finish :: "nat \<Rightarrow> int \<Rightarrow> server \<Rightarrow> server" where
  "worker_finish i fd s = s\<lparr>closed_sockets := closed_sockets s @ [fd], workers := (workers s)[i := Waiting]\<rparr>"

definition stop_signal :: "server \<Rightarrow> server" where
  "stop_signal s = s\<lparr>server_running := False, server_open := False\<rparr>"

definition stop_drain :: "server \<Rightarrow> server" where
  "stop_drain s =
     s\<lparr>workers := [], closed_sockets := closed_sockets s @ pending_clients s,
       taken_sockets := taken_sockets s @ pending_clients s, pending_clients := []\<rparr>"

text \<open>
  A step of one thread. The system hands out descriptors that are not open; connections are told
  apart by their descriptor, so a descriptor stands for one connection here.
\<close>

inductive server_step :: "server \<Rightarrow> server \<Rightarrow> bool" where
  check: "acceptor s = Checking \<Longrightarrow> server_step s (accept_check s)"
| accept: "acceptor s = Polling \<Longrightarrow> (\<forall>fd. client = Some fd \<longrightarrow> fd \<notin> set (accepted_sockets s)) \<Longrightarrow>
    server_step s (accept_client client s)"
| wake: "i < length (workers s) \<Longrightarrow> workers s ! i = Waiting \<Longrightarrow> server_step s (worker_wake i s)"
| finish: "i < length (workers s) \<Longrightarrow> workers s ! i = Serving fd \<Longrightarrow> server_step s (worker_finish i fd s)"
| stop: "server_step s (stop_signal s)"
| drain: "\<not> server_running s \<Longrightarrow> acceptor s = Accept_done \<Longrightarrow> set (workers s) \<subseteq> {Worker_done} \<Longrightarrow>
    server_step s (stop_drain s)"

definition serving :: "server \<Rightarrow> int multiset" where
  "serving s = mset (concat (map (\<lambda>w. case w of Serving fd \<Rightarrow> [fd] | _ \<Rightarrow> []) (workers s)))"

definition server_ok :: "server \<Rightarrow> bool" where
  "server_ok s \<longleftrightarrow> distinct (accepted_sockets s) \<and> accepted_sockets s = taken_sockets s @ pending_clients s \<and>
     mset (taken_sockets s) = serving s + mset (closed_sockets s)"

lemma serving_update:
  "i < length (workers s) \<Longrightarrow> workers s ! i = w \<Longrightarrow>
   serving (s\<lparr>workers := (workers s)[i := v]\<rparr>) + (case w of Serving fd \<Rightarrow> {#fd#} | _ \<Rightarrow> {#}) =
   serving s + (case v of Serving fd \<Rightarrow> {#fd#} | _ \<Rightarrow> {#})"
proof -
  assume i: "i < length (workers s)" "workers s ! i = w"
  define f where "f = (\<lambda>w. case w of Serving fd \<Rightarrow> [fd] | _ \<Rightarrow> ([] :: int list))"
  have "workers s = take i (workers s) @ w # drop (Suc i) (workers s)" using id_take_nth_drop [OF i(1)] unfolding i(2) .
  then have "mset (concat (map f (workers s))) =
      mset (concat (map f (take i (workers s)))) + mset (f w) + mset (concat (map f (drop (Suc i) (workers s))))"
    by (metis (no_types, lifting) concat.simps(2) concat_append list.simps(9) map_append mset_append union_assoc)
  moreover have "mset (concat (map f ((workers s)[i := v]))) =
      mset (concat (map f (take i (workers s)))) + mset (f v) + mset (concat (map f (drop (Suc i) (workers s))))"
    using i by (simp add: upd_conv_take_nth_drop)
  moreover have "mset (f x) = (case x of Serving fd \<Rightarrow> {#fd#} | _ \<Rightarrow> {#})" for x
    by (cases x) (simp_all add: f_def)
  ultimately show ?thesis by (simp add: serving_def f_def add.commute add.left_commute)
qed


lemma serving_frame [simp]:
  "serving (s\<lparr>pending_clients := a\<rparr>) = serving s" "serving (s\<lparr>taken_sockets := a\<rparr>) = serving s"
  "serving (s\<lparr>closed_sockets := a\<rparr>) = serving s" "serving (s\<lparr>acceptor := x\<rparr>) = serving s"
  "serving (s\<lparr>accepted_sockets := a\<rparr>) = serving s" "serving (s\<lparr>server_running := y\<rparr>) = serving s"
  "serving (s\<lparr>server_open := y\<rparr>) = serving s"
  by (simp_all add: serving_def)

lemma serving_done: "set (workers s) \<subseteq> {Worker_done} \<Longrightarrow> serving s = {#}"
  by (auto simp: serving_def split: worker.splits)

lemma server_ok_wake:
  assumes "server_ok s" and "i < length (workers s)" and "workers s ! i = Waiting"
  shows "server_ok (worker_wake i s)"
proof (cases "pending_clients s")
  case Nil
  then show ?thesis
    using assms serving_update [OF assms(2,3), of Worker_done] by (auto simp: worker_wake_def server_ok_def)
next
  case (Cons fd rest)
  have "serving (worker_wake i s) = serving s + {#fd#}"
    using serving_update [OF assms(2,3), of "Serving fd"] Cons by (simp add: worker_wake_def) (simp add: serving_def)
  then show ?thesis using assms(1) Cons by (auto simp: worker_wake_def server_ok_def)
qed

lemma server_ok_finish:
  assumes "server_ok s" and "i < length (workers s)" and "workers s ! i = Serving fd"
  shows "server_ok (worker_finish i fd s)"
proof -
  have "add_mset fd (serving (worker_finish i fd s)) = serving s"
    using serving_update [OF assms(2,3), of Waiting] by (simp add: worker_finish_def) (simp add: serving_def)
  then have "serving s + mset (closed_sockets s) = serving (worker_finish i fd s) + mset (closed_sockets (worker_finish i fd s))"
    by (simp add: worker_finish_def flip: union_mset_add_mset_left)
  then show ?thesis using assms(1) by (auto simp: server_ok_def worker_finish_def)
qed

lemma server_ok_step: "server_step s s' \<Longrightarrow> server_ok s \<Longrightarrow> server_ok s'"
proof (induction rule: server_step.induct)
  case (accept s client)
  then show ?case
    by (auto simp: accept_client_def server_ok_def split: option.splits)
next
  case (drain s)
  then have "serving s = {#}" by (intro serving_done)
  moreover have "serving (stop_drain s) = {#}" by (simp add: stop_drain_def serving_def)
  ultimately show ?case using drain by (auto simp: stop_drain_def server_ok_def)
qed (simp_all add: server_ok_wake server_ok_finish, auto simp: server_ok_def accept_check_def stop_signal_def)

inductive reachable_server :: "server \<Rightarrow> bool" where
  started: "server_start True True True n new_server = (Inr (), s) \<Longrightarrow> reachable_server s"
| step: "reachable_server s \<Longrightarrow> server_step s s' \<Longrightarrow> reachable_server s'"

lemma serving_waiting: "serving (s\<lparr>workers := replicate n Waiting\<rparr>) = {#}"
  by (induction n) (simp_all add: serving_def)

lemma reachable_server_ok: "reachable_server s \<Longrightarrow> server_ok s"
proof (induction rule: reachable_server.induct)
  case (started n s)
  then have "s = new_server\<lparr>server_open := True, server_running := True, workers := replicate n Waiting, acceptor := Checking\<rparr>"
    by (simp add: server_start_def modify_def)
  then have "s = new_server\<lparr>workers := replicate n Waiting, server_open := True, server_running := True, acceptor := Checking\<rparr>"
    by simp
  then show ?case by (simp add: serving_waiting server_ok_def) (simp add: new_server_def)
qed (rule server_ok_step)

section \<open>Properties\<close>

text \<open>
  C23. A connection is served like a sequence of calls: when a client sends frames of non-empty
  requests, cut into chunks in any way, the server answers exactly as if each request were
  parsed, handled and answered in turn, and ends when the client does.
\<close>
theorem connection_served_in_order:
  assumes "open_stream rx" and "concat rx = concat (map wrap_frame payloads)" and "list_all client_payload payloads"
    and "length payloads < running"
  shows "handle_client env True running fd rx b = answer_all env payloads b"
  by (rule fun_cong [OF handle_client_answers [OF assms]])

definition sample_payload :: string where
  "sample_payload = encode_request (produce_of ''t'' (int32_of 0) ''m'')"

lemma sample_payload_facts:
  "sample_payload \<noteq> []" "length sample_payload < 100" "kind (parse_request sample_payload) = PRODUCE"
proof -
  have "within_limits (produce_of ''t'' (int32_of 0) ''m'')"
    by (simp add: within_limits_def fits_def produce_of_def blank_request_def kMaxStringBytes_def kMaxBatchMessages_def)
  then show "kind (parse_request sample_payload) = PRODUCE"
    using parse_request_encoded [of PRODUCE "produce_of ''t'' (int32_of 0) ''m''" "[]"]
    by (simp add: sample_payload_def encode_request_eq)
  show "length sample_payload < 100" by code_simp
  show "sample_payload \<noteq> []" by code_simp
qed

theorem connection_served_in_order_witness:
  "handle_client ticking_env True 3 4 [wrap_frame sample_payload @ take 3 (wrap_frame sample_payload), drop 3 (wrap_frame sample_payload)] solo =
   answer_all ticking_env [sample_payload, sample_payload] solo"
proof (rule connection_served_in_order)
  show "list_all client_payload [sample_payload, sample_payload]"
    using sample_payload_facts by (simp add: client_payload_def inter_broker_def)
  show "open_stream [wrap_frame sample_payload @ take 3 (wrap_frame sample_payload), drop 3 (wrap_frame sample_payload)]"
    using sample_payload_facts by (simp add: open_stream_def wrap_frame_eq)
qed simp_all

text \<open>
  C24. No connection is lost or closed twice. Whatever the interleaving of the accepting thread,
  the workers and \<^verbatim>\<open>stop\<close>, the sockets taken out of the queue are the accepted ones in the order
  of acceptance, and each of them is either with one worker or closed once; when the queue is
  empty and no worker serves, the closed sockets are exactly the accepted ones.
\<close>
theorem sockets_closed_once:
  assumes "reachable_server s"
  shows "accepted_sockets s = taken_sockets s @ pending_clients s \<and> distinct (accepted_sockets s) \<and>
    mset (taken_sockets s) = serving s + mset (closed_sockets s) \<and>
    (serving s = {#} \<and> pending_clients s = [] \<longrightarrow> mset (closed_sockets s) = mset (accepted_sockets s))"
  using reachable_server_ok [OF assms] by (auto simp: server_ok_def)

lemmas server_ops = accept_check_def accept_client_def worker_wake_def worker_finish_def stop_signal_def
  stop_drain_def server_start_def modify_def new_server_def

definition sample_server :: "server" where
  "sample_server = worker_finish 0 7 (worker_wake 0 (accept_client (Some 7)
     (accept_check (snd (server_start True True True 1 new_server)))))"

lemma sample_server_reachable: "reachable_server sample_server"
proof -
  have "reachable_server (snd (server_start True True True 1 new_server))"
    by (rule reachable_server.started [of 1]) (simp add: server_ops)
  then have "reachable_server (accept_check (snd (server_start True True True 1 new_server)))"
    by (rule reachable_server.step) (rule server_step.check, simp add: server_ops)
  then have "reachable_server (accept_client (Some 7) (accept_check (snd (server_start True True True 1 new_server))))"
    by (rule reachable_server.step) (rule server_step.accept, simp_all add: server_ops)
  then have "reachable_server (worker_wake 0 (accept_client (Some 7) (accept_check (snd (server_start True True True 1 new_server)))))"
    by (rule reachable_server.step) (rule server_step.wake, simp_all add: server_ops)
  then show ?thesis
    unfolding sample_server_def by (rule reachable_server.step) (rule server_step.finish, simp_all add: server_ops)
qed

theorem sockets_closed_once_witness:
  "reachable_server sample_server \<and> mset (closed_sockets sample_server) = {#7#}"
proof -
  have "serving sample_server = {#}" "pending_clients sample_server = []" "accepted_sockets sample_server = [7]"
    by (simp_all add: sample_server_def server_ops serving_def)
  then show ?thesis using sockets_closed_once [OF sample_server_reachable] sample_server_reachable by simp
qed

end
