(* ===== verification/MainProgram.thy ===== *)
theory MainProgram
  imports Server
begin

text \<open>
  The program (\<^verbatim>\<open>src/main.cpp\<close>): the command line, the list of peers, the construction of a
  broker over the directories on disk and its shutdown.
\<close>

section \<open>Peers\<close>

text \<open>
  \<^verbatim>\<open>std::getline\<close> on a string stream: it fails when nothing is left, and otherwise reads up to
  the delimiter, which it drops.
\<close>

definition getline :: "char \<Rightarrow> string \<Rightarrow> (string \<times> string) option" where
  "getline d s = (if s = [] then None else Some (takeWhile (\<lambda>c. c \<noteq> d) s, drop 1 (dropWhile (\<lambda>c. c \<noteq> d) s)))"

definition parse_peer :: "string \<Rightarrow> failure + ClusterPeer option" where
  "parse_peer entry =
     (case getline CHR '':'' entry of
        None \<Rightarrow> Inr None
      | Some (ident, s1) \<Rightarrow>
          (case getline CHR '':'' s1 of
             None \<Rightarrow> Inr None
           | Some (host, s2) \<Rightarrow>
               (case getline CHR '':'' s2 of
                  None \<Rightarrow> Inr None
                | Some (port, _) \<Rightarrow>
                    (case stoi ident of
                       Inl e \<Rightarrow> Inl e
                     | Inr i \<Rightarrow>
                         (case stoi port of
                            Inl e \<Rightarrow> Inl e
                          | Inr n \<Rightarrow> Inr (Some \<lparr>peer_id = i, peer_host = host, peer_port = n\<rparr>))))))"

function parse_peers :: "string \<Rightarrow> failure + ClusterPeer list" where
  "parse_peers s =
     (case getline CHR '','' s of
        None \<Rightarrow> Inr []
      | Some (entry, rest) \<Rightarrow>
          (case parse_peer entry of
             Inl e \<Rightarrow> Inl e
           | Inr found \<Rightarrow>
               (case parse_peers rest of
                  Inl e \<Rightarrow> Inl e
                | Inr ps \<Rightarrow> Inr (case found of None \<Rightarrow> ps | Some peer \<Rightarrow> peer # ps))))"
  by pat_completeness auto

lemma getline_shrinks: "getline d s = Some (tok, rest) \<Longrightarrow> length rest < length s"
  using length_dropWhile_le [of "\<lambda>c. c \<noteq> d" s] by (cases s) (auto simp: getline_def split: if_splits)

termination parse_peers
  by (relation "measure length") (auto dest: getline_shrinks)

declare parse_peers.simps [simp del]

section \<open>The command line\<close>

definition parse_role :: "string \<Rightarrow> BrokerType" where
  "parse_role role = (if role = ''leader'' then LEADER else FOLLOWER)"

record options =
  opt_broker_id :: int32
  opt_port :: int32
  opt_host :: string
  opt_role :: string
  opt_peers :: string
  opt_data_dir :: string
  opt_leader_id :: int32

definition default_options :: options where
  "default_options =
     \<lparr>opt_broker_id = int32_of 0, opt_port = int32_of 9092, opt_host = ''127.0.0.1'', opt_role = ''follower'',
      opt_peers = [], opt_data_dir = ''./data'', opt_leader_id = int32_of 0\<rparr>"

text \<open>The loop over the arguments; \<open>None\<close> is the exit after \<^verbatim>\<open>--help\<close>.\<close>

definition with_int :: "string \<Rightarrow> (int32 \<Rightarrow> failure + 'a) \<Rightarrow> failure + 'a" where
  "with_int s f = (case stoi s of Inl e \<Rightarrow> Inl e | Inr i \<Rightarrow> f i)"

fun parse_args :: "string list \<Rightarrow> options \<Rightarrow> failure + options option" where
  "parse_args [] opts = Inr (Some opts)"
| "parse_args [arg] opts = (if arg = ''--help'' then Inr None else Inr (Some opts))"
| "parse_args (arg # value # args) opts =
     (if arg = ''--id'' then with_int value (\<lambda>i. parse_args args (opts\<lparr>opt_broker_id := i\<rparr>))
      else if arg = ''--port'' then with_int value (\<lambda>i. parse_args args (opts\<lparr>opt_port := i\<rparr>))
      else if arg = ''--host'' then parse_args args (opts\<lparr>opt_host := value\<rparr>)
      else if arg = ''--role'' then parse_args args (opts\<lparr>opt_role := value\<rparr>)
      else if arg = ''--peers'' then parse_args args (opts\<lparr>opt_peers := value\<rparr>)
      else if arg = ''--data-dir'' then parse_args args (opts\<lparr>opt_data_dir := value\<rparr>)
      else if arg = ''--leader-id'' then with_int value (\<lambda>i. parse_args args (opts\<lparr>opt_leader_id := i\<rparr>))
      else if arg = ''--help'' then Inr None
      else parse_args (value # args) opts)"

text \<open>The checks before the broker is built; \<open>Inl\<close> is the exit code.\<close>

definition check_options :: "options \<Rightarrow> nat + options" where
  "check_options opts =
     (if val32 (opt_broker_id opts) \<le> 0 then Inl 1
      else if parse_role (opt_role opts) = LEADER then Inr (opts\<lparr>opt_leader_id := opt_broker_id opts\<rparr>)
      else if val32 (opt_leader_id opts) \<le> 0 then Inl 1
      else Inr opts)"

definition broker_config_of :: "options \<Rightarrow> failure + BrokerConfig" where
  "broker_config_of opts =
     (case parse_peers (opt_peers opts) of
        Inl e \<Rightarrow> Inl e
      | Inr ps \<Rightarrow>
          Inr (new_config (opt_port opts) (opt_broker_id opts) (opt_host opts) ps
                 (opt_data_dir opts @ ''/broker-'' @ to_string_int (opt_broker_id opts))
                 (parse_role (opt_role opts)) (opt_leader_id opts)))"

text \<open>
  \<^verbatim>\<open>main\<close> up to the start of the threads: an exit code, or a broker over the directories the disk
  holds at time \<open>t\<close>.
\<close>

definition main_start :: "os \<Rightarrow> (string \<times> dir) list \<Rightarrow> int \<Rightarrow> 'w \<Rightarrow> string list \<Rightarrow> failure + (nat + 'w broker)" where
  "main_start e dirs t w args =
     (case parse_args args default_options of
        Inl x \<Rightarrow> Inl x
      | Inr None \<Rightarrow> Inr (Inl 0)
      | Inr (Some opts) \<Rightarrow>
          (case check_options opts of
             Inl code \<Rightarrow> Inr (Inl code)
           | Inr opts \<Rightarrow>
               (case broker_config_of opts of
                  Inl x \<Rightarrow> Inl x
                | Inr c \<Rightarrow>
                    (case new_storage e dirs (cfg_data_directory c) (1024 * 1024) kDefaultSyncBatch of
                       Inl x \<Rightarrow> Inl x
                     | Inr S \<Rightarrow> Inr (Inr \<lparr>cfg = c, store = S, repl = new_replication c t, groups = [], world = w\<rparr>)))))"

text \<open>After the signal: the server and the heartbeat thread have stopped and the destructors run.\<close>

definition main_stop :: "'w env \<Rightarrow> ('w broker, unit) prog" where
  "main_stop env = in_store env flush_all"

section \<open>Printing peers\<close>

definition format_peer :: "ClusterPeer \<Rightarrow> string" where
  "format_peer peer = to_string_int (peer_id peer) @ '':'' @ peer_host peer @ '':'' @ to_string_int (peer_port peer)"

fun format_peers :: "ClusterPeer list \<Rightarrow> string" where
  "format_peers [] = []"
| "format_peers [peer] = format_peer peer"
| "format_peers (peer # ps) = format_peer peer @ '','' @ format_peers ps"

definition plain_peer :: "ClusterPeer \<Rightarrow> bool" where
  "plain_peer peer \<longleftrightarrow> 0 \<le> val32 (peer_id peer) \<and> 0 \<le> val32 (peer_port peer) \<and>
     CHR '':'' \<notin> set (peer_host peer) \<and> CHR '','' \<notin> set (peer_host peer)"

lemma getline_token: "d \<notin> set tok \<Longrightarrow> tok \<noteq> [] \<or> rest \<noteq> [] \<Longrightarrow> rest = [] \<or> hd rest = d \<Longrightarrow> getline d (tok @ rest) = Some (tok, tl rest)"
proof -
  assume d: "d \<notin> set tok" and ne: "tok \<noteq> [] \<or> rest \<noteq> []" and r: "rest = [] \<or> hd rest = d"
  have "takeWhile (\<lambda>c. c \<noteq> d) (tok @ rest) = tok" "dropWhile (\<lambda>c. c \<noteq> d) (tok @ rest) = rest"
    using d r by (induction tok) (auto simp: takeWhile_tail, (cases rest; simp)+)
  then show ?thesis using ne by (simp add: getline_def drop_Suc)
qed

lemma digits_clean: "0 \<le> val32 i \<Longrightarrow> c \<in> set (to_string_int i) \<Longrightarrow> is_digit c"
  by (simp add: to_string_int_nonneg show_nat_digits)

lemma to_string_int_not_Nil [simp]: "0 \<le> val32 i \<Longrightarrow> to_string_int i \<noteq> []"
  by (simp add: to_string_int_nonneg)

lemma number_clean: "0 \<le> val32 i \<Longrightarrow> CHR '':'' \<notin> set (to_string_int i)" "0 \<le> val32 i \<Longrightarrow> CHR '','' \<notin> set (to_string_int i)"
  using digits_clean by (force simp: is_digit_def)+

lemma stoi_number: "0 \<le> val32 i \<Longrightarrow> stoi (to_string_int i) = Inr i"
  using stoi_to_string_int [of i "[]"] by simp

lemma parse_format_peer:
  assumes "plain_peer peer"
  shows "parse_peer (format_peer peer) = Inr (Some peer)"
proof -
  let ?i = "to_string_int (peer_id peer)" and ?n = "to_string_int (peer_port peer)"
  have p: "0 \<le> val32 (peer_id peer)" "0 \<le> val32 (peer_port peer)" "CHR '':'' \<notin> set (peer_host peer)"
    using assms by (simp_all add: plain_peer_def)
  have "getline CHR '':'' (format_peer peer) = Some (?i, peer_host peer @ '':'' @ ?n)"
    using getline_token [OF number_clean(1) [OF p(1)], of "'':'' @ peer_host peer @ '':'' @ ?n"]
    by (simp add: format_peer_def)
  moreover have "getline CHR '':'' (peer_host peer @ '':'' @ ?n) = Some (peer_host peer, ?n)"
    using getline_token [OF p(3), of "'':'' @ ?n"] by simp
  moreover have "getline CHR '':'' ?n = Some (?n, [])"
    using getline_token [OF number_clean(1) [OF p(2)], of "[]"] p(2) by simp
  ultimately show ?thesis using p(1,2) by (simp add: parse_peer_def stoi_number)
qed

lemma format_peer_clean: "plain_peer peer \<Longrightarrow> CHR '','' \<notin> set (format_peer peer) \<and> format_peer peer \<noteq> []"
  using number_clean(2) by (simp add: format_peer_def plain_peer_def)

section \<open>Properties\<close>

text \<open>
  C29. A peer list in the documented form \<^verbatim>\<open>id:host:port,...\<close> is read as exactly these peers, in
  order, whatever characters other than comma and colon the host names have.
\<close>
theorem parse_format_peers:
  "list_all plain_peer ps \<Longrightarrow> parse_peers (format_peers ps) = Inr ps"
proof (induction ps rule: format_peers.induct)
  case 1
  then show ?case by (simp add: parse_peers.simps [of "[]"] getline_def)
next
  case (2 peer)
  then have "getline CHR '','' (format_peer peer) = Some (format_peer peer, [])"
    using getline_token [of "CHR '',''" "format_peer peer" "[]"] format_peer_clean by simp
  moreover have "parse_peers [] = Inr []" by (simp add: parse_peers.simps [of "[]"] getline_def)
  ultimately show ?case using 2 by (simp add: parse_peers.simps [of "format_peer peer"] parse_format_peer)
next
  case (3 peer second ps)
  let ?rest = "format_peers (second # ps)"
  have "getline CHR '','' (format_peer peer @ '','' @ ?rest) = Some (format_peer peer, ?rest)"
    using getline_token [of "CHR '',''" "format_peer peer" "'','' @ ?rest"] format_peer_clean 3(2) by simp
  then show ?case
    using 3 by (simp add: parse_peers.simps [of "format_peer peer @ CHR '','' # ?rest"] parse_format_peer)
qed

theorem parse_format_peers_witness:
  "parse_peers ''2:127.0.0.1:80,3:host-c:81'' =
     Inr [\<lparr>peer_id = int32_of 2, peer_host = ''127.0.0.1'', peer_port = int32_of 80\<rparr>,
          \<lparr>peer_id = int32_of 3, peer_host = ''host-c'', peer_port = int32_of 81\<rparr>]"
proof -
  let ?ps = "[\<lparr>peer_id = int32_of 2, peer_host = ''127.0.0.1'', peer_port = int32_of 80\<rparr>,
              \<lparr>peer_id = int32_of 3, peer_host = ''host-c'', peer_port = int32_of 81\<rparr>]"
  have plain: "list_all plain_peer ?ps" by (simp add: plain_peer_def val32_int32_of)
  have arg: "format_peers ?ps = ''2:127.0.0.1:80,3:host-c:81''" by code_simp
  show ?thesis using parse_format_peers [OF plain] unfolding arg .
qed

text \<open>
  C30. Starting up: the program exits with code 0 for \<^verbatim>\<open>--help\<close> and 1 when an id is missing;
  otherwise the broker has positive ids for itself and its leader, no groups and nothing committed,
  and its role agrees with the leader's id, unless it was told to follow itself.
\<close>
theorem main_start_outcome:
  "case main_start e dirs t w args of
     Inl _ \<Rightarrow> True
   | Inr (Inl code) \<Rightarrow> code = 0 \<or> code = 1
   | Inr (Inr b) \<Rightarrow>
       0 < val32 (cfg_id (cfg b)) \<and> 0 < val32 (leader_broker_id (cfg b)) \<and> groups b = [] \<and> acks_ok (repl b) \<and>
       commit_index_by_log (repl b) = [] \<and>
       (config_ok (cfg b) \<or> cfg_type (cfg b) = FOLLOWER \<and> leader_broker_id (cfg b) = cfg_id (cfg b))"
proof -
  have built: "0 < val32 (cfg_id c) \<and> 0 < val32 (leader_broker_id c) \<and>
      (config_ok c \<or> cfg_type c = FOLLOWER \<and> leader_broker_id c = cfg_id c)"
    if "check_options opts = Inr opts'" "broker_config_of opts' = Inr c" for opts opts' c
    using that by (auto simp: check_options_def broker_config_of_def new_config_def config_ok_def cfg_is_leader_def
      parse_role_def split: if_splits sum.splits)
  have usage: "code = 1" if "check_options opts = Inl code" for opts code
    using that by (simp add: check_options_def split: if_splits)
  show ?thesis
  proof (cases "parse_args args default_options")
    case (Inr parsed)
    show ?thesis
    proof (cases parsed)
      case (Some opts)
      show ?thesis
      proof (cases "check_options opts")
        case (Inr opts')
        show ?thesis
        proof (cases "broker_config_of opts'")
          case (Inr c)
          then show ?thesis
            using \<open>parse_args args default_options = Inr parsed\<close> Some \<open>check_options opts = Inr opts'\<close>
              built [OF \<open>check_options opts = Inr opts'\<close> Inr]
            by (cases "new_storage e dirs (cfg_data_directory c) (1024 * 1024) kDefaultSyncBatch")
              (simp_all add: main_start_def, simp add: new_replication_def)
        qed (use \<open>parse_args args default_options = Inr parsed\<close> Some Inr in \<open>simp add: main_start_def\<close>)
      qed (use \<open>parse_args args default_options = Inr parsed\<close> Some usage in \<open>simp add: main_start_def\<close>)
    qed (use \<open>parse_args args default_options = Inr parsed\<close> in \<open>simp add: main_start_def\<close>)
  qed (simp add: main_start_def)
qed

section \<open>Restarting\<close>

definition fetch_request :: "string \<Rightarrow> int32 \<Rightarrow> u64 \<Rightarrow> Request" where
  "fetch_request t p off = (blank_request FETCH)\<lparr>topic := t, partition := p, fetch_offset := off\<rparr>"

definition launch :: "(string \<times> dir) list \<Rightarrow> int broker" where
  "launch dirs =
     (case main_start healthy_os dirs 0 0 [''--id'', ''1'', ''--role'', ''leader'', ''--data-dir'', ''d''] of
        Inr (Inr b) \<Rightarrow> b
      | _ \<Rightarrow> solo)"

definition first_run :: "int broker" where
  "first_run = snd (handle_produce ticking_env (produce_of ''t'' (int32_of 0) ''m'') (launch []))"

definition second_run :: "int broker" where
  "second_run = launch (disk_after (store (snd (main_stop ticking_env first_run))))"


end
