(* ===== verification/Cluster.thy ===== *)
theory Cluster
  imports Server Follower
begin

text \<open>
  Several brokers and the network between them. The peers a broker talks to are themselves broker
  states behind the connection handler of \<^verbatim>\<open>src/network/tcp_server.cpp\<close>, so that what
  \<^verbatim>\<open>ReplicationManager\<close> sends is parsed, handled and acknowledged by the code of the
  receiving side. The lemmas follow one produce from the leader's log to the logs of the peers.
\<close>

section \<open>The network\<close>

text \<open>
  \<open>link\<close> gives, at a moment, the return values of the \<^verbatim>\<open>writev\<close> calls on a connection to an
  address, or none when it cannot be opened; \<open>reply_lost\<close> says that what comes back is lost. Both
  may change from one moment to the next. \<open>nodes\<close> are the other brokers, by address.
\<close>

record network =
  link :: "nat \<Rightarrow> string \<Rightarrow> u16 \<Rightarrow> (nat \<Rightarrow> int) option"
  reply_lost :: "nat \<Rightarrow> string \<Rightarrow> u16 \<Rightarrow> bool"

record fleet =
  nodes :: "((string \<times> u16) \<times> unit broker) list"
  tick :: nat

text \<open>A node runs its connection handler on the bytes of one connection.\<close>

definition receive :: "unit env \<Rightarrow> string \<Rightarrow> unit broker \<Rightarrow> string list \<times> unit broker" where
  "receive fenv bytes f =
     (case handle_client fenv True (Suc (length bytes)) 5 (if bytes = [] then [] else [bytes]) f of
        (Inr frames, f') \<Rightarrow> (map wrap_frame frames, f')
      | (Inl _, f') \<Rightarrow> ([], f'))"

definition cluster_env :: "network \<Rightarrow> unit env \<Rightarrow> fleet env" where
  "cluster_env net fenv =
     \<lparr>dial = \<lambda>h p w. (if map_of (nodes w) (h, p) = None then None else link net (tick w) h p, w\<lparr>tick := Suc (tick w)\<rparr>),
      deliver = \<lambda>h p out w.
        (case map_of (nodes w) (h, p) of
           None \<Rightarrow> ([], w)
         | Some f \<Rightarrow>
             (case receive fenv out f of
                (rx, f') \<Rightarrow> (if reply_lost net (tick w) h p then [] else rx,
                             w\<lparr>nodes := AList.update (h, p) f' (nodes w)\<rparr>))),
      now = \<lambda>w. (int (tick w), w\<lparr>tick := Suc (tick w)\<rparr>),
      sleep_for = \<lambda>d w. w\<lparr>tick := tick w + nat d\<rparr>,
      disk_os = \<lambda>w. (healthy_os, w)\<rparr>"

definition address :: "ClusterPeer \<Rightarrow> string \<times> u16" where
  "address peer = (peer_host peer, sin_port (peer_port peer))"

section \<open>Frames at a node\<close>

lemma receive_frame:
  assumes "payload \<noteq> []" and "length payload < 2 ^ 32" and "inter_broker (kind (parse_request payload))"
    and "handle_inter_broker_request fenv (parse_request payload) 5 f = (Inr (frames, response), f')"
  shows "receive fenv (wrap_frame payload) f = (map wrap_frame (frames @ [response]), f')"
proof -
  have ne: "wrap_frame payload \<noteq> []" by (simp add: wrap_frame_eq assms(1))
  obtain rx' where "read_request [wrap_frame payload] = (payload, rx')"
    using read_request_next [of "[wrap_frame payload]" payload "[]"] assms(2) ne by (auto simp: open_stream_def)
  then show ?thesis
    using assms ne by (simp add: receive_def process_request_def prog Let_def)
qed

lemma receive_cut:
  assumes "prefix out (wrap_frame payload)" and "out \<noteq> wrap_frame payload" and "length payload < 2 ^ 32"
  shows "receive fenv out f = ([], f)"
proof -
  let ?rx = "if out = [] then [] else [out]"
  have "fst (read_request ?rx) = []"
  proof (cases "fst (read_frame ?rx)")
    case (Some q)
    then obtain rx' where "read_frame ?rx = (Some q, rx')" by (metis prod.collapse)
    from read_frame_sound [OF this] have q: "out = wrap_frame q @ concat rx'" "length q < 2 ^ 32" by (auto split: if_splits)
    then obtain zs where "wrap_frame payload = wrap_frame q @ zs" using assms(1) by (auto simp: prefix_def)
    then have "be_bytes 4 (of_nat (length payload) :: u32) @ payload = be_bytes 4 (of_nat (length q) :: u32) @ (q @ zs)"
      by (simp only: wrap_frame_eq append_assoc)
    then have same: "be_bytes 4 (of_nat (length payload) :: u32) = be_bytes 4 (of_nat (length q) :: u32) \<and> payload = q @ zs"
      by (rule append_eq_append_conv [THEN iffD1, rotated]) simp
    then have "(of_nat (length payload) :: u32) = of_nat (length q)" by (metis frame_header)
    then have "length payload = length q" using unat_of_nat_u32 assms(3) q(2) by metis
    then show ?thesis using same q(1) assms(1,2) by (metis append_Nil2 length_append add_cancel_left_right length_0_conv prefix_order.antisym prefixI)
  qed (auto simp: read_request_def split: prod.split option.split)
  then show ?thesis by (auto simp: receive_def ret_def split: prod.split)
qed

lemma response_not_ack: "kind (parse_request (serialize_response (accepted [] 0))) \<noteq> ACK"
proof
  let ?p = "serialize_response (accepted [] 0)"
  assume k: "kind (parse_request ?p) = ACK"
  then have "?p ! 1 = char_of_u8 (type_code ACK)" using parse_request_accepted [of ?p] by (metis RequestType.distinct One_nat_def append_Cons nth_Cons_0 nth_Cons_Suc)
  moreover have "?p ! 1 = char_of_u8 1" by (simp add: serialize_response_def accepted_def Let_def codec)
  ultimately have "(1 :: u8) = type_code ACK" by (metis u8_of_char_of_u8)
  then show False by simp
qed


text \<open>What the leader sends.\<close>

lemma length_replication_request:
  "length (build_replication_request t p off msg) = 22 + length t + length msg"
  "length (build_commit_request t p off) = 18 + length t"
  by (simp_all add: build_replication_request_def build_commit_request_def encode_request_eq body_bytes.simps
    field_bytes_defs blank_request_def be_string_def)

lemma parse_replication_request:
  assumes "fits t" and "fits msg"
  shows "parse_request (build_replication_request t p off msg) =
    (blank_request REPLICATE)\<lparr>topic := t, partition := p, message := msg, fetch_offset := off\<rparr>"
proof -
  let ?r = "(blank_request REPLICATE)\<lparr>topic := t, partition := p, message := msg, fetch_offset := off\<rparr>"
  have "within_limits ?r" using assms by (simp add: within_limits_def blank_request_def)
  from parse_request_encoded [OF _ this, of REPLICATE "[]"] show ?thesis
    by (simp add: build_replication_request_def encode_request_eq blank_request_def)
qed

lemma parse_commit_request:
  assumes "fits t"
  shows "parse_request (build_commit_request t p off) = (blank_request COMMIT)\<lparr>topic := t, partition := p, fetch_offset := off\<rparr>"
proof -
  let ?r = "(blank_request COMMIT)\<lparr>topic := t, partition := p, fetch_offset := off\<rparr>"
  have "within_limits ?r" using assms by (simp add: within_limits_def blank_request_def)
  from parse_request_encoded [OF _ this, of COMMIT "[]"] show ?thesis
    by (simp add: build_commit_request_def encode_request_eq blank_request_def)
qed

abbreviation ack_of :: "string \<Rightarrow> int32 \<Rightarrow> u64 \<Rightarrow> int32 \<Rightarrow> string" where
  "ack_of t p off i \<equiv> encode_request ((blank_request ACK)\<lparr>topic := t, partition := p, fetch_offset := off, broker_id := i\<rparr>)"

lemma length_ack: "fits t \<Longrightarrow> length (ack_of t p off i) < 2 ^ 32"
  by (simp add: encode_request_eq field_bytes_defs blank_request_def be_string_def fits_def kMaxStringBytes_def)

lemma parse_ack:
  assumes "fits t"
  shows "parse_request (ack_of t p off i) =
    (blank_request ACK)\<lparr>topic := t, partition := p, fetch_offset := off, broker_id := i\<rparr>"
proof -
  let ?r = "(blank_request ACK)\<lparr>topic := t, partition := p, fetch_offset := off, broker_id := i\<rparr>"
  have "within_limits ?r" using assms by (simp add: within_limits_def blank_request_def)
  from parse_request_encoded [OF _ this, of ACK "[]"] show ?thesis
    by (simp add: encode_request_eq blank_request_def)
qed

section \<open>A node and the leader's messages\<close>

definition has_record :: "storage \<Rightarrow> string \<Rightarrow> int32 \<Rightarrow> u64 \<Rightarrow> string \<Rightarrow> bool" where
  "has_record S t p off msg \<longleftrightarrow> unat off < length (stored S t p) \<and> stored S t p ! unat off = msg"

text \<open>
  A node that gets a replication request keeps its id; if the first frame it answers is an
  acknowledgement, then it holds the record at the offset and the acknowledgement names the node,
  the partition and the offset.
\<close>

lemma node_handles:
  assumes "healthy_disk fenv" and room: "room_left (store f) t p [msg]" and "t \<noteq> []" and "0 \<le> val32 p" and "msg \<noteq> []"
    and req: "req = (blank_request REPLICATE)\<lparr>topic := t, partition := p, message := msg, fetch_offset := off\<rparr>"
  shows "\<exists>acks f'. handle_replication_request fenv req 5 f = (Inr acks, f') \<and> cfg f' = cfg f \<and>
    (acks = [] \<and> (is_leader f \<or> off \<noteq> of_nat (length (stored (store f) t p))) \<or>
     acks = [ack_of t p off (cfg_id (cfg f))] \<and> has_record (store f') t p off msg)"
proof (cases "is_leader f")
  case True
  then show ?thesis by (simp add: handle_replication_request_def ret_def)
next
  case False
  let ?n = "length (stored (store f) t p)"
  have fields: "topic req = t" "partition req = p" "fetch_offset req = off" "replicated_records req = [msg]" "replication_ok req"
    using assms(3-5) req by (simp_all add: blank_request_def replication_ok_def replicated_records_def)
  show ?thesis
  proof (cases "off = of_nat ?n")
    case True
    obtain S w where S: "handle_replication_request fenv req 5 f =
        (Inr (send_ack 5 (of_nat (length (stored S t p) - 1)) t p f), f\<lparr>store := S, world := w\<rparr>)"
      "stored S t p = stored (store f) t p @ [msg]"
      using follower_replicates [OF assms(1) fields(5) False, of 5] room True unfolding fields by blast
    have "unat off = ?n"
      using room unat_offset [of "stored (store f) t p @ [msg]" ?n] True by (simp add: room_left_def)
    then show ?thesis using S True by (simp add: send_ack_def has_record_def)
  next
    case neq: False
    then show ?thesis
      using follower_out_of_step [OF assms(1) fields(5) False, of 5] room unfolding fields by blast
  qed
qed

lemma node_replicates:
  assumes "healthy_disk fenv" and "room_left (store f) t p [msg]" and "t \<noteq> []" and "0 \<le> val32 p" and "msg \<noteq> []"
    and "fits t" and "fits msg"
  shows "\<exists>frames f'. receive fenv (wrap_frame (build_replication_request t p off msg)) f = (map wrap_frame frames, f') \<and>
    cfg f' = cfg f \<and> frames \<noteq> [] \<and>
    (hd frames = serialize_response (accepted [] 0) \<and> (is_leader f \<or> off \<noteq> of_nat (length (stored (store f) t p))) \<or>
     hd frames = ack_of t p off (cfg_id (cfg f)) \<and> has_record (store f') t p off msg)"
proof -
  let ?payload = "build_replication_request t p off msg"
  define req where "req = (blank_request REPLICATE)\<lparr>topic := t, partition := p, message := msg, fetch_offset := off\<rparr>"
  have len: "length ?payload < 2 ^ 32" "?payload \<noteq> []"
    using assms(6,7) length_replication_request(1) [of t p off msg]
    by (auto simp: fits_def kMaxStringBytes_def simp flip: length_greater_0_conv)
  have parsed: "parse_request ?payload = req" using assms(6,7) by (simp add: parse_replication_request req_def)
  have kind: "kind req = REPLICATE" by (simp add: req_def blank_request_def)
  obtain acks f' where run: "handle_replication_request fenv req 5 f = (Inr acks, f')" "cfg f' = cfg f"
    and acks: "acks = [] \<and> (is_leader f \<or> off \<noteq> of_nat (length (stored (store f) t p))) \<or>
      acks = [ack_of t p off (cfg_id (cfg f))] \<and> has_record (store f') t p off msg"
    using node_handles [OF assms(1-5) req_def] by blast
  have "handle_inter_broker_request fenv (parse_request ?payload) 5 f = (Inr (acks, serialize_response (accepted [] 0)), f')"
    using run(1) kind by (simp add: parsed handle_inter_broker_request_def prog)
  from receive_frame [OF len(2,1) _ this] show ?thesis
    using run(2) acks by (intro exI [of _ "acks @ [serialize_response (accepted [] 0)]"] exI [of _ f'])
      (auto simp: parsed kind inter_broker_def)
qed

lemma node_commits:
  assumes "t \<noteq> []" and "fits t"
  shows "\<exists>rx f'. receive fenv (wrap_frame (build_commit_request t p off)) f = (rx, f') \<and> cfg f' = cfg f \<and> store f' = store f"
proof -
  let ?payload = "build_commit_request t p off"
  have len: "length ?payload < 2 ^ 32" "?payload \<noteq> []"
    using assms(2) length_replication_request(2) [of t p off]
    by (auto simp: fits_def kMaxStringBytes_def simp flip: length_greater_0_conv)
  have kind: "inter_broker (kind (parse_request ?payload))"
    using assms(2) by (simp add: parse_commit_request blank_request_def inter_broker_def)
  define f' where "f' = snd (handle_commit_request (parse_request ?payload) f)"
  have f': "handle_commit_request (parse_request ?payload) f = (Inr (), f')" "cfg f' = cfg f" "store f' = store f"
    by (simp_all add: f'_def handle_commit_request_def ret_def mark_committed_def prog)
  have "handle_inter_broker_request fenv (parse_request ?payload) 5 f = (Inr ([], serialize_response (accepted [] 0)), f')"
    using f'(1) assms(2) by (simp add: parse_commit_request handle_inter_broker_request_def Let_def prog blank_request_def)
  from receive_frame [OF len(2,1) kind this] f'(2,3) show ?thesis by blast
qed


section \<open>The leader's side\<close>

lemma send_cluster:
  assumes "send_one_shot_to_peer (cluster_env net fenv) peer payload want w = ((ok, answer), w')" and "length payload < 2 ^ 32"
  shows "\<not> ok \<and> map_of (nodes w') = map_of (nodes w) \<or>
    (\<exists>f rx f'. map_of (nodes w) (address peer) = Some f \<and> receive fenv (wrap_frame payload) f = (rx, f') \<and>
       map_of (nodes w') = (map_of (nodes w))(address peer \<mapsto> f') \<and> (ok \<and> want \<longrightarrow> fst (read_frame rx) = Some answer))"
proof (cases "map_of (nodes w) (address peer)")
  case None
  then show ?thesis using assms(1) by (auto simp: send_one_shot_to_peer_def cluster_env_def address_def)
next
  case (Some f)
  show ?thesis
  proof (cases "link net (tick w) (peer_host peer) (sin_port (peer_port peer))")
    case None
    then show ?thesis using assms(1) Some by (auto simp: send_one_shot_to_peer_def cluster_env_def address_def)
  next
    case (Some answers)
    obtain sent out where out: "write_frame answers payload = (sent, out)" by fastforce
    obtain rx f' where rx: "receive fenv out f = (rx, f')" by fastforce
    have eof: "fst (read_frame []) = None" by code_simp
    have w': "map_of (nodes w') = (map_of (nodes w))(address peer \<mapsto> f')" "ok \<longrightarrow> sent"
      "ok \<and> want \<longrightarrow> fst (read_frame rx) = Some answer"
      using assms(1) Some \<open>map_of (nodes w) (address peer) = Some f\<close> out rx eof
      by (auto simp: send_one_shot_to_peer_def cluster_env_def address_def split: if_splits option.splits)
    show ?thesis
    proof (cases sent)
      case True
      then have "out = wrap_frame payload" using write_frame_emits(2) [OF out] by simp
      then show ?thesis using w' rx \<open>map_of (nodes w) (address peer) = Some f\<close> by blast
    next
      case False
      then have "f' = f"
        using receive_cut [OF write_frame_emits(1) [OF out] _ assms(2), of fenv f] write_frame_emits(2) [OF out] rx by simp
      then show ?thesis using w' False \<open>map_of (nodes w) (address peer) = Some f\<close> by auto
    qed
  qed
qed

lemma wrap_frame_not_Nil: "wrap_frame payload \<noteq> []"
proof -
  have "length (wrap_frame payload) = 4 + length payload" by (simp add: wrap_frame_eq)
  then show ?thesis by auto
qed

lemma first_frame_read:
  assumes "frames \<noteq> []" and "length (hd frames) < 2 ^ 32"
  shows "fst (read_frame (map wrap_frame frames)) = Some (hd frames)"
proof -
  obtain fr frs where frames: "frames = fr # frs" using assms(1) by (cases frames) auto
  have "open_stream (map wrap_frame frames)" using wrap_frame_not_Nil by (metis imageE list.set_map open_stream_def)
  then show ?thesis
    using read_frame_stream [of "map wrap_frame frames" fr "concat (map wrap_frame frs)"] assms(2) frames by auto
qed

lemma handle_ack_acked:
  assumes "handle_ack i t p off b = (r, c)"
  shows "r = Inr () \<and> cfg c = cfg b \<and> store c = store b \<and> world c = world b \<and>
    acked_by t p off c \<subseteq> insert i (acked_by t p off b)"
  using assms by (auto simp: handle_ack_def ret_def on_repl_def modify_def acked_by_def note_ack_def Let_def split: if_splits)

lemma liveness_marks:
  assumes "(if ok then mark_alive (cluster_env net fenv) i else mark_follower_failed i) b = (r, c)"
  shows "cfg c = cfg b \<and> store c = store b \<and> nodes (world c) = nodes (world b) \<and> acked_by t p off c = acked_by t p off b"
  using assms
  by (auto simp: mark_alive_def mark_follower_failed_def seq_def in_world_def on_repl_def modify_def cluster_env_def
    acked_by_def split: if_splits)

definition replicable :: "string \<Rightarrow> int32 \<Rightarrow> string \<Rightarrow> bool" where
  "replicable t p msg \<longleftrightarrow> t \<noteq> [] \<and> 0 \<le> val32 p \<and> msg \<noteq> [] \<and> fits t \<and> fits msg"

definition peer_ready :: "string \<Rightarrow> int32 \<Rightarrow> string \<Rightarrow> fleet \<Rightarrow> ClusterPeer \<Rightarrow> bool" where
  "peer_ready t p msg w peer \<longleftrightarrow>
     (\<forall>f. map_of (nodes w) (address peer) = Some f \<longrightarrow> cfg_id (cfg f) = peer_id peer \<and> room_left (store f) t p [msg])"

text \<open>What comes back from a peer: an acknowledgement only when its node holds the record.\<close>

lemma peer_answer:
  assumes s: "send_one_shot_to_peer (cluster_env net fenv) peer (build_replication_request t p off msg) True w = ((sent, answer), w')"
    and fenv: "healthy_disk fenv" and ok: "replicable t p msg" and peer: "peer_ready t p msg w peer"
  shows "(\<forall>a. a \<noteq> address peer \<longrightarrow> map_of (nodes w') a = map_of (nodes w) a) \<and>
    (sent \<and> kind (parse_request answer) = ACK \<longrightarrow> answer = ack_of t p off (peer_id peer) \<and>
      (\<exists>f. map_of (nodes w') (address peer) = Some f \<and> has_record (store f) t p off msg))"
proof -
  have t: "t \<noteq> []" "0 \<le> val32 p" "msg \<noteq> []" "fits t" "fits msg" using ok by (simp_all add: replicable_def)
  have len: "length (build_replication_request t p off msg) < 2 ^ 32"
    using t(4,5) length_replication_request(1) [of t p off msg] by (simp add: fits_def kMaxStringBytes_def)
  from send_cluster [OF s len] show ?thesis
  proof (elim disjE exE conjE)
    fix f rx f'
    assume f: "map_of (nodes w) (address peer) = Some f" "receive fenv (wrap_frame (build_replication_request t p off msg)) f = (rx, f')"
      "map_of (nodes w') = (map_of (nodes w))(address peer \<mapsto> f')" "sent \<and> True \<longrightarrow> fst (read_frame rx) = Some answer"
    have ready: "cfg_id (cfg f) = peer_id peer" "room_left (store f) t p [msg]" using peer f(1) by (auto simp: peer_ready_def)
    obtain frames where fr: "rx = map wrap_frame frames" "frames \<noteq> []"
      "hd frames = serialize_response (accepted [] 0) \<or> hd frames = ack_of t p off (peer_id peer) \<and> has_record (store f') t p off msg"
      using node_replicates [OF fenv ready(2) t(1-5), of off] f(2) ready(1) by auto
    have "length (serialize_response (accepted [] 0)) < 2 ^ 32" by (simp add: serialize_response_def accepted_def codec Let_def)
    then have "length (hd frames) < 2 ^ 32" using fr(3) length_ack [OF t(4)] by auto
    then have "sent \<longrightarrow> answer = hd frames" using first_frame_read [OF fr(2)] f(4) fr(1) by simp
    then show ?thesis using fr(3) response_not_ack f(3) by auto
  qed simp
qed

lemma replicate_to_peer_cluster:
  assumes run: "replicate_to_peer (cluster_env net fenv) peer (build_replication_request t p off msg) t p off b = (r, c)"
    and fenv: "healthy_disk fenv" and ok: "replicable t p msg" and peer: "peer_ready t p msg (world b) peer"
  shows "cfg c = cfg b \<and> store c = store b \<and>
    (\<forall>a. a \<noteq> address peer \<longrightarrow> map_of (nodes (world c)) a = map_of (nodes (world b)) a) \<and>
    (acked_by t p off c \<subseteq> acked_by t p off b \<or>
     acked_by t p off c \<subseteq> insert (peer_id peer) (acked_by t p off b) \<and>
       (\<exists>f. map_of (nodes (world c)) (address peer) = Some f \<and> has_record (store f) t p off msg))"
proof -
  let ?payload = "build_replication_request t p off msg"
  have t: "t \<noteq> []" "fits t" using ok by (simp_all add: replicable_def)
  obtain sent answer w' where s: "send_one_shot_to_peer (cluster_env net fenv) peer ?payload True (world b) = ((sent, answer), w')"
    by (metis surj_pair)
  note answered = peer_answer [OF s fenv ok peer]
  define ack where "ack = parse_request answer"
  let ?b = "b\<lparr>world := w'\<rparr>"
  have keep: "acked_by t p off ?b = acked_by t p off b" by (simp add: acked_by_def)
  have body: "replicate_to_peer (cluster_env net fenv) peer ?payload t p off b =
      (if \<not> sent \<or> answer = [] \<or> kind ack \<noteq> ACK then (Inr False, ?b)
       else seq (handle_ack (broker_id ack) (if topic ack = [] then t else topic ack)
                  (if topic ack = [] then p else partition ack) (fetch_offset ack)) (\<lambda>_. ret (off \<le> fetch_offset ack)) ?b)"
    using s by (simp add: replicate_to_peer_def seq_def in_world_def ret_def Let_def ack_def)
  show ?thesis
  proof (cases "\<not> sent \<or> answer = [] \<or> kind ack \<noteq> ACK")
    case True
    then show ?thesis using run body keep answered by auto
  next
    case False
    then have held: "answer = ack_of t p off (peer_id peer)"
      "\<exists>f. map_of (nodes w') (address peer) = Some f \<and> has_record (store f) t p off msg"
      using answered by (auto simp: ack_def)
    then have "topic ack = t" "partition ack = p" "fetch_offset ack = off" "broker_id ack = peer_id peer"
      using parse_ack [OF t(2)] by (simp_all add: ack_def blank_request_def)
    then have "seq (handle_ack (peer_id peer) t p off) (\<lambda>_. ret (off \<le> off)) ?b = (r, c)"
      using run body False t(1) by simp
    then have "handle_ack (peer_id peer) t p off ?b = (Inr (), c)"
      using handle_ack_acked [of "peer_id peer" t p off ?b] by (auto simp: seq_def ret_def split: prod.splits sum.splits)
    from handle_ack_acked [OF this] show ?thesis using held(2) answered keep by auto
  qed
qed

text \<open>The peers among \<open>ps\<close> whose node holds the record.\<close>

definition holding_peers :: "ClusterPeer list \<Rightarrow> fleet \<Rightarrow> string \<Rightarrow> int32 \<Rightarrow> u64 \<Rightarrow> string \<Rightarrow> int32 set" where
  "holding_peers ps w t p off msg =
     {i. \<exists>peer f. peer \<in> set ps \<and> peer_id peer = i \<and> map_of (nodes w) (address peer) = Some f \<and> has_record (store f) t p off msg}"

lemma replicate_step_cluster:
  assumes run: "replicate_step (cluster_env net fenv) (build_replication_request t p off msg) t p off peer b = (r, c)"
    and fenv: "healthy_disk fenv" and ok: "replicable t p msg" and peer: "peer_ready t p msg (world b) peer"
  shows "cfg c = cfg b \<and> store c = store b \<and>
    (\<forall>a. a \<noteq> address peer \<longrightarrow> map_of (nodes (world c)) a = map_of (nodes (world b)) a) \<and>
    acked_by t p off c \<subseteq> acked_by t p off b \<union> holding_peers [peer] (world c) t p off msg"
proof (cases "peer_id peer = cfg_id (cfg b) \<or> \<not> is_peer_available (peer_id peer) b")
  case True
  then show ?thesis using run by (auto simp: replicate_step_def ret_def)
next
  case False
  obtain r1 b1 where r1: "replicate_to_peer (cluster_env net fenv) peer (build_replication_request t p off msg) t p off b = (r1, b1)"
    by fastforce
  note one = replicate_to_peer_cluster [OF r1 fenv ok peer]
  have "cfg c = cfg b1 \<and> store c = store b1 \<and> nodes (world c) = nodes (world b1) \<and> acked_by t p off c = acked_by t p off b1"
  proof (cases r1)
    case (Inr sent)
    then have "(if sent then mark_alive (cluster_env net fenv) (peer_id peer) else mark_follower_failed (peer_id peer)) b1 = (r, c)"
      using run False r1 by (cases sent) (simp_all add: replicate_step_def prog)
    from liveness_marks [OF this] show ?thesis .
  qed (use run False r1 in \<open>simp add: replicate_step_def prog\<close>)
  with one show ?thesis by (auto simp: holding_peers_def)
qed

lemma holding_peers_frame:
  assumes "\<forall>peer\<in>set ps. map_of (nodes w') (address peer) = map_of (nodes w) (address peer)"
  shows "holding_peers ps w' t p off msg = holding_peers ps w t p off msg"
  using assms by (auto simp: holding_peers_def)

lemma holding_peers_append:
  "holding_peers (ps @ qs) w t p off msg = holding_peers ps w t p off msg \<union> holding_peers qs w t p off msg"
  by (auto simp: holding_peers_def)

lemma replicate_loop_cluster:
  assumes fenv: "healthy_disk fenv" and ok: "replicable t p msg"
  shows "for_each (replicate_step (cluster_env net fenv) (build_replication_request t p off msg) t p off) ps b = (r, c) \<Longrightarrow>
    distinct (map address (done_peers @ ps)) \<Longrightarrow> \<forall>peer\<in>set ps. peer_ready t p msg (world b) peer \<Longrightarrow>
    acked_by t p off b \<subseteq> insert i (holding_peers done_peers (world b) t p off msg) \<Longrightarrow>
    cfg c = cfg b \<and> store c = store b \<and> acked_by t p off c \<subseteq> insert i (holding_peers (done_peers @ ps) (world c) t p off msg)"
proof (induction ps arbitrary: b done_peers)
  case Nil
  then show ?case by (simp add: ret_def)
next
  case (Cons peer ps)
  let ?step = "replicate_step (cluster_env net fenv) (build_replication_request t p off msg) t p off"
  obtain r1 b1 where b1: "?step peer b = (r1, b1)" by fastforce
  note one = replicate_step_cluster [OF b1 fenv ok]
  have ready: "peer_ready t p msg (world b) peer" using Cons.prems(3) by simp
  have "\<forall>q\<in>set done_peers. address q \<noteq> address peer" "\<forall>q\<in>set ps. address q \<noteq> address peer"
    using Cons.prems(2) by (auto simp: image_iff)
  then have same: "\<forall>q\<in>set done_peers. map_of (nodes (world b1)) (address q) = map_of (nodes (world b)) (address q)"
    "\<forall>q\<in>set ps. map_of (nodes (world b1)) (address q) = map_of (nodes (world b)) (address q)"
    using one [OF ready] by blast+
  then have frame: "holding_peers done_peers (world b1) t p off msg = holding_peers done_peers (world b) t p off msg"
    "\<forall>q\<in>set ps. peer_ready t p msg (world b1) q"
    using Cons.prems(3) by (auto simp: peer_ready_def intro!: holding_peers_frame)
  have acked: "acked_by t p off b1 \<subseteq> insert i (holding_peers (done_peers @ [peer]) (world b1) t p off msg)"
    using one [OF ready] Cons.prems(4) frame(1) by (auto simp: holding_peers_append)
  show ?case
  proof (cases r1)
    case (Inl x)
    then have "c = b1" using Cons.prems(1) b1 by (simp add: prog)
    then show ?thesis
      using one [OF ready] acked holding_peers_append [of "done_peers @ [peer]" ps "world b1" t p off msg] by auto
  next
    case (Inr u)
    then have "for_each ?step ps b1 = (r, c)" using Cons.prems(1) b1 by (simp add: prog)
    from Cons.IH [OF this _ frame(2) acked] show ?thesis using one [OF ready] Cons.prems(2) by simp
  qed
qed


section \<open>Committing leaves the records alone\<close>

definition same_nodes :: "fleet \<Rightarrow> fleet \<Rightarrow> bool" where
  "same_nodes w w' \<longleftrightarrow> (\<forall>a f. map_of (nodes w) a = Some f \<longrightarrow> (\<exists>f'. map_of (nodes w') a = Some f' \<and> store f' = store f))"

lemma same_nodes_trans: "same_nodes a b \<Longrightarrow> same_nodes b c \<Longrightarrow> same_nodes a c"
  unfolding same_nodes_def by metis

lemma same_nodes_eq: "map_of (nodes w') = map_of (nodes w) \<Longrightarrow> same_nodes w w'"
  by (simp add: same_nodes_def)

lemma same_nodes_holding: "same_nodes w w' \<Longrightarrow> holding_peers ps w t p off msg \<subseteq> holding_peers ps w' t p off msg"
  unfolding same_nodes_def holding_peers_def by fastforce

lemma wait_loop_nodes:
  assumes "wait_loop env reached deadline w = Some r"
    and "\<And>w. nodes (snd (now env w)) = nodes w" and "\<And>d w. nodes (sleep_for env d w) = nodes w"
  shows "nodes (snd r) = nodes w"
proof -
  let ?P = "\<lambda>env reached (deadline :: int) w r. (\<forall>w. nodes (snd (now env w)) = nodes w) \<and>
    (\<forall>d w. nodes (sleep_for env d w) = nodes w) \<longrightarrow> nodes (snd r) = nodes w"
  have "?P env reached deadline w r"
  proof (rule wait_loop.raw_induct [where P = ?P, OF _ assms(1)], intro impI)
    fix loop :: "'a fleet_scheme env \<Rightarrow> bool \<Rightarrow> int \<Rightarrow> 'a fleet_scheme \<Rightarrow> (bool \<times> 'a fleet_scheme) option" and env reached deadline w r
    assume IH: "\<And>env reached deadline w r. loop env reached deadline w = Some r \<Longrightarrow> ?P env reached deadline w r"
      and step: "(case now env w of (t, w1) \<Rightarrow> if t < deadline then if reached then Some (True, w1)
          else loop env reached deadline (sleep_for env (millis 10) w1) else Some (reached, w1)) = Some r"
      and frame: "(\<forall>w. nodes (snd (now env w)) = nodes w) \<and> (\<forall>d w. nodes (sleep_for env d w) = nodes w)"
    obtain t w1 where n: "now env w = (t, w1)" by fastforce
    then have w1: "nodes w1 = nodes w" using frame by (metis snd_conv)
    then show "nodes (snd r) = nodes w"
      using step n frame IH [of env reached deadline "sleep_for env (millis 10) w1" r] by (auto split: if_splits)
  qed
  then show ?thesis using assms(2,3) by blast
qed

lemma wait_cluster:
  assumes "wait_for_quorum (cluster_env net fenv) t p off timeout b = (Inr ok, c)"
  shows "nodes (world c) = nodes (world b)"
proof -
  let ?env = "cluster_env net fenv"
  have frame: "nodes (snd (now ?env w)) = nodes w" "nodes (sleep_for ?env d w) = nodes w" for d w
    by (simp_all add: cluster_env_def)
  obtain start w where s: "now ?env (world b) = (start, w)" by fastforce
  then have w: "nodes w = nodes (world b)" using frame(1) [of "world b"] by simp
  obtain r where "wait_loop ?env (quorum_reached t p off b) (start + timeout) w = Some r" "world c = snd r"
    using assms s by (auto simp: wait_for_quorum_def split: option.splits prod.splits)
  then show ?thesis using wait_loop_nodes [OF _ frame] w by metis
qed

lemma one_way_cluster:
  assumes "one_way_step (cluster_env net fenv) (build_commit_request t p off) peer b = (r, c)" and "t \<noteq> []" and "fits t"
  shows "same_nodes (world b) (world c)"
proof -
  let ?payload = "build_commit_request t p off"
  have len: "length ?payload < 2 ^ 32"
    using assms(3) length_replication_request(2) [of t p off] by (simp add: fits_def kMaxStringBytes_def)
  obtain sent answer w' where s: "send_one_shot_to_peer (cluster_env net fenv) peer ?payload False (world b) = ((sent, answer), w')"
    by (metis surj_pair)
  have sn: "same_nodes (world b) w'"
    using send_cluster [OF s len]
  proof (elim disjE exE conjE)
    fix f rx f'
    assume f: "map_of (nodes (world b)) (address peer) = Some f" "receive fenv (wrap_frame ?payload) f = (rx, f')"
      "map_of (nodes w') = (map_of (nodes (world b)))(address peer \<mapsto> f')"
    then have "store f' = store f" using node_commits [OF assms(2,3), of fenv p off f] by auto
    then show ?thesis using f by (simp add: same_nodes_def)
  qed (simp add: same_nodes_eq)
  have "(if sent then mark_alive (cluster_env net fenv) (peer_id peer) else mark_follower_failed (peer_id peer)) (b\<lparr>world := w'\<rparr>) = (r, c)"
    using assms(1) s by (cases sent) (simp_all add: one_way_step_def seq_def in_world_def)
  from liveness_marks [OF this] sn show ?thesis by (simp add: same_nodes_def)
qed

lemma broadcast_cluster:
  assumes "t \<noteq> []" and "fits t"
  shows "broadcast_commit (cluster_env net fenv) t p off b = (r, c) \<Longrightarrow> same_nodes (world b) (world c)"
proof -
  let ?step = "\<lambda>peer b. if peer_id peer = cfg_id (cfg b) \<or> \<not> is_peer_available (peer_id peer) b then ret () b
             else one_way_step (cluster_env net fenv) (build_commit_request t p off) peer b"
  have one: "same_nodes (world b) (world c)" if "?step peer b = (r, c)" for peer b r c
    using that one_way_cluster [OF _ assms] by (auto simp: ret_def same_nodes_eq split: if_splits)
  have "same_nodes (world b) (world c)" if "for_each ?step ps b = (r, c)" for ps b
    using that
  proof (induction ps arbitrary: b)
    case (Cons peer ps)
    obtain r1 b1 where b1: "?step peer b = (r1, b1)" by fastforce
    show ?case
    proof (cases r1)
      case (Inr u)
      then have "for_each ?step ps b1 = (r, c)" using Cons.prems b1 by (simp add: seq_def)
      then show ?thesis using Cons.IH one [OF b1] same_nodes_trans by blast
    qed (use Cons.prems b1 one [OF b1] in \<open>simp add: seq_def\<close>)
  qed (simp add: ret_def same_nodes_eq)
  then show "broadcast_commit (cluster_env net fenv) t p off b = (r, c) \<Longrightarrow> same_nodes (world b) (world c)"
    by (auto simp: broadcast_commit_def ret_def same_nodes_eq split: if_splits)
qed


section \<open>A successful produce\<close>

lemma after_append_success:
  assumes "after_append env t p msg off b = (Inr r, c)" and "success r"
  obtains b1 b2 b3 where "refresh t b = (Inr (), b1)" and "replicate_message env t p off msg b1 = (Inr True, b2)"
    and "wait_for_quorum env t p off kQuorumTimeout b2 = (Inr True, b3)"
    and "broadcast_commit env t p off (snd (mark_committed t p off b3)) = (Inr (), c)" and "r = accepted [] off"
proof -
  obtain b1 where b1: "refresh t b = (Inr (), b1)" using refresh_frame(4) by (metis surj_pair)
  obtain ok b2 where b2: "replicate_message env t p off msg b1 = (Inr ok, b2)"
    using assms(1) b1 by (auto simp: after_append_def elim!: seq_InrE)
  have "ok" using assms b1 b2 by (cases ok) (auto simp: after_append_def prog refusal_def)
  obtain reached b3 where b3: "wait_for_quorum env t p off kQuorumTimeout b2 = (Inr reached, b3)"
    using assms(1) b1 b2 \<open>ok\<close> by (auto simp: after_append_def prog elim!: seq_InrE)
  have "reached" using assms b1 b2 b3 \<open>ok\<close> by (cases reached) (auto simp: after_append_def prog refusal_def)
  have last: "seq (mark_committed t p off) (\<lambda>_. seq (broadcast_commit env t p off) (\<lambda>_. ret (accepted [] off))) b3 = (Inr r, c)"
    using assms(1) b1 b2 b3 \<open>ok\<close> \<open>reached\<close> by (simp add: after_append_def prog)
  have "seq (broadcast_commit env t p off) (\<lambda>_. ret (accepted [] off)) (snd (mark_committed t p off b3)) = (Inr r, c)"
    using last by (simp add: seq_Inr [OF mark_committed_eq])
  then have "broadcast_commit env t p off (snd (mark_committed t p off b3)) = (Inr (), c)" "r = accepted [] off"
    by (auto simp: ret_def elim!: seq_InrE)
  then show ?thesis using that b1 b2 b3 \<open>ok\<close> \<open>reached\<close> by simp
qed

definition holders :: "fleet broker \<Rightarrow> string \<Rightarrow> int32 \<Rightarrow> u64 \<Rightarrow> string \<Rightarrow> int32 set" where
  "holders b t p off msg =
     (if has_record (store b) t p off msg then {cfg_id (cfg b)} else {}) \<union>
     holding_peers (cfg_peers (cfg b)) (world b) t p off msg"

definition cluster_ok :: "string \<Rightarrow> int32 \<Rightarrow> string \<Rightarrow> fleet broker \<Rightarrow> bool" where
  "cluster_ok t p msg b \<longleftrightarrow> distinct (map address (cfg_peers (cfg b))) \<and>
     list_all (peer_ready t p msg (world b)) (cfg_peers (cfg b)) \<and> room_left (store b) t p [msg]"

lemma finite_holders: "finite (holders b t p off msg)"
proof -
  have "holding_peers (cfg_peers (cfg b)) (world b) t p off msg \<subseteq> peer_id ` set (cfg_peers (cfg b))"
    by (auto simp: holding_peers_def)
  then show ?thesis by (auto simp: holders_def intro: finite_subset)
qed

lemma replicate_message_cluster:
  assumes run: "replicate_message (cluster_env net fenv) t p off msg b = (Inr True, c)"
    and fenv: "healthy_disk fenv" and ok: "replicable t p msg" and dist: "distinct (map address (cfg_peers (cfg b)))"
    and ready: "list_all (peer_ready t p msg (world b)) (cfg_peers (cfg b))"
    and fresh: "acked_by t p off b \<subseteq> {cfg_id (cfg b)}"
  shows "cfg c = cfg b \<and> store c = store b \<and>
    acked_by t p off c \<subseteq> insert (cfg_id (cfg b)) (holding_peers (cfg_peers (cfg b)) (world c) t p off msg)"
proof -
  let ?b = "snd (start_acks (make_ack_key t p off) b)"
  have start: "start_acks (make_ack_key t p off) b = (Inr (), ?b)" "world ?b = world b"
    by (simp_all add: start_acks_def on_repl_def modify_def)
  have acked: "acked_by t p off ?b \<subseteq> insert (cfg_id (cfg b)) (holding_peers [] (world ?b) t p off msg)"
    using fresh by (auto simp: acked_by_def start_acks_def on_repl_def modify_def)
  obtain u where "for_each (replicate_step (cluster_env net fenv) (build_replication_request t p off msg) t p off) (cfg_peers (cfg b)) ?b = (Inr u, c)"
    using run start(1) by (auto simp: replicate_message_def prog elim!: seq_InrE split: if_splits)
  from replicate_loop_cluster [OF fenv ok this _ _ acked] show ?thesis
    using dist ready start(2) by (simp add: list_all_iff)
qed

lemma after_append_cluster:
  assumes run: "after_append (cluster_env net fenv) t p msg off b = (Inr r, c)" and "success r"
    and fenv: "healthy_disk fenv" and ok: "replicable t p msg" and dist: "distinct (map address (cfg_peers (cfg b)))"
    and ready: "list_all (peer_ready t p msg (world b)) (cfg_peers (cfg b))"
    and fresh: "acked_by t p off b \<subseteq> {cfg_id (cfg b)}"
  shows "cfg c = cfg b \<and>
    acked_by t p off c \<subseteq> insert (cfg_id (cfg b)) (holding_peers (cfg_peers (cfg b)) (world c) t p off msg)"
proof -
  let ?env = "cluster_env net fenv"
  obtain b1 b2 b3 where
    b1: "refresh t b = (Inr (), b1)" and b2: "replicate_message ?env t p off msg b1 = (Inr True, b2)" and
    b3: "wait_for_quorum ?env t p off kQuorumTimeout b2 = (Inr True, b3)" and
    c: "broadcast_commit ?env t p off (snd (mark_committed t p off b3)) = (Inr (), c)" and "r = accepted [] off"
    by (rule after_append_success [OF run assms(2)])
  have f1: "repl b1 = repl b" "cfg b1 = cfg b" "world b1 = world b"
    using b1 refresh_frame [OF b1] by (auto simp: refresh_def on_groups_def)
  then have "list_all (peer_ready t p msg (world b1)) (cfg_peers (cfg b1))" "distinct (map address (cfg_peers (cfg b1)))"
    "acked_by t p off b1 \<subseteq> {cfg_id (cfg b1)}"
    using dist ready fresh by (simp_all add: acked_by_def)
  from replicate_message_cluster [OF b2 fenv ok this(2,1,3)]
  have f2: "cfg b2 = cfg b"
    "acked_by t p off b2 \<subseteq> insert (cfg_id (cfg b)) (holding_peers (cfg_peers (cfg b)) (world b2) t p off msg)"
    by (simp_all add: f1)
  have t: "t \<noteq> []" "fits t" using ok by (simp_all add: replicable_def)
  have "world (snd (mark_committed t p off b3)) = world b3" by (simp add: mark_committed_def prog)
  with broadcast_cluster [OF t c] have "same_nodes (world b3) (world c)" by simp
  then have nodes: "same_nodes (world b2) (world c)"
    using wait_cluster [OF b3] by (simp add: same_nodes_def)
  note waited = wait_for_quorum_result(2) [OF b3]
  have told: "same_log_state (snd (mark_committed t p off b3)) c"
    using quiet.run_broadcast_commit [of _ ?env t p off] c by (metis snd_conv)
  have "cfg c = cfg b" using told waited f2(1) by (simp add: same_log_state_def)
  moreover have "acked_by t p off c = acked_by t p off b2"
    using same_log_state_views(2) [OF told] same_log_state_views(2) [OF waited] by simp
  ultimately show ?thesis
    using f2(2) same_nodes_holding [OF nodes, of "cfg_peers (cfg b)" t p off msg] by auto
qed

lemma leader_accepts:
  assumes "is_leader b" and "handle_produce env req b = (Inr r, c)" and "success r"
  shows "topic req \<noteq> [] \<and> 0 \<le> val32 (partition req) \<and> message req \<noteq> []"
proof (rule ccontr)
  assume "\<not> ?thesis"
  then obtain s where "handle_produce env req b = (Inr (refusal s (- 1)), b)"
    using assms(1) by (cases "topic req = []"; cases "val32 (partition req) < 0") (auto simp: handle_produce_def ret_def)
  then show False using assms(2,3) by (simp add: refusal_def)
qed

end
