(* ===== verification/ClusterProperties.thy ===== *)
theory ClusterProperties
  imports Cluster Election
begin

text \<open>
  Producing to a cluster: when the leader reports success, and what a success is worth.
\<close>

section \<open>When a produce succeeds\<close>

definition ack_count :: "string \<Rightarrow> int32 \<Rightarrow> u64 \<Rightarrow> 'w broker \<Rightarrow> nat" where
  "ack_count t p off b = lookup 0 (ack_counts (repl b)) (make_ack_key t p off)"

lemma quorum_reached_count: "quorum_reached t p off b \<longleftrightarrow> quorum b \<le> ack_count t p off b"
  by (auto simp: quorum_reached_def ack_count_def lookup_def quorum_def split: option.splits)

text \<open>
  A peer that will acknowledge: it is another broker the leader considers live, its connection
  works, and its node is a follower whose log is as long as the leader's.
\<close>

definition connected :: "network \<Rightarrow> ClusterPeer \<Rightarrow> bool" where
  "connected net peer \<longleftrightarrow>
     (\<forall>k. (\<exists>a. link net k (peer_host peer) (sin_port (peer_port peer)) = Some a \<and> (\<forall>i. 0 < a i)) \<and>
          \<not> reply_lost net k (peer_host peer) (sin_port (peer_port peer)))"

definition in_step :: "string \<Rightarrow> int32 \<Rightarrow> u64 \<Rightarrow> fleet broker \<Rightarrow> ClusterPeer \<Rightarrow> bool" where
  "in_step t p off b peer \<longleftrightarrow> peer_id peer \<noteq> cfg_id (cfg b) \<and> is_peer_available (peer_id peer) b \<and>
     (case map_of (nodes (world b)) (address peer) of
        None \<Rightarrow> False
      | Some f \<Rightarrow> \<not> is_leader f \<and> off = of_nat (length (stored (store f) t p)))"

lemma send_connected:
  assumes "connected net peer" and "map_of (nodes w) (address peer) = Some f" and "receive fenv (wrap_frame payload) f = (rx, f')"
  shows "\<exists>w'. send_one_shot_to_peer (cluster_env net fenv) peer payload True w =
    ((case fst (read_frame rx) of None \<Rightarrow> (False, []) | Some answer \<Rightarrow> (True, answer)), w')"
proof -
  obtain a where a: "link net (tick w) (peer_host peer) (sin_port (peer_port peer)) = Some a" "\<And>i. 0 < a i"
    and reply: "\<And>k. \<not> reply_lost net k (peer_host peer) (sin_port (peer_port peer))"
    using assms(1) unfolding connected_def by blast
  have "write_frame a payload = (True, wrap_frame payload)"
    using write_frame_emits [of a payload] a(2) by (metis prod.collapse)
  then show ?thesis
    using a(1) reply assms(2,3)
    by (auto simp: send_one_shot_to_peer_def cluster_env_def address_def split: option.split)
qed

lemma replicate_step_returns: "\<exists>c. replicate_step env payload t p off peer b = (Inr (), c)"
  by (auto simp: replicate_step_def replicate_to_peer_def mark_alive_def mark_follower_failed_def handle_ack_def
    seq_def in_world_def on_repl_def modify_def ret_def Let_def split: prod.splits)

lemma replicate_to_peer_frame:
  assumes "replicate_to_peer env peer payload t p off b = (r, c)"
  shows "failed_peers (repl c) = failed_peers (repl b) \<and> ack_count u q n b \<le> ack_count u q n c"
  using assms
  by (auto simp: replicate_to_peer_def handle_ack_def seq_def in_world_def on_repl_def modify_def ret_def Let_def
    note_ack_def ack_count_def split: prod.splits if_splits)

lemma replicate_step_frame:
  assumes "replicate_step env payload t p off peer b = (r, c)"
  shows "(i \<noteq> peer_id peer \<longrightarrow> is_peer_available i c = is_peer_available i b) \<and> ack_count u q n b \<le> ack_count u q n c"
proof (cases "peer_id peer = cfg_id (cfg b) \<or> \<not> is_peer_available (peer_id peer) b")
  case False
  obtain r1 b1 where r1: "replicate_to_peer env peer payload t p off b = (r1, b1)" by fastforce
  note one = replicate_to_peer_frame [OF r1, of u q n]
  show ?thesis
  proof (cases r1)
    case (Inr sent)
    then have "(if sent then mark_alive env (peer_id peer) else mark_follower_failed (peer_id peer)) b1 = (r, c)"
      using assms False r1 by (cases sent) (simp_all add: replicate_step_def prog)
    then show ?thesis
      using one by (auto simp: mark_alive_def mark_follower_failed_def seq_def in_world_def on_repl_def modify_def
        is_peer_available_def ack_count_def split: if_splits prod.splits)
  qed (use assms False r1 one in \<open>auto simp: replicate_step_def prog is_peer_available_def\<close>)
qed (use assms in \<open>auto simp: replicate_step_def ret_def\<close>)

lemma replicate_step_counts:
  assumes net: "connected net peer" and "in_step t p off b peer" and "is_leader b"
    and fenv: "healthy_disk fenv" and ok: "replicable t p msg" and peer: "peer_ready t p msg (world b) peer"
    and new: "peer_id peer \<notin> acked_by t p off b"
    and run: "replicate_step (cluster_env net fenv) (build_replication_request t p off msg) t p off peer b = (r, c)"
  shows "ack_count t p off c = Suc (ack_count t p off b)"
proof -
  let ?payload = "build_replication_request t p off msg" and ?env = "cluster_env net fenv"
  let ?ack = "ack_of t p off (peer_id peer)"
  have t: "t \<noteq> []" "0 \<le> val32 p" "msg \<noteq> []" "fits t" "fits msg" using ok by (simp_all add: replicable_def)
  obtain f where f: "map_of (nodes (world b)) (address peer) = Some f" "\<not> is_leader f"
    "off = of_nat (length (stored (store f) t p))"
    and avail: "peer_id peer \<noteq> cfg_id (cfg b)" "is_peer_available (peer_id peer) b"
    using assms(2) by (auto simp: in_step_def split: option.splits)
  have f': "cfg_id (cfg f) = peer_id peer" "room_left (store f) t p [msg]" using peer f(1) by (auto simp: peer_ready_def)
  obtain frames g where g: "receive fenv (wrap_frame ?payload) f = (map wrap_frame frames, g)" "frames \<noteq> []" "hd frames = ?ack"
    using node_replicates [OF fenv f'(2) t(1-5), of off] f(2,3) f'(1) by auto
  have "fst (read_frame (map wrap_frame frames)) = Some ?ack"
    using first_frame_read [OF g(2)] g(3) length_ack [OF t(4)] by simp
  then obtain w' where s: "send_one_shot_to_peer ?env peer ?payload True (world b) = ((True, ?ack), w')"
    using send_connected [OF net f(1) g(1)] by auto
  define answer where "answer = parse_request ?ack"
  have "answer = (blank_request ACK)\<lparr>topic := t, partition := p, fetch_offset := off, broker_id := peer_id peer\<rparr>"
    unfolding answer_def using t(4) by (rule parse_ack)
  then have fields: "kind answer = ACK" "topic answer = t" "partition answer = p" "fetch_offset answer = off"
    "broker_id answer = peer_id peer" by (simp_all add: blank_request_def)
  have ne: "?ack \<noteq> []" by (simp add: encode_request_eq)
  let ?b1 = "b\<lparr>world := w', repl := note_ack (peer_id peer) (make_ack_key t p off) off (repl b)\<rparr>"
  have "replicate_to_peer ?env peer ?payload t p off b = (Inr True, ?b1)"
    unfolding replicate_to_peer_def seq_def in_world_def s
    using t(1) ne assms(3) fields unfolding answer_def
    by (simp add: ret_def Let_def handle_ack_def is_leader_def on_repl_def modify_def)
  then have "mark_alive ?env (peer_id peer) ?b1 = (r, c)"
    using run avail by (simp add: replicate_step_def prog)
  then have "ack_count t p off c = ack_count t p off ?b1"
    by (auto simp: mark_alive_def seq_def in_world_def on_repl_def modify_def ack_count_def split: prod.splits)
  then show ?thesis using new by (simp add: ack_count_def note_ack_def acked_by_def Let_def)
qed


definition ready_peers :: "network \<Rightarrow> string \<Rightarrow> int32 \<Rightarrow> u64 \<Rightarrow> fleet broker \<Rightarrow> ClusterPeer list \<Rightarrow> ClusterPeer list" where
  "ready_peers net t p off b = filter (\<lambda>peer. connected net peer \<and> in_step t p off b peer)"

lemma ready_peers_frame:
  assumes "cfg c = cfg b" and "\<forall>q\<in>set ps. map_of (nodes (world c)) (address q) = map_of (nodes (world b)) (address q)"
    and "\<forall>q\<in>set ps. is_peer_available (peer_id q) c = is_peer_available (peer_id q) b"
  shows "ready_peers net t p off c ps = ready_peers net t p off b ps"
  unfolding ready_peers_def using assms by (auto simp: in_step_def intro!: filter_cong)

lemma replicate_loop_counts:
  assumes fenv: "healthy_disk fenv" and ok: "replicable t p msg"
  shows "is_leader b \<Longrightarrow> distinct (map address ps) \<Longrightarrow> distinct (map peer_id ps) \<Longrightarrow>
    \<forall>peer\<in>set ps. peer_ready t p msg (world b) peer \<and> (peer_id peer \<in> acked_by t p off b \<longrightarrow> peer_id peer = cfg_id (cfg b)) \<Longrightarrow>
    \<exists>c. for_each (replicate_step (cluster_env net fenv) (build_replication_request t p off msg) t p off) ps b = (Inr (), c) \<and>
      ack_count t p off b + length (ready_peers net t p off b ps) \<le> ack_count t p off c"
proof (induction ps arbitrary: b)
  case Nil
  then show ?case by (simp add: ret_def ready_peers_def)
next
  case (Cons peer ps)
  let ?step = "replicate_step (cluster_env net fenv) (build_replication_request t p off msg) t p off"
  obtain b1 where b1: "?step peer b = (Inr (), b1)" using replicate_step_returns by blast
  have ready: "peer_ready t p msg (world b) peer" using Cons.prems(4) by simp
  note one = replicate_step_cluster [OF b1 fenv ok ready] and fr = replicate_step_frame [OF b1]
  have others: "\<forall>q\<in>set ps. address q \<noteq> address peer \<and> peer_id q \<noteq> peer_id peer"
    using Cons.prems(2,3) by (auto simp: image_iff)
  have "acked_by t p off b1 \<subseteq> insert (peer_id peer) (acked_by t p off b)"
    using one by (auto simp: holding_peers_def)
  then have new: "\<forall>q\<in>set ps. peer_id q \<in> acked_by t p off b1 \<longrightarrow> peer_id q = cfg_id (cfg b1)"
    using Cons.prems(4) others one by auto
  have same: "\<forall>q\<in>set ps. map_of (nodes (world b1)) (address q) = map_of (nodes (world b)) (address q)"
    using one others by blast
  then have prem: "\<forall>q\<in>set ps. peer_ready t p msg (world b1) q \<and> (peer_id q \<in> acked_by t p off b1 \<longrightarrow> peer_id q = cfg_id (cfg b1))"
    using Cons.prems(4) new by (simp add: peer_ready_def)
  have "is_leader b1" using Cons.prems(1) one by (simp add: is_leader_def)
  from Cons.IH [OF this _ _ prem] obtain c where c: "for_each ?step ps b1 = (Inr (), c)"
    "ack_count t p off b1 + length (ready_peers net t p off b1 ps) \<le> ack_count t p off c"
    using Cons.prems(2,3) by auto
  have rest: "ready_peers net t p off b1 ps = ready_peers net t p off b ps"
    using one same others fr by (intro ready_peers_frame) auto
  have "ack_count t p off b + length (ready_peers net t p off b [peer]) \<le> ack_count t p off b1"
  proof (cases "connected net peer \<and> in_step t p off b peer")
    case True
    then have "peer_id peer \<notin> acked_by t p off b" using Cons.prems(4) by (auto simp: in_step_def)
    then show ?thesis
      using True replicate_step_counts [OF _ _ Cons.prems(1) fenv ok ready _ b1] by (simp add: ready_peers_def)
  next
    case False
    then show ?thesis using fr by (auto simp: ready_peers_def)
  qed
  moreover have "length (ready_peers net t p off b (peer # ps)) =
      length (ready_peers net t p off b [peer]) + length (ready_peers net t p off b ps)"
    by (simp add: ready_peers_def)
  ultimately show ?case using b1 c rest by (simp add: prog)
qed

lemma one_way_returns: "\<exists>c. one_way_step env payload peer b = (Inr (), c)"
  by (auto simp: one_way_step_def mark_alive_def mark_follower_failed_def seq_def in_world_def on_repl_def modify_def split: prod.split)

lemma for_each_returns: "(\<And>x b. \<exists>c. f x b = (Inr (), c)) \<Longrightarrow> \<exists>c. for_each f xs b = (Inr (), c)"
proof (induction xs arbitrary: b)
  case (Cons x xs)
  obtain b1 where "f x b = (Inr (), b1)" using Cons.prems by blast
  moreover obtain c where "for_each f xs b1 = (Inr (), c)" using Cons by blast
  ultimately show ?case by (simp add: prog)
qed (simp add: ret_def)

lemma broadcast_returns: "\<exists>c. broadcast_commit env t p off b = (Inr (), c)"
  using one_way_returns [of env "build_commit_request t p off"]
  by (auto simp: broadcast_commit_def ret_def intro!: for_each_returns)

lemma wait_returns: "\<exists>c. wait_for_quorum (cluster_env net fenv) t p off timeout b = (Inr (quorum_reached t p off b), c)"
proof -
  have steady: "steady (cluster_env net fenv) (\<lambda>w. int (tick w))" by (simp add: steady_def cluster_env_def)
  obtain start w where s: "now (cluster_env net fenv) (world b) = (start, w)" by fastforce
  obtain w' where "wait_loop (cluster_env net fenv) (quorum_reached t p off b) (start + timeout) w = Some (quorum_reached t p off b, w')"
    using wait_loop_returns [OF steady] by blast
  with s show ?thesis by (simp add: wait_for_quorum_def)
qed

lemma replicate_message_succeeds:
  assumes "is_leader b" and fenv: "healthy_disk fenv" and ok: "replicable t p msg"
    and dist: "distinct (map address (cfg_peers (cfg b)))" "distinct (map peer_id (cfg_peers (cfg b)))"
    and ready: "list_all (peer_ready t p msg (world b)) (cfg_peers (cfg b))"
    and fresh: "acked_by t p off b \<subseteq> {cfg_id (cfg b)}"
    and enough: "quorum b \<le> 1 + length (ready_peers net t p off b (cfg_peers (cfg b)))"
  shows "\<exists>c. replicate_message (cluster_env net fenv) t p off msg b = (Inr True, c) \<and> quorum_reached t p off c"
proof -
  let ?ps = "cfg_peers (cfg b)" and ?step = "replicate_step (cluster_env net fenv) (build_replication_request t p off msg) t p off"
  obtain b0 where start: "start_acks (make_ack_key t p off) b = (Inr (), b0)" "world b0 = world b" "cfg b0 = cfg b"
    "ack_count t p off b0 = 1" "failed_peers (repl b0) = failed_peers (repl b)"
    "acked_by t p off b0 = insert (cfg_id (cfg b)) (acked_by t p off b)"
    by (simp add: start_acks_def on_repl_def modify_def ack_count_def acked_by_def)
  have acked: "acked_by t p off b0 \<subseteq> {cfg_id (cfg b)}" using fresh start(6) by auto
  have same: "ready_peers net t p off b0 ?ps = ready_peers net t p off b ?ps"
    by (rule ready_peers_frame) (simp_all add: start is_peer_available_def)
  have peers: "\<forall>peer\<in>set ?ps. peer_ready t p msg (world b0) peer \<and> (peer_id peer \<in> acked_by t p off b0 \<longrightarrow> peer_id peer = cfg_id (cfg b0))"
    using ready acked start(2,3) by (auto simp: list_all_iff)
  have "is_leader b0" using assms(1) start(3) by (simp add: is_leader_def)
  from replicate_loop_counts [OF fenv ok this dist peers, of net]
  obtain c where c: "for_each ?step ?ps b0 = (Inr (), c)" "1 + length (ready_peers net t p off b ?ps) \<le> ack_count t p off c"
    using same start(4) by auto
  have "acked_by t p off b0 \<subseteq> insert (cfg_id (cfg b)) (holding_peers [] (world b0) t p off msg)"
    using acked by auto
  with replicate_loop_cluster [OF fenv ok c(1), of "[]"] have "cfg c = cfg b"
    using dist(1) peers start(3) by auto
  then have "quorum_reached t p off c" using c(2) enough by (simp add: quorum_reached_count quorum_def)
  then show ?thesis using assms(1) start(1) c(1) by (simp add: replicate_message_def prog)
qed

lemma after_append_succeeds:
  assumes "is_leader b" and fenv: "healthy_disk fenv" and ok: "replicable t p msg"
    and dist: "distinct (map address (cfg_peers (cfg b)))" "distinct (map peer_id (cfg_peers (cfg b)))"
    and ready: "list_all (peer_ready t p msg (world b)) (cfg_peers (cfg b))"
    and fresh: "acked_by t p off b \<subseteq> {cfg_id (cfg b)}"
    and enough: "quorum b \<le> 1 + length (ready_peers net t p off b (cfg_peers (cfg b)))"
  shows "\<exists>c. after_append (cluster_env net fenv) t p msg off b = (Inr (accepted [] off), c)"
proof -
  let ?env = "cluster_env net fenv"
  obtain b1 where b1: "refresh t b = (Inr (), b1)" using refresh_frame(4) by (metis surj_pair)
  then have f1: "repl b1 = repl b" "cfg b1 = cfg b" "world b1 = world b"
    using refresh_frame [OF b1] by (auto simp: refresh_def on_groups_def)
  have same: "ready_peers net t p off b1 (cfg_peers (cfg b)) = ready_peers net t p off b (cfg_peers (cfg b))"
    by (rule ready_peers_frame) (simp_all add: f1 is_peer_available_def)
  obtain b2 where b2: "replicate_message ?env t p off msg b1 = (Inr True, b2)" "quorum_reached t p off b2"
    using replicate_message_succeeds [of b1 fenv t p msg off net] assms f1 same
    by (auto simp: is_leader_def acked_by_def quorum_def)
  obtain b3 where b3: "wait_for_quorum ?env t p off kQuorumTimeout b2 = (Inr True, b3)"
    using wait_returns [of net fenv t p off kQuorumTimeout b2] b2(2) by auto
  obtain c where "broadcast_commit ?env t p off (snd (mark_committed t p off b3)) = (Inr (), c)"
    using broadcast_returns by blast
  then have "after_append ?env t p msg off b = (Inr (accepted [] off), c)"
    using b1 b2(1) b3 by (simp add: after_append_def prog seq_Inr [OF mark_committed_eq])
  then show ?thesis by blast
qed


lemma cluster_append:
  assumes "cluster_ok t p msg b"
  obtains S w where "in_store (cluster_env net fenv) (\<lambda>e. storage_append e t p msg) b =
      (Inr (of_nat (length (stored (store b) t p))), b\<lparr>store := S, world := w\<rparr>)"
    and "stored S t p = stored (store b) t p @ [msg]" and "nodes w = nodes (world b)"
proof -
  let ?env = "cluster_env net fenv"
  have disk: "healthy_disk ?env" by (simp add: healthy_disk_def cluster_env_def healthy_healthy_os)
  have room: "room_left (store b) t p [msg]" using assms by (simp add: cluster_ok_def)
  obtain S w where S: "in_store ?env (\<lambda>e. storage_append e t p msg) b = (Inr (of_nat (length (stored (store b) t p))), b\<lparr>store := S, world := w\<rparr>)"
    "stored S t p = stored (store b) t p @ [msg]"
    using in_store_append [OF disk room] by blast
  have "nodes w = nodes (world b)"
    using S(1) by (auto simp: in_store_def seq_def in_world_def cluster_env_def dest: arg_cong [where f = world] split: prod.splits)
  with that S show ?thesis by blast
qed

text \<open>Enough followers: with the leader, those that will acknowledge form a quorum.\<close>

definition enough_followers :: "network \<Rightarrow> string \<Rightarrow> int32 \<Rightarrow> fleet broker \<Rightarrow> bool" where
  "enough_followers net t p b \<longleftrightarrow> distinct (map peer_id (cfg_peers (cfg b))) \<and>
     quorum b \<le> 1 + length (ready_peers net t p (of_nat (length (stored (store b) t p))) b (cfg_peers (cfg b)))"

definition unacknowledged :: "string \<Rightarrow> int32 \<Rightarrow> 'w broker \<Rightarrow> bool" where
  "unacknowledged t p b \<longleftrightarrow> acked_by t p (of_nat (length (stored (store b) t p))) b \<subseteq> {cfg_id (cfg b)}"

lemma cluster_produce_returns:
  assumes "healthy_disk fenv" and "cluster_ok (topic req) (partition req) (message req) b" and "is_leader b"
    and "replicable (topic req) (partition req) (message req)"
    and "unacknowledged (topic req) (partition req) b" and "enough_followers net (topic req) (partition req) b"
  shows "\<exists>c. handle_produce (cluster_env net fenv) req b =
    (Inr (accepted [] (of_nat (length (stored (store b) (topic req) (partition req))))), c)"
proof -
  let ?t = "topic req" and ?p = "partition req" and ?m = "message req" and ?env = "cluster_env net fenv"
  let ?off = "of_nat (length (stored (store b) ?t ?p)) :: u64"
  obtain S w where S: "in_store ?env (\<lambda>e. storage_append e ?t ?p ?m) b = (Inr ?off, b\<lparr>store := S, world := w\<rparr>)"
    "nodes w = nodes (world b)"
    using cluster_append [OF assms(2), of net fenv] by metis
  let ?b = "b\<lparr>store := S, world := w\<rparr>" and ?ps = "cfg_peers (cfg b)"
  have same: "ready_peers net ?t ?p ?off ?b ?ps = ready_peers net ?t ?p ?off b ?ps"
    by (rule ready_peers_frame) (simp_all add: S(2) is_peer_available_def)
  have "is_leader ?b" "distinct (map address (cfg_peers (cfg ?b)))" "distinct (map peer_id (cfg_peers (cfg ?b)))"
    "list_all (peer_ready ?t ?p ?m (world ?b)) (cfg_peers (cfg ?b))"
    "acked_by ?t ?p ?off ?b \<subseteq> {cfg_id (cfg ?b)}"
    "quorum ?b \<le> 1 + length (ready_peers net ?t ?p ?off ?b (cfg_peers (cfg ?b)))"
    using assms(2,3,5,6) same
    by (simp_all add: is_leader_def cluster_ok_def peer_ready_def [abs_def] S(2) acked_by_def unacknowledged_def
      enough_followers_def quorum_def)
  from after_append_succeeds [OF this(1) assms(1,4) this(2-6)] obtain c where
    "after_append ?env ?t ?p ?m ?off ?b = (Inr (accepted [] ?off), c)" by blast
  then have "handle_produce ?env req b = (Inr (accepted [] ?off), c)"
    using assms(3,4) S(1) by (simp add: handle_produce_leader replicable_def prog)
  then show ?thesis by blast
qed

section \<open>Sample cluster\<close>

text \<open>Three brokers; the leader reaches the second, which takes the bytes in small pieces, but not the third.\<close>

definition trio_peers :: "ClusterPeer list" where
  "trio_peers = [\<lparr>peer_id = int32_of 2, peer_host = ''b'', peer_port = int32_of 1\<rparr>,
                 \<lparr>peer_id = int32_of 3, peer_host = ''c'', peer_port = int32_of 1\<rparr>]"

definition trio_node :: "int \<Rightarrow> unit broker" where
  "trio_node i =
     (let c = new_config (int32_of 1) (int32_of i) ''n'' [] ''data'' FOLLOWER (int32_of 1)
      in \<lparr>cfg = c, store = sample_storage, repl = new_replication c 0, groups = [], world = ()\<rparr>)"

definition trio :: "fleet broker" where
  "trio =
     (let c = new_config (int32_of 1) (int32_of 1) ''a'' trio_peers ''data'' LEADER (int32_of 1)
      in \<lparr>cfg = c, store = sample_storage, repl = new_replication c 0, groups = [],
          world = \<lparr>nodes = [((''b'', 1), trio_node 2), ((''c'', 1), trio_node 3)], tick = 0\<rparr>\<rparr>)"

definition trio_net :: network where
  "trio_net = \<lparr>link = \<lambda>now h p. if h = ''b'' then Some (\<lambda>i. 7) else None, reply_lost = \<lambda>now h p. False\<rparr>"

definition still_env :: "unit env" where
  "still_env = \<lparr>dial = \<lambda>h p w. (None, w), deliver = \<lambda>h p out w. ([], w), now = \<lambda>w. (0, w),
     sleep_for = \<lambda>d w. w, disk_os = \<lambda>w. (healthy_os, w)\<rparr>"

lemma still_disk: "healthy_disk still_env"
  by (simp add: healthy_disk_def still_env_def healthy_healthy_os)

lemma sample_room: "room_left sample_storage t p [''m'']"
  using sample_storage_wf by (simp add: room_left_def roomy_def)

lemma sample_port: "sin_port (int32_of 1) = 1" by code_simp

lemma lookup_new_replication: "lookup d (ack_followers (new_replication c t)) k = d"
  by (simp add: new_replication_def lookup_def)

lemma trio_facts:
  "cluster_ok ''t'' (int32_of 0) ''m'' trio" "is_leader trio" "acks_ok (repl trio)" "unacknowledged ''t'' (int32_of 0) trio"
  "stored (store trio) t p = []" "cfg_peers (cfg trio) = trio_peers"
  by (simp_all add: cluster_ok_def trio_def trio_peers_def trio_node_def address_def sample_port peer_ready_def sample_room Let_def
    new_config_def is_leader_def cfg_is_leader_def acked_by_def unacknowledged_def sample_storage_wf
    lookup_new_replication)

lemma trio_ids: "int32_of 2 \<noteq> int32_of 1" "int32_of 2 \<noteq> int32_of 3" by code_simp+

lemma trio_enough: "enough_followers trio_net ''t'' (int32_of 0) trio"
  by (simp add: enough_followers_def ready_peers_def in_step_def connected_def trio_net_def trio_facts trio_peers_def
    trio_def trio_node_def Let_def new_config_def quorum_def address_def sample_port is_leader_def cfg_is_leader_def sample_storage_wf
    is_peer_available_def new_replication_def trio_ids)

lemma sample_replicable: "replicable ''t'' (int32_of 0) ''m''"
  by (simp add: replicable_def fits_def kMaxStringBytes_def)

section \<open>Properties\<close>

text \<open>
  C1. What a success is worth: when the leader of a cluster answers a produce with success, more
  than half of the brokers, counting the leader, have the message in their log at the offset of
  the response, on any network, whatever connections failed, writes were cut short and replies got
  lost on the way.
\<close>
theorem produce_replicated_on_majority:
  assumes "healthy_disk fenv" and "cluster_ok (topic req) (partition req) (message req) b" and "within_limits req"
    and "is_leader b" and "acks_ok (repl b)"
    and "unacknowledged (topic req) (partition req) b"
    and "handle_produce (cluster_env net fenv) req b = (Inr r, c)" and "success r"
  shows "1 + length (cfg_peers (cfg c)) < 2 * card (holders c (topic req) (partition req) (appended_offset r) (message req))"
proof -
  let ?t = "topic req" and ?p = "partition req" and ?m = "message req" and ?env = "cluster_env net fenv"
  let ?n = "length (stored (store b) ?t ?p)"
  have room: "room_left (store b) ?t ?p [?m]" using assms(2) by (simp add: cluster_ok_def)
  have valid: "?t \<noteq> []" "0 \<le> val32 ?p" "?m \<noteq> []"
    using leader_accepts [OF assms(4,7,8)] by simp_all
  then have rep: "replicable ?t ?p ?m" using assms(3) by (simp add: replicable_def within_limits_def)
  obtain S w where S: "in_store ?env (\<lambda>e. storage_append e ?t ?p ?m) b = (Inr (of_nat ?n), b\<lparr>store := S, world := w\<rparr>)"
    "stored S ?t ?p = stored (store b) ?t ?p @ [?m]" and w: "nodes w = nodes (world b)"
    using cluster_append [OF assms(2), of net fenv] by metis
  let ?b = "b\<lparr>store := S, world := w\<rparr>"
  have run: "after_append ?env ?t ?p ?m (of_nat ?n) ?b = (Inr r, c)"
    using assms(4,7) valid S(1) by (simp add: handle_produce_leader prog)
  have out: "store c = S" "r = accepted [] (of_nat ?n)"
    "1 + length (cfg_peers (cfg c)) < 2 * card (acked_by ?t ?p (of_nat ?n) c)"
    using after_append_outcome [OF run] assms(4,5,8) by (simp_all add: is_leader_def)
  have "list_all (peer_ready ?t ?p ?m (world ?b)) (cfg_peers (cfg ?b))" "distinct (map address (cfg_peers (cfg ?b)))"
    "acked_by ?t ?p (of_nat ?n) ?b \<subseteq> {cfg_id (cfg ?b)}"
    using assms(2,6) by (simp_all add: cluster_ok_def peer_ready_def [abs_def] w acked_by_def unacknowledged_def)
  from after_append_cluster [OF run assms(8,1) rep this(2,1,3)]
  have acked: "acked_by ?t ?p (of_nat ?n) c \<subseteq> insert (cfg_id (cfg c)) (holding_peers (cfg_peers (cfg c)) (world c) ?t ?p (of_nat ?n) ?m)"
    by simp
  have "unat (of_nat ?n :: u64) = ?n"
    using room unat_offset [of "stored (store b) ?t ?p @ [?m]" ?n] by (simp add: room_left_def)
  then have "has_record (store c) ?t ?p (of_nat ?n) ?m" by (simp add: has_record_def out(1) S(2))
  then have "acked_by ?t ?p (of_nat ?n) c \<subseteq> holders c ?t ?p (of_nat ?n) ?m"
    using acked by (simp add: holders_def)
  then have "card (acked_by ?t ?p (of_nat ?n) c) \<le> card (holders c ?t ?p (of_nat ?n) ?m)"
    by (rule card_mono [OF finite_holders])
  then show ?thesis using out(2,3) by (simp add: accepted_def)
qed


theorem produce_replicated_on_majority_witness:
  "\<exists>c. handle_produce (cluster_env trio_net still_env) (produce_of ''t'' (int32_of 0) ''m'') trio = (Inr (accepted [] 0), c) \<and>
    1 + length (cfg_peers (cfg c)) < 2 * card (holders c ''t'' (int32_of 0) 0 ''m'')"
proof -
  let ?req = "produce_of ''t'' (int32_of 0) ''m''"
  obtain c where c: "handle_produce (cluster_env trio_net still_env) ?req trio = (Inr (accepted [] 0), c)"
    using cluster_produce_returns [OF still_disk, of ?req trio trio_net] trio_facts trio_enough sample_replicable by auto
  have "within_limits ?req" using sample_replicable by (simp add: within_limits_def replicable_def produce_of_def blank_request_def)
  then show ?thesis
    using produce_replicated_on_majority [OF still_disk _ _ trio_facts(2,3) _ c] trio_facts c by (simp add: accepted_def)
qed

text \<open>
  C2. When a produce goes through: if the followers that the leader considers live, can reach and
  that are in step with its log make a quorum together with it, a valid message is accepted, at
  the end of the partition's log, and is committed when the response goes out; the other peers,
  down, unreachable or behind, do not hold it up.
\<close>
theorem produce_succeeds:
  assumes "healthy_disk fenv" and "cluster_ok (topic req) (partition req) (message req) b" and "is_leader b"
    and "acks_ok (repl b)" and "replicable (topic req) (partition req) (message req)"
    and "unacknowledged (topic req) (partition req) b" and "enough_followers net (topic req) (partition req) b"
  shows "\<exists>r c. handle_produce (cluster_env net fenv) req b = (Inr r, c) \<and> success r \<and>
    appended_offset r = of_nat (length (stored (store b) (topic req) (partition req))) \<and>
    is_committed (topic req) (partition req) (appended_offset r) c"
proof -
  let ?t = "topic req" and ?p = "partition req" and ?m = "message req" and ?env = "cluster_env net fenv"
  let ?off = "of_nat (length (stored (store b) ?t ?p)) :: u64"
  obtain c where c: "handle_produce ?env req b = (Inr (accepted [] ?off), c)"
    using cluster_produce_returns [OF assms(1-3,5-7)] by blast
  obtain S w where S: "in_store ?env (\<lambda>e. storage_append e ?t ?p ?m) b = (Inr ?off, b\<lparr>store := S, world := w\<rparr>)"
    using cluster_append [OF assms(2), of net fenv] by metis
  have "after_append ?env ?t ?p ?m ?off (b\<lparr>store := S, world := w\<rparr>) = (Inr (accepted [] ?off), c)"
    using c assms(3,5) S by (simp add: handle_produce_leader replicable_def prog)
  from after_append_outcome [OF this] have "is_committed ?t ?p ?off c"
    using assms(3,4) by (simp add: is_leader_def accepted_def)
  then show ?thesis using c by (auto simp: accepted_def)
qed

theorem produce_succeeds_witness:
  "\<exists>r c. handle_produce (cluster_env trio_net still_env) (produce_of ''t'' (int32_of 0) ''m'') trio = (Inr r, c) \<and> success r"
  using produce_succeeds [OF still_disk _ trio_facts(2,3), of "produce_of ''t'' (int32_of 0) ''m''" trio_net]
    trio_facts trio_enough sample_replicable by auto

end
