(* ===== verification/Spec2Isabelle.thy ===== *)
theory Spec2Isabelle
  imports LogProperties BrokerProperties MainProgram ClusterProperties
begin

text \<open>
  \<^bold>\<open>A replicated log broker.\<close> The program is a message broker: clients produce messages to the
  partitions of a topic and read them back by offset, alone or as a consumer group; the leader of
  a cluster replicates each message to its followers and commits it when a majority has it.

  \<^bold>\<open>The parts and their theories\<close>, from the bottom up. The names of definitions are those of the
  code, with a prefix where a name occurs in several classes (\<open>log_append\<close>, \<open>storage_append\<close>).

  \<^item> \<open>Prelude\<close>: C++ integers at their widths, \<^verbatim>\<open>std::to_string\<close> and \<^verbatim>\<open>std::stoi\<close>, the exceptions of
    the code as the datatype \<open>failure\<close>, and programs that update a state and may throw
    (\<open>prog\<close>, with \<open>seq\<close>, \<open>ret\<close>, \<open>throw\<close>).
  \<^item> \<open>Protocol\<close> (\<^verbatim>\<open>src/protocol/protocol.cpp\<close>) and \<open>Frame\<close> (\<^verbatim>\<open>src/protocol/frame.cpp\<close>): requests and
    responses as records, their encoding and parsing, and length-prefixed frames over sockets that
    split and cut what is written.
  \<^item> \<open>Segment\<close> (\<^verbatim>\<open>src/storage/log_segment.cpp\<close>) and \<open>PartitionLog\<close> (\<^verbatim>\<open>src/storage/log.cpp\<close>): segment
    files, sparse index, write-ahead log, batched syncing and start-up, over a directory whose
    files have a visible and a stable part. \<open>LogCorrect\<close> has the invariant and the run-time
    operations, \<open>LogRecovery\<close> start-up and crashes, \<open>LogSpec\<close> the view of a log as the list of its
    records, \<open>LogProperties\<close> the theorems.
  \<^item> \<open>AppendLog\<close>: the contract of an append-only log, a locale whose instances are the partition log
    and a partition of the storage engine.
  \<^item> \<open>Storage\<close> (\<^verbatim>\<open>src/storage/storage_engine.cpp\<close>): the open logs by topic and partition.
  \<^item> \<open>ConsumerGroups\<close> (\<^verbatim>\<open>src/core/consumer_group_manager.cpp\<close>): a state machine with its reachable
    states. \<open>Config\<close> (\<^verbatim>\<open>src/config/broker_config.cpp\<close>): identity, role and peers.
  \<^item> \<open>Replication\<close> (\<^verbatim>\<open>src/replication/replication_manager.cpp\<close>) and \<open>Broker\<close>
    (\<^verbatim>\<open>src/core/broker.cpp\<close>): the record \<open>broker\<close> holds the configuration, the storage engine, the
    replication state, the groups and the world outside; each method is a program on it.
  \<^item> \<open>BrokerRun\<close>: locales that carry a relation from single updates to every handler, and their
    instances. \<open>BrokerInvariants\<close>, \<open>Produce\<close>, \<open>Follower\<close>, \<open>Election\<close> and \<open>BrokerProperties\<close> have the
    theorems on one broker.
  \<^item> \<open>Server\<close> (\<^verbatim>\<open>src/network/tcp_server.cpp\<close>): the loop over one connection, and the threads of the
    server as a step relation. \<open>MainProgram\<close> (\<^verbatim>\<open>src/main.cpp\<close>): the command line, start and stop.
  \<^item> \<open>Cluster\<close> and \<open>ClusterProperties\<close>: several brokers on a network that drops connections, cuts
    writes and loses replies.
\<close>

text \<open>
  \<^bold>\<open>How the parts interact.\<close> \<open>handle_client\<close> reads frames and parses them; client requests go to
  \<open>handle_request\<close>, requests of other brokers to \<open>handle_inter_broker_request\<close>. A produce appends to
  the storage engine, refreshes the groups of the topic, sends the record to each live peer and
  counts the acknowledgements, waits for the quorum, commits and tells the peers. A fetch reads the
  storage engine below the commit index.

  \<^bold>\<open>What is a parameter.\<close> The operating system is the record \<open>os\<close>: which files can be opened,
  written, synced. The rest of the world is a state of any type with the operations of the record
  \<open>env\<close>: opening a connection, what comes back for the bytes sent, the clock, sleeping. Theorems
  that need a working disk say so (\<open>healthy\<close>, \<open>healthy_disk\<close>), those that need a clock that advances
  say \<open>steady\<close>; \<open>room_left\<close> says that a log stays below \<open>2 ^ 64\<close> records and bytes. In \<open>Cluster\<close> the
  environment is no longer free: what is sent to an address is handled by the broker there.

  \<^bold>\<open>What is shown.\<close>

  \<^item> Log and storage: an append returns the next offset and changes no record before it; a fetch
    through index and segments is indexing a list; reopening keeps the records; after a crash that
    tears the active segment and the write-ahead log, what comes back is a prefix that misses only
    unsynced records; partitions do not see each other.
  \<^item> Protocol and frames: parsing inverts encoding, accepted payloads are encodings, and frames
    arrive whole and in order through every chunking and every partial write.
  \<^item> Writing: a success means the record is in the log at the offset returned, committed and
    acknowledged by a majority of distinct brokers, and in a cluster that a majority of the brokers
    holds it at that offset; with a quorum of reachable followers in step a produce does succeed.
  \<^item> Reading: what was read once is read for ever, after every interleaving of atomic steps of the
    broker.
  \<^item> Groups: a partition has one owner, is dealt round-robin, and cursors move only forward and only
    by commits of the owner.
  \<^item> Replication: a follower in step stays a copy of the leader's log, and one that is out of step
    never acknowledges again, whatever follows. Elections choose the live broker with the lowest id; waiting for a quorum ends.
  \<^item> The server answers the requests of a connection in order and closes every socket once.
  \<^item> Behaviours the code should not have, on concrete runs: records renumbered by a restart with
    more than ten segments, a rejected append that comes back, shifted offsets after a torn closed
    segment, topics whose partitions are confused, a leave with another topic's partitions, an
    empty record that stops a group, a follower that serves wrong records, and a restart that hides
    committed ones.
\<close>

text \<open>
  \<^bold>\<open>Bounds and fuel.\<close> \<open>handle_client\<close> takes fuel, one more than the requests it may serve: each
  request consumes at least one byte, so the number of bytes received, plus one, is enough, which is
  what \<open>receive\<close> in \<open>Cluster\<close> gives it. \<open>heartbeat_loop\<close> takes the number of rounds in which the running
  flag is found set. \<open>wait_loop\<close> is a partial function whose value \<open>None\<close> is waiting for ever, and
  is shown to return on a clock that advances. The loops that read segment files, the write-ahead
  log and frames are total functions with their own measures.

  \<^bold>\<open>Atomicity.\<close> The methods of a log, of the group manager and of the replication manager hold a mutex
  for their whole body; each is a function on the state. A handler of the broker is not one step:
  it is a run of atomic steps, between which those of other requests can happen, and the invariants
  and \<open>committed_reads_stable\<close> hold for every such interleaving. The theorems on the outcome of a
  produce are about one handler that runs without others between its steps.

  \<^bold>\<open>Not modelled.\<close> Data races of the storage engine, whose map of logs has no lock. The socket calls
  themselves, \<^verbatim>\<open>inet_pton\<close> and the byte order of addresses are inside the environment; the messages
  printed, the signal handlers and the loop of \<^verbatim>\<open>main\<close> that sleeps until a signal arrives have no
  effect on the state. A worker thread that dies of an exception takes the process down: the model
  stops at the exception. The files of \<^verbatim>\<open>src/util\<close>, \<^verbatim>\<open>tools\<close> and
  \<^verbatim>\<open>heartbeat_manager\<close> are empty, and the tests are not part of the program.
\<close>

end
